(* ===== verification/Prelude.thy ===== *)
theory Prelude
  imports Main "HOL-Library.Word" "HOL-Library.AList"
begin

text \<open>
  What every component theory shares: the types that stand for the machine
  integers of the source, the exceptions the modelled code raises, the outcome of
  a state-changing operation that may throw, and generic facts on lists, powers of
  two and words.

  \<^item> \<open>u64 n\<close> is the value a 64-bit unsigned variable holds after the
    mathematical result \<open>n\<close> was stored into it.
  \<^item> \<open>error\<close> names the long error codes (\<^verbatim>\<open>SCIDB_LE_...\<close>) of the
    exceptions the modelled code throws; \<open>Undefined_Behaviour\<close> stands for an
    execution the C++ standard gives no meaning (an invalid iterator, say), so that
    its absence can be stated and proved.
  \<^item> An operation that changes an object and may throw returns the value or the
    exception together with the object as it is left behind: C++ does not undo the
    assignments made before a \<^verbatim>\<open>throw\<close>.

  The model is that of a release build: \<^verbatim>\<open>assert\<close> and
  \<^verbatim>\<open>SCIDB_ASSERT\<close> compile to nothing (\<^verbatim>\<open>include/system/Utils.h\<close>), and
  that the asserted conditions hold is proved where it matters.
\<close>

named_theorems outcome_simps \<open>unfolding of the outcome combinators\<close>

type_synonym byte = "8 word"

section \<open>Exceptions and outcomes\<close>

datatype error =
    LE_CANT_OPEN_PATH
  | LE_CANT_OPEN_FILE
  | LE_CANT_CREATE_DIRECTORY
  | LE_SYSCALL_ERROR
  | LE_OPERATION_FAILED
  | LE_PREAD_ERROR
  | LE_PWRITE_ERROR
  | LE_TOO_MANY_OPEN_FILES
  | LE_DATASTORE_CORRUPT_FREELIST
  | LE_DATASTORE_CHUNK_CORRUPTED
  | LE_ASSERTION_FAILED
  | LE_INJECTED_ERROR
  | LE_CHUNK_TOO_POPULATED
  | LE_CHUNK_TOO_HUGE
  | LE_TRUNCATION
  | LE_BAD_MISSING_REASON
  | LE_TYPE_CONVERSION_ERROR
  | Bad_Alloc
  | Undefined_Behaviour

type_synonym ('a, 's) outcome = "(error + 'a) \<times> 's"

definition ret :: "'a \<Rightarrow> 's \<Rightarrow> ('a, 's) outcome" where
  "ret v s = (Inr v, s)"

definition throw :: "error \<Rightarrow> 's \<Rightarrow> ('a, 's) outcome" where
  "throw e s = (Inl e, s)"

definition andThen :: "('a, 's) outcome \<Rightarrow> ('a \<Rightarrow> 's \<Rightarrow> ('b, 's) outcome) \<Rightarrow> ('b, 's) outcome" where
  "andThen r f = (case r of (Inl e, s) \<Rightarrow> (Inl e, s) | (Inr v, s) \<Rightarrow> f v s)"

lemma andThen_ret [simp, outcome_simps]: "andThen (ret v s) f = f v s"
  by (simp add: andThen_def ret_def)

lemma andThen_throw [simp, outcome_simps]: "andThen (throw e s) f = throw e s"
  by (simp add: andThen_def throw_def)

lemma ret_eq_iff [simp, outcome_simps]:
  "ret v s = ret v' s' \<longleftrightarrow> v = v' \<and> s = s'"
  "throw e s = throw e' s' \<longleftrightarrow> e = e' \<and> s = s'"
  "ret v s \<noteq> throw e s'"
  "throw e s' \<noteq> ret v s"
  by (auto simp: ret_def throw_def)

lemma fst_outcome [simp]:
  "fst (ret v s) = Inr v" "fst (throw e s) = Inl e" "snd (ret v s) = s" "snd (throw e s) = s"
  by (simp_all add: ret_def throw_def)

lemma outcome_cases [case_names throw ret]:
  obtains e s where "r = throw e s" | v s where "r = ret v s"
  by (cases r; cases "fst r") (auto simp: ret_def throw_def)

lemma andThen_eq_ret:
  "andThen r f = ret v s \<longleftrightarrow> (\<exists>w t. r = ret w t \<and> f w t = ret v s)"
  by (cases r rule: outcome_cases) auto

text \<open>The same sequencing for code that may also not return (\<open>None\<close>).\<close>

definition bindO ::
  "('a, 's) outcome option \<Rightarrow> ('a \<Rightarrow> 's \<Rightarrow> ('b, 's) outcome option) \<Rightarrow> ('b, 's) outcome option" where
  "bindO r f = (case r of None \<Rightarrow> None | Some (Inl e, s) \<Rightarrow> Some (Inl e, s) | Some (Inr v, s) \<Rightarrow> f v s)"

lemma bindO_simps [simp, outcome_simps]:
  "bindO None f = None" "bindO (Some (ret v s)) f = f v s" "bindO (Some (throw e s)) f = Some (throw e s)"
  by (simp_all add: bindO_def ret_def throw_def)

lemma bindO_eq_ret:
  "bindO r f = Some (ret v s) \<longleftrightarrow> (\<exists>w t. r = Some (ret w t) \<and> f w t = Some (ret v s))"
proof (cases r)
  case (Some o')
  then show ?thesis by (cases o' rule: outcome_cases) auto
qed simp

lemma bindO_eq_throw:
  "bindO r f = Some (throw e s) \<longleftrightarrow>
     r = Some (throw e s) \<or> (\<exists>w t. r = Some (ret w t) \<and> f w t = Some (throw e s))"
proof (cases r)
  case (Some o')
  then show ?thesis by (cases o' rule: outcome_cases) auto
qed simp

lemma andThen_eq_throw:
  "andThen r f = throw e s \<longleftrightarrow> r = throw e s \<or> (\<exists>w t. r = ret w t \<and> f w t = throw e s)"
  by (cases r rule: outcome_cases) auto

section \<open>Unsigned 64-bit arithmetic on natural numbers\<close>

definition u64 :: "nat \<Rightarrow> nat" where
  "u64 n = n mod 2 ^ 64"

lemma u64_small [simp]: "n < 2 ^ 64 \<Longrightarrow> u64 n = n"
  by (simp add: u64_def)

lemma u64_less [simp]: "u64 n < 2 ^ 64"
  by (simp add: u64_def)

section \<open>Powers of two and aligned blocks\<close>

text \<open>
  A block \<open>(size, off)\<close> covers the bytes \<open>off .. off + size - 1\<close>. Blocks whose size
  is a power of two and divides their offset are nested or disjoint, which is the
  geometry a buddy allocator rests on.
\<close>

definition pow2 :: "nat \<Rightarrow> bool" where
  "pow2 n \<longleftrightarrow> (\<exists>k. n = 2 ^ k)"

lemma pow2_power [simp, intro]: "pow2 (2 ^ k)"
  by (auto simp: pow2_def)

lemma pow2_pos [simp]: "pow2 n \<Longrightarrow> 0 < n"
  by (auto simp: pow2_def)

lemma pow2_double [simp, intro]: "pow2 n \<Longrightarrow> pow2 (2 * n)"
  unfolding pow2_def by (metis power_Suc)

lemma pow2_dvd: "pow2 m \<Longrightarrow> pow2 n \<Longrightarrow> m \<le> n \<Longrightarrow> m dvd n"
  by (auto simp: pow2_def le_imp_power_dvd)

lemma pow2_double_le: "pow2 m \<Longrightarrow> pow2 n \<Longrightarrow> m < n \<Longrightarrow> 2 * m \<le> n"
  by (auto simp: pow2_def simp flip: power_Suc)

lemma pow2_half:
  assumes "pow2 n" "1 < n"
  obtains m where "pow2 m" "n = 2 * m"
proof -
  obtain k where k: "n = 2 ^ k" using assms(1) by (auto simp: pow2_def)
  with assms(2) obtain j where "k = Suc j" by (cases k) auto
  then have "pow2 (2 ^ j)" "n = 2 * 2 ^ j" using k by auto
  then show thesis by (rule that)
qed

type_synonym block = "nat \<times> nat"

definition extent :: "block \<Rightarrow> nat set" where
  "extent b = {snd b ..< snd b + fst b}"

definition aligned :: "block \<Rightarrow> bool" where
  "aligned b \<longleftrightarrow> pow2 (fst b) \<and> fst b dvd snd b"

lemma mem_extent: "x \<in> extent (sz, off) \<longleftrightarrow> off \<le> x \<and> x < off + sz"
  by (auto simp: extent_def)

lemma finite_extent [simp]: "finite (extent b)"
  by (simp add: extent_def)

lemma card_extent [simp]: "card (extent b) = fst b"
  by (simp add: extent_def)

lemma mem_extent_div:
  assumes "0 < sz" "sz dvd off"
  shows "x \<in> extent (sz, off) \<longleftrightarrow> x div sz = off div sz"
proof -
  obtain q where q: "off = sz * q" using assms(2) by blast
  have "x div sz = q" if "sz * q \<le> x" "x < sz * q + sz"
    using that by (intro div_nat_eqI) (simp_all add: mult.commute)
  moreover have "sz * q \<le> x \<and> x < sz * q + sz" if "x div sz = q"
    using dividend_less_times_div [OF assms(1), of x] times_div_less_eq_dividend [of sz x] that
    by simp
  ultimately show ?thesis using assms(1) by (auto simp: mem_extent q)
qed

lemma extent_nested:
  assumes "aligned (m, a)" "aligned (n, b)" "m \<le> n" "extent (m, a) \<inter> extent (n, b) \<noteq> {}"
  shows "extent (m, a) \<subseteq> extent (n, b) \<and> b = a - a mod n"
proof -
  have pos: "0 < m" "0 < n" and dvd: "m dvd a" "n dvd b" and mn: "m dvd n"
    using assms pow2_dvd by (auto simp: aligned_def)
  obtain q where q: "n = m * q" using mn by blast
  have same: "x div n = y div n" if "x div m = y div m" for x y :: nat
    using that by (simp add: q div_mult2_eq)
  obtain x where x: "x \<in> extent (m, a)" "x \<in> extent (n, b)" using assms(4) by blast
  have "x div m = a div m" and xb: "x div n = b div n"
    using x pos dvd by (simp_all add: mem_extent_div)
  then have ab: "a div n = b div n" using same [of x a] by simp
  have "y \<in> extent (n, b)" if "y \<in> extent (m, a)" for y
    using that pos dvd ab same [of y a] by (simp add: mem_extent_div)
  moreover have "b = a - a mod n"
    using ab dvd(2) by (simp add: minus_mod_eq_div_mult)
  ultimately show ?thesis by blast
qed

lemma extent_nonempty [simp]: "0 < sz \<Longrightarrow> extent (sz, off) \<noteq> {}"
  by (auto simp: extent_def)

lemma extent_split: "extent (2 * sz, off) = extent (sz, off) \<union> extent (sz, off + sz)"
  by (auto simp: extent_def)

lemma extent_halves_disjoint: "extent (sz, off) \<inter> extent (sz, off + sz) = {}"
  by (auto simp: extent_def)

end
