(* ===== verification/File_IO.thy ===== *)
theory File_IO
  imports Prelude
begin

text \<open>
  The file object of \<^verbatim>\<open>src/util/FileIO.cpp\<close>: the retry loops around the read
  and write system calls. A file is its list of bytes. The operating system is a
  list of answers, one per system call, in the order the loop makes the calls:
  \<open>Done n\<close> transfers \<open>n\<close> bytes (never more than asked for and, for a read, never
  past the end of the file), \<open>EINTR\<close>, \<open>EAGAIN\<close> and \<open>EOther\<close> are the failures the
  loops tell apart. A loop that uses up the list without finishing yields \<open>None\<close>:
  it is still running.
\<close>

datatype sysret = Done nat | EINTR | EAGAIN | EOther

record statistics =
  writtenSize :: nat
  writtenChunks :: nat
  readSize :: nat
  readChunks :: nat

definition MAX_READ_RETRIES :: nat where "MAX_READ_RETRIES = 3"
definition MAX_WRITE_RETRIES :: nat where "MAX_WRITE_RETRIES = 10"
definition MAX_EINTR_RETRIES :: nat where "MAX_EINTR_RETRIES = 1000"

lemmas retry_limits = MAX_READ_RETRIES_def MAX_WRITE_RETRIES_def MAX_EINTR_RETRIES_def

section \<open>The system calls\<close>

text \<open>
  \<^verbatim>\<open>pwrite\<close> past the end of the file fills the gap with zero bytes; \<^verbatim>\<open>pread\<close> returns
  what is there.
\<close>

definition pwrite :: "byte list \<Rightarrow> nat \<Rightarrow> byte list \<Rightarrow> byte list" where
  "pwrite f off bs =
     (if bs = [] then f
      else take off (f @ replicate (off - length f) 0) @ bs @ drop (off + length bs) f)"

definition pread :: "byte list \<Rightarrow> nat \<Rightarrow> nat \<Rightarrow> byte list" where
  "pread f off n = take n (drop off f)"

definition truncate_to :: "nat \<Rightarrow> byte list \<Rightarrow> byte list" where
  "truncate_to n f = take n (f @ replicate (n - length f) 0)"

section \<open>writeAll and writeAllv\<close>

fun writeAll_loop ::
  "sysret list \<Rightarrow> byte list \<Rightarrow> nat \<Rightarrow> nat \<Rightarrow> nat \<Rightarrow> byte list \<Rightarrow> (nat, byte list) outcome option" where
  "writeAll_loop rs src offs nRetries eintrRetries f =
     (if length src = 0 then Some (ret (length src) f)
      else (case rs of
        [] \<Rightarrow> None
      | r # rs' \<Rightarrow>
          (case r of
             EINTR \<Rightarrow>
               if eintrRetries + 1 < MAX_EINTR_RETRIES
               then writeAll_loop rs' src offs 0 (eintrRetries + 1) f
               else Some (throw LE_PWRITE_ERROR f)
           | EAGAIN \<Rightarrow>
               if nRetries + 1 < MAX_WRITE_RETRIES
               then writeAll_loop rs' src offs (nRetries + 1) 0 f
               else Some (throw LE_PWRITE_ERROR f)
           | EOther \<Rightarrow> Some (throw LE_PWRITE_ERROR f)
           | Done n \<Rightarrow>
               (let rc = min n (length src) in
                if rc = 0
                then (if nRetries + 1 < MAX_WRITE_RETRIES
                      then writeAll_loop rs' src offs (nRetries + 1) 0 f
                      else Some (throw LE_PWRITE_ERROR f))
                else writeAll_loop rs' (drop rc src) (offs + rc) 0 0
                       (pwrite f offs (take rc src))))))"

declare writeAll_loop.simps [simp del]

text \<open>
  \<open>iov_resume iovs skip\<close> is the vector the code hands to the next call after
  \<open>skip\<close> bytes were transferred in all: it walks over the vectors that are shorter
  than what is left to skip, cuts the next one and keeps the rest.
\<close>

fun iov_resume :: "'a list list \<Rightarrow> nat \<Rightarrow> 'a list list" where
  "iov_resume [] skip = []"
| "iov_resume (v # vs) skip =
     (if 0 < skip \<and> length v < skip then iov_resume vs (skip - length v)
      else drop skip v # vs)"

fun writeAllv_loop ::
  "sysret list \<Rightarrow> byte list list \<Rightarrow> byte list list \<Rightarrow> nat \<Rightarrow> nat \<Rightarrow> nat \<Rightarrow> nat \<Rightarrow> nat \<Rightarrow> byte list \<Rightarrow>
     (nat, byte list) outcome option" where
  "writeAllv_loop rs iovs myiovs totalSize bytesWritten offs nRetries eintrRetries f =
     (if totalSize = 0 then Some (ret totalSize f)
      else (case rs of
        [] \<Rightarrow> None
      | r # rs' \<Rightarrow>
          (case r of
             EINTR \<Rightarrow>
               if eintrRetries + 1 < MAX_EINTR_RETRIES
               then writeAllv_loop rs' iovs myiovs totalSize bytesWritten offs 0 (eintrRetries + 1) f
               else Some (throw LE_PWRITE_ERROR f)
           | EAGAIN \<Rightarrow>
               if nRetries + 1 < MAX_WRITE_RETRIES
               then writeAllv_loop rs' iovs myiovs totalSize bytesWritten offs (nRetries + 1) 0 f
               else Some (throw LE_PWRITE_ERROR f)
           | EOther \<Rightarrow> Some (throw LE_PWRITE_ERROR f)
           | Done n \<Rightarrow>
               (let rc = min n (length (concat myiovs)) in
                if rc = 0
                then (if nRetries + 1 < MAX_WRITE_RETRIES
                      then writeAllv_loop rs' iovs myiovs totalSize bytesWritten offs (nRetries + 1) 0 f
                      else Some (throw LE_PWRITE_ERROR f))
                else writeAllv_loop rs' iovs
                       (if totalSize - rc > 0 then iov_resume iovs (bytesWritten + rc) else myiovs)
                       (totalSize - rc) (bytesWritten + rc) (offs + rc) 0 0
                       (pwrite f offs (take rc (concat myiovs)))))))"

declare writeAllv_loop.simps [simp del]

section \<open>readAll, readAllv and read\<close>

text \<open>
  The destination of a read is the list of the bytes stored so far. The result pairs it
  with the value the variable \<^verbatim>\<open>size\<close> has after the loop.
\<close>

fun readAll_loop ::
  "sysret list \<Rightarrow> byte list \<Rightarrow> nat \<Rightarrow> nat \<Rightarrow> nat \<Rightarrow> nat \<Rightarrow> byte list \<Rightarrow>
     (error + byte list \<times> nat) option" where
  "readAll_loop rs f sz offs nRetries eintrRetries dst =
     (if sz = 0 then Some (Inr (dst, sz))
      else (case rs of
        [] \<Rightarrow> None
      | r # rs' \<Rightarrow>
          (case r of
             EINTR \<Rightarrow>
               if eintrRetries + 1 < MAX_EINTR_RETRIES
               then readAll_loop rs' f sz offs 0 (eintrRetries + 1) dst
               else Some (Inl LE_PREAD_ERROR)
           | EAGAIN \<Rightarrow>
               if nRetries + 1 < MAX_READ_RETRIES
               then readAll_loop rs' f sz offs (nRetries + 1) 0 dst
               else Some (Inl LE_PREAD_ERROR)
           | EOther \<Rightarrow> Some (Inl LE_PREAD_ERROR)
           | Done n \<Rightarrow>
               (let got = pread f offs (min n sz); rc = length got in
                if rc = 0 then Some (Inl LE_PREAD_ERROR)
                else readAll_loop rs' f (sz - rc) (offs + rc) 0 0 (dst @ got)))))"

declare readAll_loop.simps [simp del]

text \<open>
  For the scatter read, a vector is the list of the addresses it stands for, and the
  memory a function from addresses to bytes; \<open>store_at\<close> is what the call stores.
\<close>

definition store_at :: "nat list \<Rightarrow> byte list \<Rightarrow> (nat \<Rightarrow> byte) \<Rightarrow> (nat \<Rightarrow> byte)" where
  "store_at adrs bs mem = (\<lambda>a. case map_of (zip adrs bs) a of None \<Rightarrow> mem a | Some b \<Rightarrow> b)"

fun readAllv_loop ::
  "sysret list \<Rightarrow> byte list \<Rightarrow> nat list list \<Rightarrow> nat list list \<Rightarrow> nat \<Rightarrow> nat \<Rightarrow> nat \<Rightarrow> nat \<Rightarrow> nat \<Rightarrow>
     (nat \<Rightarrow> byte) \<Rightarrow> (nat, nat \<Rightarrow> byte) outcome option" where
  "readAllv_loop rs f iovs myiovs totalSize bytesRead offs nRetries eintrRetries mem =
     (if totalSize = 0 then Some (ret totalSize mem)
      else (case rs of
        [] \<Rightarrow> None
      | r # rs' \<Rightarrow>
          (case r of
             EINTR \<Rightarrow>
               if eintrRetries + 1 < MAX_EINTR_RETRIES
               then readAllv_loop rs' f iovs myiovs totalSize bytesRead offs 0 (eintrRetries + 1) mem
               else Some (throw LE_PREAD_ERROR mem)
           | EAGAIN \<Rightarrow>
               if nRetries + 1 < MAX_READ_RETRIES
               then readAllv_loop rs' f iovs myiovs totalSize bytesRead offs (nRetries + 1) 0 mem
               else Some (throw LE_PREAD_ERROR mem)
           | EOther \<Rightarrow> Some (throw LE_PREAD_ERROR mem)
           | Done n \<Rightarrow>
               (let got = pread f offs (min n (length (concat myiovs))); rc = length got in
                if rc = 0 then Some (throw LE_PREAD_ERROR mem)
                else readAllv_loop rs' f iovs
                       (if totalSize - rc > 0 then iov_resume iovs (bytesRead + rc) else myiovs)
                       (totalSize - rc) (bytesRead + rc) (offs + rc) 0 0
                       (store_at (take rc (concat myiovs)) got mem)))))"

declare readAllv_loop.simps [simp del]

text \<open>
  \<^verbatim>\<open>File::read\<close> stops at the first failure or at the end of the file and returns the
  last \<^verbatim>\<open>rc\<close>, here as the signed value before the conversion to \<^verbatim>\<open>size_t\<close>.
\<close>

fun read_loop ::
  "sysret list \<Rightarrow> byte list \<Rightarrow> nat \<Rightarrow> nat \<Rightarrow> nat \<Rightarrow> nat \<Rightarrow> byte list \<Rightarrow> int \<Rightarrow> (int \<times> byte list) option" where
  "read_loop rs f sz offs nRetries eintrRetries dst rc =
     (if sz = 0 then Some (rc, dst)
      else (case rs of
        [] \<Rightarrow> None
      | r # rs' \<Rightarrow>
          (case r of
             EINTR \<Rightarrow>
               if eintrRetries + 1 < MAX_EINTR_RETRIES
               then read_loop rs' f sz offs 0 (eintrRetries + 1) dst (- 1)
               else Some (- 1, dst)
           | EAGAIN \<Rightarrow>
               if nRetries + 1 < MAX_READ_RETRIES
               then read_loop rs' f sz offs (nRetries + 1) 0 dst (- 1)
               else Some (- 1, dst)
           | EOther \<Rightarrow> Some (- 1, dst)
           | Done n \<Rightarrow>
               (let got = pread f offs (min n sz) in
                if length got = 0 then Some (0, dst)
                else read_loop rs' f (sz - length got) (offs + length got) 0 0 (dst @ got)
                       (int (length got))))))"

declare read_loop.simps [simp del]

section \<open>The calls that are only restarted\<close>

text \<open>\<^verbatim>\<open>fsync\<close>, \<^verbatim>\<open>fdatasync\<close> and \<^verbatim>\<open>ftruncate\<close> restart on \<open>EINTR\<close> without a limit.\<close>

fun restart_loop :: "sysret list \<Rightarrow> int option" where
  "restart_loop [] = None"
| "restart_loop (EINTR # rs) = restart_loop rs"
| "restart_loop (Done n # rs) = Some 0"
| "restart_loop (EAGAIN # rs) = Some (- 1)"
| "restart_loop (EOther # rs) = Some (- 1)"

text \<open>
  \<^verbatim>\<open>File::closeFd\<close> and \<^verbatim>\<open>File::openFile\<close> restart on \<open>EINTR\<close> at most
  \<open>MAX_EINTR_RETRIES - 1\<close> times; \<open>Done n\<close> answers an open with the descriptor \<open>n\<close>.
\<close>

fun closeFd_loop :: "nat \<Rightarrow> sysret list \<Rightarrow> int option" where
  "closeFd_loop eintrRetries [] = None"
| "closeFd_loop eintrRetries (EINTR # rs) =
     (if eintrRetries + 1 < MAX_EINTR_RETRIES then closeFd_loop (eintrRetries + 1) rs else Some (- 1))"
| "closeFd_loop eintrRetries (Done n # rs) = Some 0"
| "closeFd_loop eintrRetries (EAGAIN # rs) = Some (- 1)"
| "closeFd_loop eintrRetries (EOther # rs) = Some (- 1)"

definition closeFd :: "sysret list \<Rightarrow> int option" where
  "closeFd rs = closeFd_loop 0 rs"

fun openFile_loop :: "nat \<Rightarrow> sysret list \<Rightarrow> int option" where
  "openFile_loop eintrRetries [] = None"
| "openFile_loop eintrRetries (EINTR # rs) =
     (if eintrRetries + 1 < MAX_EINTR_RETRIES then openFile_loop (eintrRetries + 1) rs else Some (- 1))"
| "openFile_loop eintrRetries (Done n # rs) = Some (int n)"
| "openFile_loop eintrRetries (EAGAIN # rs) = Some (- 1)"
| "openFile_loop eintrRetries (EOther # rs) = Some (- 1)"

definition openFile :: "sysret list \<Rightarrow> int option" where
  "openFile rs = openFile_loop 0 rs"

section \<open>What the loops do\<close>

lemma length_pwrite: "length (pwrite f off bs) = (if bs = [] then length f else max (length f) (off + length bs))"
  by (auto simp: pwrite_def)

lemma nth_pwrite:
  "i < length (pwrite f off bs) \<Longrightarrow> bs \<noteq> [] \<Longrightarrow>
   pwrite f off bs ! i =
     (if i < off then (if i < length f then f ! i else 0)
      else if i < off + length bs then bs ! (i - off) else f ! i)"
proof -
  assume i: "i < length (pwrite f off bs)" and bs: "bs \<noteq> []"
  define p where "p = take off (f @ replicate (off - length f) 0)"
  have p: "length p = off" by (simp add: p_def)
  have "pwrite f off bs = p @ bs @ drop (off + length bs) f" using bs by (simp add: pwrite_def p_def)
  moreover have "p ! i = (if i < length f then f ! i else 0)" if "i < off"
    using that by (simp add: p_def nth_append)
  ultimately show ?thesis using i bs by (auto simp: nth_append p length_pwrite)
qed

lemma pwrite_Nil [simp]: "pwrite f off [] = f"
  by (simp add: pwrite_def)

lemma pwrite_pwrite:
  assumes "off' = off + length bs"
  shows "pwrite (pwrite f off bs) off' cs = pwrite f off (bs @ cs)"
proof (cases "bs = [] \<or> cs = []")
  case True
  then show ?thesis using assms by auto
next
  case False
  then have ne: "bs \<noteq> []" "cs \<noteq> []" by auto
  show ?thesis
  proof (rule nth_equalityI)
    show len: "length (pwrite (pwrite f off bs) off' cs) = length (pwrite f off (bs @ cs))"
      using ne by (simp add: length_pwrite assms)
    fix i assume i: "i < length (pwrite (pwrite f off bs) off' cs)"
    consider "i < off'" | "off' \<le> i" "i < off' + length cs" | "off' + length cs \<le> i" by linarith
    then show "pwrite (pwrite f off bs) off' cs ! i = pwrite f off (bs @ cs) ! i"
    proof cases
      case 1
      then have "i < length (pwrite f off bs)" using ne assms by (simp add: length_pwrite)
      then show ?thesis using 1 i ne len assms
        by (cases "i < off") (simp_all add: nth_pwrite nth_append less_diff_conv2)
    next
      case 2
      then have "\<not> i - off < length bs" using assms by linarith
      with 2 show ?thesis using i ne len assms by (simp add: nth_pwrite nth_append)
    next
      case 3
      then have "i < length (pwrite f off bs)" using i ne assms by (simp add: length_pwrite)
      then show ?thesis using 3 i ne len assms by (simp add: nth_pwrite nth_append)
    qed
  qed
qed

lemma pwrite_take_drop:
  "k \<le> length bs \<Longrightarrow> pwrite (pwrite f off (take k bs)) (off + k) (drop k bs) = pwrite f off bs"
  by (subst pwrite_pwrite) auto

lemma pread_pwrite: "bs \<noteq> [] \<Longrightarrow> pread (pwrite f off bs) off (length bs) = bs"
  by (rule nth_equalityI) (simp_all add: pread_def length_pwrite nth_pwrite)

text \<open>What a write may do: everything, or a proper prefix and an exception.\<close>

definition write_result :: "byte list \<Rightarrow> nat \<Rightarrow> byte list \<Rightarrow> (nat, byte list) outcome \<Rightarrow> bool" where
  "write_result f offs src r \<longleftrightarrow>
     r = ret 0 (pwrite f offs src) \<or>
     (\<exists>k < length src. r = throw LE_PWRITE_ERROR (pwrite f offs (take k src)))"

lemma write_result_throw: "src \<noteq> [] \<Longrightarrow> write_result f offs src (throw LE_PWRITE_ERROR f)"
  by (auto simp: write_result_def intro!: exI [of _ 0])

lemma write_result_Nil: "write_result f offs [] (ret 0 f)"
  by (simp add: write_result_def)

lemma write_result_step:
  assumes "write_result (pwrite f offs (take k src)) (offs + k) (drop k src) r" "k \<le> length src"
  shows "write_result f offs src r"
proof -
  from assms consider "r = ret 0 (pwrite f offs src)"
    | j where "j < length (drop k src)"
        "r = throw LE_PWRITE_ERROR (pwrite (pwrite f offs (take k src)) (offs + k) (take j (drop k src)))"
    by (auto simp: write_result_def pwrite_take_drop)
  then show ?thesis
  proof cases
    case 2
    then have "r = throw LE_PWRITE_ERROR (pwrite f offs (take (k + j) src))"
      using assms(2) by (simp add: pwrite_pwrite take_add)
    moreover have "k + j < length src" using 2 assms(2) by auto
    ultimately show ?thesis unfolding write_result_def by blast
  qed (simp add: write_result_def)
qed

lemma writeAll_loop_result:
  "writeAll_loop rs src offs n e f = Some r \<Longrightarrow> write_result f offs src r"
proof (induction rs arbitrary: src offs n e f)
  case Nil
  then show ?case by (auto simp: writeAll_loop.simps write_result_Nil split: if_splits)
next
  case (Cons a rs)
  show ?case
  proof (cases "\<exists>m. a = Done m \<and> min m (length src) \<noteq> 0")
    case False
    then show ?thesis
      using Cons.prems Cons.IH write_result_throw write_result_Nil
      by (auto simp: writeAll_loop.simps [of "a # rs"] split: sysret.splits if_splits)
  next
    case True
    then obtain m where a: "a = Done m" and m: "min m (length src) \<noteq> 0" by blast
    define k where "k = min m (length src)"
    have k: "k \<noteq> 0" "src \<noteq> []" using m by (auto simp: k_def)
    have "writeAll_loop rs (drop k src) (offs + k) 0 0 (pwrite f offs (take k src)) = Some r"
      using Cons.prems [unfolded a writeAll_loop.simps [of "Done m # rs"] Let_def list.case sysret.case,
          folded k_def] k by simp
    then show ?thesis by (rule write_result_step [OF Cons.IH]) (simp add: k_def)
  qed
qed

lemma concat_iov_resume:
  "skip \<le> length (concat iovs) \<Longrightarrow> concat (iov_resume iovs skip) = drop skip (concat iovs)"
  by (induction iovs skip rule: iov_resume.induct) auto

lemma writeAllv_loop_result:
  "writeAllv_loop rs iovs myiovs (length (concat myiovs)) dn offs n e f = Some r \<Longrightarrow>
     concat myiovs = drop dn (concat iovs) \<Longrightarrow> dn \<le> length (concat iovs) \<Longrightarrow>
     write_result f offs (concat myiovs) r"
proof (induction rs arbitrary: myiovs dn offs n e f)
  case Nil
  then show ?case
    by (auto simp: writeAllv_loop.simps [of "[]"] write_result_Nil split: if_splits)
next
  case (Cons a rs)
  define src where "src = concat myiovs"
  note IH = Cons.IH [OF _ Cons.prems(2,3), folded src_def]
  note prems = Cons.prems(1) [unfolded writeAllv_loop.simps [of "a # rs"], folded src_def]
  show ?case unfolding src_def [symmetric]
  proof (cases "\<exists>m. a = Done m \<and> min m (length src) \<noteq> 0")
    case False
    then show "write_result f offs src r"
      using prems IH write_result_throw write_result_Nil
      by (auto simp: Let_def split: sysret.splits if_splits)
  next
    case True
    then obtain m where a: "a = Done m" and m: "min m (length src) \<noteq> 0" by blast
    define k where "k = min m (length src)"
    have k: "k \<noteq> 0" "k \<le> length src" "src \<noteq> []" using m by (auto simp: k_def)
    define my' where "my' = (if length src - k > 0 then iov_resume iovs (dn + k) else myiovs)"
    have run: "writeAllv_loop rs iovs my' (length src - k) (dn + k) (offs + k) 0 0
        (pwrite f offs (take k src)) = Some r"
      using prems [unfolded a Let_def list.case sysret.case, folded k_def] k by (simp add: my'_def)
    have cut: "dn + k \<le> length (concat iovs)"
      using k Cons.prems(2,3) unfolding src_def by simp
    show "write_result f offs src r"
    proof (cases "k = length src")
      case True
      then show ?thesis using run by (simp add: write_result_def writeAllv_loop.simps [of rs])
    next
      case False
      then have my': "concat my' = drop k src"
        using Cons.prems(2) k cut by (simp add: my'_def concat_iov_resume src_def add.commute)
      then have my'_dn: "concat my' = drop (dn + k) (concat iovs)"
        using Cons.prems(2) by (simp add: src_def add.commute)
      have left: "length src - k = length (concat my')" by (simp add: my')
      have "write_result (pwrite f offs (take k src)) (offs + k) (drop k src) r"
        using Cons.IH [OF run [unfolded left] my'_dn cut] by (simp only: my')
      then show ?thesis using k(2) by (rule write_result_step)
    qed
  qed
qed

lemma length_pread: "length (pread f off n) = min n (length f - off)"
  by (simp add: pread_def)

lemma pread_split:
  "g \<le> sz \<Longrightarrow> pread f offs g @ pread f (offs + g) (sz - g) = pread f offs sz"
  using take_add [of g "sz - g" "drop offs f"] by (simp add: pread_def add.commute)

lemma pread_length: "pread f offs (length (pread f offs m)) = pread f offs m"
  by (simp add: pread_def min_def)

text \<open>A read stores all the bytes asked for, which the file then has, or throws.\<close>

definition read_result :: "byte list \<Rightarrow> nat \<Rightarrow> nat \<Rightarrow> byte list \<Rightarrow> error + byte list \<times> nat \<Rightarrow> bool" where
  "read_result f offs sz dst r \<longleftrightarrow>
     r = Inl LE_PREAD_ERROR \<or>
     (r = Inr (dst @ pread f offs sz, 0) \<and> (sz = 0 \<or> offs + sz \<le> length f))"

lemma read_result_throw: "read_result f offs sz dst (Inl LE_PREAD_ERROR)"
  by (simp add: read_result_def)

lemma read_result_0: "read_result f offs 0 dst (Inr (dst, 0))"
  by (simp add: read_result_def pread_def)

lemma read_result_step:
  assumes "read_result f (offs + length got) (sz - length got) (dst @ got) r"
    and got: "got = pread f offs (min m sz)" "got \<noteq> []"
  shows "read_result f offs sz dst r"
proof -
  have "length got \<le> sz" "offs + length got \<le> length f"
    using got by (auto simp: pread_def)
  moreover have "got @ pread f (offs + length got) (sz - length got) = pread f offs sz"
    using pread_split [of "length got" sz f offs] \<open>length got \<le> sz\<close>
    by (simp only: got(1) pread_length)
  ultimately show ?thesis using assms(1) by (auto simp: read_result_def)
qed

lemma readAll_loop_result:
  "readAll_loop rs f sz offs n e dst = Some r \<Longrightarrow> read_result f offs sz dst r"
proof (induction rs arbitrary: sz offs n e dst)
  case Nil
  then show ?case by (auto simp: readAll_loop.simps read_result_0 split: if_splits)
next
  case (Cons a rs)
  show ?case
  proof (cases "\<exists>m. a = Done m \<and> sz \<noteq> 0 \<and> length (pread f offs (min m sz)) \<noteq> 0")
    case False
    then show ?thesis
      using Cons.prems Cons.IH
      by (auto simp: readAll_loop.simps [of "a # rs"] Let_def read_result_0 read_result_throw
          split: sysret.splits if_splits)
  next
    case True
    then obtain m where a: "a = Done m" and m: "length (pread f offs (min m sz)) \<noteq> 0" "sz \<noteq> 0" by blast
    define got where "got = pread f offs (min m sz)"
    have "readAll_loop rs f (sz - length got) (offs + length got) 0 0 (dst @ got) = Some r"
      using Cons.prems [unfolded a readAll_loop.simps [of "Done m # rs"] Let_def list.case sysret.case,
          folded got_def] m [folded got_def] by simp
    then show ?thesis
      using m by (intro read_result_step [OF Cons.IH]) (auto simp: got_def)
  qed
qed

lemma map_of_zip_None: "x \<notin> set as \<Longrightarrow> map_of (zip as bs) x = None"
  by (auto simp: map_of_eq_None_iff dest: set_zip_leftD)

lemma store_at_append:
  assumes "length bs = length as" "distinct (as @ as')"
  shows "store_at as' bs' (store_at as bs mem) = store_at (as @ as') (bs @ bs') mem"
proof
  fix x
  have zip: "zip (as @ as') (bs @ bs') = zip as bs @ zip as' bs'" using assms(1) by simp
  have "x \<notin> set as \<or> x \<notin> set as'" using assms(2) by auto
  then consider (l) "map_of (zip as bs) x = None" | (r) "map_of (zip as' bs') x = None"
    using map_of_zip_None by metis
  then show "store_at as' bs' (store_at as bs mem) x = store_at (as @ as') (bs @ bs') mem x"
    unfolding store_at_def zip map_of_append map_add_def
    by cases (simp_all only: option.case, simp split: option.split)
qed

lemma map_store_at:
  assumes "distinct as" "length bs = length as"
  shows "map (store_at as bs mem) as = bs"
  using assms by (intro nth_equalityI) (simp_all add: store_at_def map_of_zip_nth)

lemma store_at_Nil [simp]: "store_at [] bs mem = mem"
  by (simp add: store_at_def)

definition readv_result ::
  "byte list \<Rightarrow> nat \<Rightarrow> nat list \<Rightarrow> (nat \<Rightarrow> byte) \<Rightarrow> (nat, nat \<Rightarrow> byte) outcome \<Rightarrow> bool" where
  "readv_result f offs adrs mem r \<longleftrightarrow>
     (\<exists>mem'. r = throw LE_PREAD_ERROR mem') \<or>
     (r = ret 0 (store_at adrs (pread f offs (length adrs)) mem) \<and> (adrs = [] \<or> offs + length adrs \<le> length f))"

lemma readv_result_throw: "readv_result f offs adrs mem (throw LE_PREAD_ERROR mem')"
  by (auto simp: readv_result_def)

lemma readv_result_Nil: "readv_result f offs [] mem (ret 0 mem)"
  by (simp add: readv_result_def)

lemma readv_result_step:
  assumes "readv_result f (offs + length got) (drop (length got) adrs)
             (store_at (take (length got) adrs) got mem) r"
    and got: "got = pread f offs (min m (length adrs))" "got \<noteq> []"
    and "distinct adrs"
  shows "readv_result f offs adrs mem r"
proof -
  have le: "length got \<le> length adrs" "offs + length got \<le> length f"
    using got by (auto simp: pread_def)
  have "got @ pread f (offs + length got) (length adrs - length got) = pread f offs (length adrs)"
    using pread_split [of "length got" "length adrs" f offs] le
    by (simp only: got(1) pread_length)
  then have "store_at (drop (length got) adrs) (pread f (offs + length got) (length adrs - length got))
      (store_at (take (length got) adrs) got mem) = store_at adrs (pread f offs (length adrs)) mem"
    using store_at_append [of got "take (length got) adrs" "drop (length got) adrs"
        "pread f (offs + length got) (length adrs - length got)" mem] le assms(4)
    by simp
  then show ?thesis using assms(1) le by (auto simp: readv_result_def)
qed

lemma readAllv_loop_result:
  "readAllv_loop rs f iovs myiovs (length (concat myiovs)) dn offs n e mem = Some r \<Longrightarrow>
     concat myiovs = drop dn (concat iovs) \<Longrightarrow> dn \<le> length (concat iovs) \<Longrightarrow> distinct (concat iovs) \<Longrightarrow>
     readv_result f offs (concat myiovs) mem r"
proof (induction rs arbitrary: myiovs dn offs n e mem)
  case Nil
  then show ?case by (auto simp: readAllv_loop.simps [of "[]"] readv_result_Nil split: if_splits)
next
  case (Cons a rs)
  define dst where "dst = concat myiovs"
  have dist: "distinct dst" using Cons.prems(2,4) by (simp add: dst_def)
  note IH = Cons.IH [OF _ Cons.prems(2,3,4), folded dst_def]
  note prems = Cons.prems(1) [unfolded readAllv_loop.simps [of "a # rs"], folded dst_def]
  show ?case unfolding dst_def [symmetric]
  proof (cases "\<exists>m. a = Done m \<and> dst \<noteq> [] \<and> length (pread f offs (min m (length dst))) \<noteq> 0")
    case False
    then show "readv_result f offs dst mem r"
      using prems IH
      by (auto simp: Let_def readv_result_throw readv_result_Nil split: sysret.splits if_splits)
  next
    case True
    then obtain m where a: "a = Done m"
      and m: "length (pread f offs (min m (length dst))) \<noteq> 0" "dst \<noteq> []" by blast
    define got where "got = pread f offs (min m (length dst))"
    define k where "k = length got"
    have k: "k \<noteq> 0" "k \<le> length dst" using m by (auto simp: k_def got_def pread_def)
    define my' where "my' = (if length dst - k > 0 then iov_resume iovs (dn + k) else myiovs)"
    have run: "readAllv_loop rs f iovs my' (length dst - k) (dn + k) (offs + k) 0 0
        (store_at (take k dst) got mem) = Some r"
      using prems [unfolded a Let_def list.case sysret.case, folded got_def, folded k_def] k m
      by (simp add: my'_def)
    have cut: "dn + k \<le> length (concat iovs)"
      using k Cons.prems(2,3) unfolding dst_def by simp
    have "readv_result f (offs + k) (drop k dst) (store_at (take k dst) got mem) r"
    proof (cases "k = length dst")
      case True
      then show ?thesis using run by (simp add: readv_result_def readAllv_loop.simps [of rs])
    next
      case False
      then have my': "concat my' = drop k dst"
        using Cons.prems(2) k cut by (simp add: my'_def concat_iov_resume dst_def add.commute)
      then have my'_dn: "concat my' = drop (dn + k) (concat iovs)"
        using Cons.prems(2) by (simp add: dst_def add.commute)
      have left: "length dst - k = length (concat my')" by (simp add: my')
      show ?thesis using Cons.IH [OF run [unfolded left] my'_dn cut Cons.prems(4)] by (simp only: my')
    qed
    then show "readv_result f offs dst mem r"
      using readv_result_step [OF _ got_def _ dist] m by (simp add: k_def got_def)
  qed
qed

lemma closeFd_loop_total: "MAX_EINTR_RETRIES \<le> length rs + e \<Longrightarrow> rs \<noteq> [] \<Longrightarrow> \<exists>rc. closeFd_loop e rs = Some rc"
proof (induction e rs rule: closeFd_loop.induct)
  case (2 e rs)
  then show ?case by (cases rs) (auto simp: retry_limits)
qed auto

lemma openFile_loop_total: "MAX_EINTR_RETRIES \<le> length rs + e \<Longrightarrow> rs \<noteq> [] \<Longrightarrow> \<exists>fd. openFile_loop e rs = Some fd"
proof (induction e rs rule: openFile_loop.induct)
  case (2 e rs)
  then show ?case by (cases rs) (auto simp: retry_limits)
qed auto

text \<open>
  Progress. As long as no call is interrupted, a write takes at most
  \<open>MAX_WRITE_RETRIES\<close> calls per byte; interruptions and zero-length transfers that
  alternate reset each other's counter and keep the loop running.
\<close>

lemma writeAll_loop_total:
  "EINTR \<notin> set rs \<Longrightarrow> MAX_WRITE_RETRIES * length src \<le> length rs + n \<Longrightarrow> n < MAX_WRITE_RETRIES \<Longrightarrow>
   \<exists>r. writeAll_loop rs src offs n e f = Some r"
proof (induction rs arbitrary: src offs n e f)
  case Nil
  then have "src = []" by (cases src) auto
  then show ?case by (simp add: writeAll_loop.simps)
next
  case (Cons a rs)
  show ?case
  proof (cases "\<exists>m. a = Done m \<and> min m (length src) \<noteq> 0")
    case True
    then obtain m where a: "a = Done m" and m: "min m (length src) \<noteq> 0" by blast
    define k where "k = min m (length src)"
    have k: "k \<noteq> 0" "k \<le> length src" "src \<noteq> []" using m by (auto simp: k_def)
    then have "MAX_WRITE_RETRIES * length (drop k src) \<le> length rs + 0"
      using Cons.prems(2,3) by (simp add: retry_limits)
    then have "\<exists>r. writeAll_loop rs (drop k src) (offs + k) 0 0 (pwrite f offs (take k src)) = Some r"
      using Cons.prems(1) by (intro Cons.IH) (auto simp: retry_limits)
    then show ?thesis
      using k unfolding a writeAll_loop.simps [of "Done m # rs"] Let_def list.case sysret.case k_def [symmetric]
      by simp
  next
    case False
    then show ?thesis
      using Cons.prems Cons.IH [of src "n + 1" offs 0 f]
      by (auto simp: writeAll_loop.simps [of "a # rs"] Let_def split: sysret.split)
  qed
qed

lemma writeAll_loop_livelock:
  "src \<noteq> [] \<Longrightarrow> writeAll_loop (concat (replicate k [EINTR, EAGAIN])) src offs n 0 f = None"
proof (induction k arbitrary: n)
  case (Suc k)
  then show ?case
    by (simp add: writeAll_loop.simps [of "EINTR # _"] writeAll_loop.simps [of "EAGAIN # _"] retry_limits)
qed (simp add: writeAll_loop.simps)

end
