(* ===== verification/File_Manager.thy ===== *)
theory File_Manager
  imports File_IO
begin

text \<open>
  The \<^verbatim>\<open>FileManager\<close> and the object interface of \<^verbatim>\<open>File\<close> (second half of
  \<^verbatim>\<open>src/util/FileIO.cpp\<close>): a bounded list of open descriptors in least-recently-used
  order, a list of the files it closed to stay within the bound, and the methods that
  reopen a file on demand and pin it while they work.

  A \<^verbatim>\<open>File*\<close> is an index into the heap \<open>objs\<close>. The stored list iterator is the list it
  points into; erasing through an iterator that does not point into that list is
  undefined. The bytes of a file are those at its path (\<^verbatim>\<open>FileIO.h\<close>: the path does not
  change while the object lives).
\<close>

datatype list_pos = NoPos | InLru | InClosed

datatype oflag = O_RDONLY | O_WRONLY | O_RDWR | O_CREAT | O_EXCL | O_TRUNC | O_SYNC | O_LARGEFILE

record File =
  fd :: int
  fpath :: string
  fflags :: "oflag list"
  fremove :: bool
  fclosed :: bool
  pin :: nat
  listPos :: list_pos

record FileManager =
  objs :: "nat \<Rightarrow> File"
  nobjs :: nat
  lru :: "nat list"
  closedl :: "nat list"
  maxLru :: nat
  disk :: "string \<Rightarrow> byte list option"
  stats :: statistics

text \<open>
  The answers of the operating system to the calls one operation makes: to \<^verbatim>\<open>close\<close>, to
  \<^verbatim>\<open>open\<close> and to the calls that transfer data.
\<close>

record os_answers =
  close_rs :: "sysret list"
  open_rs :: "sysret list"
  io_rs :: "sysret list"

definition upd_obj :: "nat \<Rightarrow> (File \<Rightarrow> File) \<Rightarrow> FileManager \<Rightarrow> FileManager" where
  "upd_obj i g s = s\<lparr>objs := (objs s)(i := g (objs s i))\<rparr>"

definition lru_push :: "nat \<Rightarrow> FileManager \<Rightarrow> FileManager" where
  "lru_push i s = upd_obj i (\<lambda>f. f\<lparr>listPos := InLru\<rparr>) (s\<lparr>lru := i # lru s\<rparr>)"

definition lru_erase :: "nat \<Rightarrow> FileManager \<Rightarrow> (unit, FileManager) outcome" where
  "lru_erase i s =
     (if listPos (objs s i) = InLru
      then ret () (upd_obj i (\<lambda>f. f\<lparr>listPos := NoPos\<rparr>) (s\<lparr>lru := remove1 i (lru s)\<rparr>))
      else throw Undefined_Behaviour s)"

definition closed_erase :: "nat \<Rightarrow> FileManager \<Rightarrow> (unit, FileManager) outcome" where
  "closed_erase i s =
     (if listPos (objs s i) = InClosed
      then ret () (upd_obj i (\<lambda>f. f\<lparr>listPos := NoPos\<rparr>) (s\<lparr>closedl := remove1 i (closedl s)\<rparr>))
      else throw Undefined_Behaviour s)"

section \<open>The manager\<close>

text \<open>The victim of \<^verbatim>\<open>checkLimit\<close> is the last of the list; the result of closing it is ignored.\<close>

definition checkLimit :: "os_answers \<Rightarrow> FileManager \<Rightarrow> (unit, FileManager) outcome option" where
  "checkLimit a s =
     (if maxLru s \<le> length (lru s) then
        (if lru s = [] then Some (throw Undefined_Behaviour s)
         else
           (let victim = last (lru s) in
            if pin (objs s victim) > 0 then Some (throw LE_TOO_MANY_OPEN_FILES s)
            else (case closeFd (close_rs a) of
                    None \<Rightarrow> None
                  | Some rc \<Rightarrow>
                      Some (ret () (upd_obj victim (\<lambda>f. f\<lparr>fd := - 1, listPos := InClosed\<rparr>)
                                      (s\<lparr>lru := butlast (lru s), closedl := victim # closedl s\<rparr>))))))
      else Some (ret () s))"

definition addFd :: "os_answers \<Rightarrow> nat \<Rightarrow> FileManager \<Rightarrow> (unit, FileManager) outcome option" where
  "addFd a i s = map_option (\<lambda>r. andThen r (\<lambda>_ s'. ret () (lru_push i s'))) (checkLimit a s)"

definition forgetFd :: "nat \<Rightarrow> FileManager \<Rightarrow> (unit, FileManager) outcome" where
  "forgetFd i s = (if fd (objs s i) \<ge> 0 then lru_erase i s else closed_erase i s)"

text \<open>
  What the operating system's \<^verbatim>\<open>open\<close> does to the disk, and when it cannot succeed.
\<close>

definition open_possible :: "oflag list \<Rightarrow> byte list option \<Rightarrow> bool" where
  "open_possible fl c \<longleftrightarrow>
     (case c of None \<Rightarrow> O_CREAT \<in> set fl | Some _ \<Rightarrow> \<not> (O_CREAT \<in> set fl \<and> O_EXCL \<in> set fl))"

definition open_effect :: "oflag list \<Rightarrow> byte list option \<Rightarrow> byte list option" where
  "open_effect fl c =
     (case c of None \<Rightarrow> Some [] | Some bs \<Rightarrow> Some (if O_TRUNC \<in> set fl then [] else bs))"

definition sys_openFile ::
  "os_answers \<Rightarrow> string \<Rightarrow> oflag list \<Rightarrow> FileManager \<Rightarrow> (int \<times> FileManager) option" where
  "sys_openFile a p fl s =
     (if open_possible fl (disk s p)
      then (case openFile (open_rs a) of
              None \<Rightarrow> None
            | Some n \<Rightarrow>
                Some (n, if n \<ge> 0 then s\<lparr>disk := (disk s)(p := open_effect fl (disk s p))\<rparr> else s))
      else Some (- 1, s))"

definition checkActive :: "os_answers \<Rightarrow> nat \<Rightarrow> FileManager \<Rightarrow> (unit, FileManager) outcome option" where
  "checkActive a i s =
     (if fd (objs s i) \<ge> 0
      then Some (andThen (lru_erase i s)
                   (\<lambda>_ s'. ret () (upd_obj i (\<lambda>f. f\<lparr>pin := pin f + 1\<rparr>) (lru_push i s'))))
      else (case checkLimit a s of
              None \<Rightarrow> None
            | Some (Inl e, s1) \<Rightarrow> Some (throw e s1)
            | Some (Inr _, s1) \<Rightarrow>
                (case sys_openFile a (fpath (objs s1 i)) (fflags (objs s1 i)) s1 of
                   None \<Rightarrow> None
                 | Some (n, s2) \<Rightarrow>
                     Some (andThen (closed_erase i (upd_obj i (\<lambda>f. f\<lparr>fd := n, pin := pin f + 1\<rparr>) s2))
                             (\<lambda>_ s3. ret () (lru_push i s3))))))"

text \<open>The destructor of the stack-allocated \<^verbatim>\<open>FileMonitor\<close>.\<close>

definition unpin :: "nat \<Rightarrow> FileManager \<Rightarrow> FileManager" where
  "unpin i s = upd_obj i (\<lambda>f. f\<lparr>pin := pin f - 1\<rparr>) s"

section \<open>The life of a File object\<close>

text \<open>The last argument says whether the \<^verbatim>\<open>unlink\<close> of a file marked for removal succeeds.\<close>

definition File_close :: "os_answers \<Rightarrow> bool \<Rightarrow> nat \<Rightarrow> FileManager \<Rightarrow> (int, FileManager) outcome option" where
  "File_close a unlink_ok i s =
     (if fclosed (objs s i) then Some (ret 0 s)
      else (case forgetFd i s of
              (Inl e, s1) \<Rightarrow> Some (throw e s1)
            | (Inr _, s1) \<Rightarrow>
                (case (if fd (objs s1 i) \<ge> 0 then closeFd (close_rs a) else Some 0) of
                   None \<Rightarrow> None
                 | Some rc \<Rightarrow>
                     (let s2 = (if rc = 0 then upd_obj i (\<lambda>f. f\<lparr>fclosed := True\<rparr>) s1 else s1) in
                      if fclosed (objs s2 i) \<and> fremove (objs s2 i)
                      then Some (if unlink_ok
                                 then ret 0 (s2\<lparr>disk := (disk s2)(fpath (objs s2 i) := None)\<rparr>)
                                 else ret (- 1) s2)
                      else Some (ret rc s2)))))"

definition File_destroy :: "os_answers \<Rightarrow> bool \<Rightarrow> nat \<Rightarrow> FileManager \<Rightarrow> (unit, FileManager) outcome option" where
  "File_destroy a unlink_ok i s =
     map_option (\<lambda>r. andThen r (\<lambda>rc s'. if rc \<noteq> 0 then throw LE_SYSCALL_ERROR s' else ret () s'))
       (File_close a unlink_ok i s)"

definition removeOnClose :: "nat \<Rightarrow> FileManager \<Rightarrow> FileManager" where
  "removeOnClose i s = upd_obj i (\<lambda>f. f\<lparr>fremove := True\<rparr>) s"

definition new_File :: "int \<Rightarrow> string \<Rightarrow> oflag list \<Rightarrow> bool \<Rightarrow> FileManager \<Rightarrow> FileManager" where
  "new_File n p fl temp s =
     s\<lparr>objs := (objs s)(nobjs s := \<lparr>fd = n, fpath = p, fflags = fl, fremove = temp, fclosed = False,
                                 pin = 0, listPos = NoPos\<rparr>),
       nobjs := nobjs s + 1\<rparr>"

text \<open>
  Create the object and put it on the list. When \<^verbatim>\<open>addFd\<close> throws, the shared pointer is
  unwound, which runs the destructor of the new object.
\<close>

definition register_new ::
  "os_answers \<Rightarrow> int \<Rightarrow> string \<Rightarrow> oflag list \<Rightarrow> bool \<Rightarrow> FileManager \<Rightarrow> (nat, FileManager) outcome option" where
  "register_new a n p fl temp s =
     (let i = nobjs s; s1 = new_File n p fl temp s in
      case addFd a i s1 of
        None \<Rightarrow> None
      | Some (Inr _, s2) \<Rightarrow> Some (ret i s2)
      | Some (Inl e, s2) \<Rightarrow>
          (case File_destroy a True i s2 of
             None \<Rightarrow> None
           | Some (Inl e', s3) \<Rightarrow> Some (throw e' s3)
           | Some (Inr _, s3) \<Rightarrow> Some (throw e s3)))"

definition openFileObj ::
  "os_answers \<Rightarrow> string \<Rightarrow> oflag list \<Rightarrow> FileManager \<Rightarrow> (nat option, FileManager) outcome option" where
  "openFileObj a fileName fl s =
     (case sys_openFile a fileName fl s of
        None \<Rightarrow> None
      | Some (n, s1) \<Rightarrow>
          if n \<ge> 0
          then map_option (\<lambda>r. andThen r (\<lambda>i s'. ret (Some i) s'))
                 (register_new a n fileName (filter (\<lambda>x. x \<notin> {O_CREAT, O_EXCL, O_TRUNC}) fl) False s1)
          else Some (ret None s1))"

text \<open>
  \<^verbatim>\<open>createTemporary\<close> makes one call, without retries: \<^verbatim>\<open>mkstemp\<close> on a template in the
  temporary directory, whose last six characters the system chooses, or an exclusive
  \<^verbatim>\<open>open\<close> of the path given.
\<close>

datatype create_answer = Fd nat | Emfile | Efail

definition createTemporary ::
  "os_answers \<Rightarrow> create_answer \<Rightarrow> string \<Rightarrow> string \<Rightarrow> string \<Rightarrow> string option \<Rightarrow> FileManager \<Rightarrow>
     (nat, FileManager) outcome option" where
  "createTemporary a ans tempDir suffix arrName filePath s =
     (let p = (case filePath of
                 Some p \<Rightarrow> p
               | None \<Rightarrow> (if tempDir \<noteq> [] \<and> last tempDir \<noteq> CHR ''/'' then tempDir @ ''/'' else tempDir) @
                         ''scidb_'' @ arrName @ ''.'' @ suffix)
      in case ans of
           Emfile \<Rightarrow> Some (throw LE_TOO_MANY_OPEN_FILES s)
         | Efail \<Rightarrow> Some (throw LE_CANT_OPEN_FILE s)
         | Fd n \<Rightarrow>
             if disk s p = None
             then register_new a (int n) p [O_RDWR, O_LARGEFILE] True (s\<lparr>disk := (disk s)(p := Some [])\<rparr>)
             else Some (throw LE_CANT_OPEN_FILE s))"

text \<open>
  The constructor. \<open>tmp\<close> is the list of the names in the temporary directory, \<open>None\<close> when
  it cannot be opened; the result is the manager and what is left of the directory. The
  constructor returns early when the directory cannot be opened.
\<close>

definition FileManager_init ::
  "string list option \<Rightarrow> int \<Rightarrow> (string \<Rightarrow> byte list option) \<Rightarrow> FileManager \<times> string list" where
  "FileManager_init tmp configuredMaxLru d =
     (let s = \<lparr>objs = (\<lambda>_. \<lparr>fd = - 1, fpath = [], fflags = [], fremove = False, fclosed = True, pin = 0,
                           listPos = NoPos\<rparr>),
               nobjs = 0, lru = [], closedl = [], maxLru = 1, disk = d,
               stats = \<lparr>writtenSize = 0, writtenChunks = 0, readSize = 0, readChunks = 0\<rparr>\<rparr>
      in case tmp of
           None \<Rightarrow> (s, [])
         | Some entries \<Rightarrow>
             (s\<lparr>maxLru := (if configuredMaxLru \<le> 0 then 1 else nat configuredMaxLru)\<rparr>,
              filter (\<lambda>e. take 6 e \<noteq> ''scidb_'') entries))"

section \<open>The methods that work on an open file\<close>

text \<open>
  Every method checks that the file was not closed by the user, enters the monitor,
  works on the descriptor and leaves the monitor, also when it throws.
\<close>

definition with_monitor ::
  "os_answers \<Rightarrow> nat \<Rightarrow> (sysret list \<Rightarrow> byte list \<Rightarrow> FileManager \<Rightarrow> ('a, FileManager) outcome option) \<Rightarrow>
     FileManager \<Rightarrow> ('a, FileManager) outcome option" where
  "with_monitor a i body s =
     (if fclosed (objs s i) then Some (throw LE_SYSCALL_ERROR s)
      else (case checkActive a i s of
              None \<Rightarrow> None
            | Some (Inl e, s1) \<Rightarrow> Some (throw e s1)
            | Some (Inr _, s1) \<Rightarrow>
                (let rs = (if fd (objs s1 i) < 0 then [EOther] else io_rs a);
                     bytes = (case disk s1 (fpath (objs s1 i)) of None \<Rightarrow> [] | Some bs \<Rightarrow> bs)
                 in map_option (\<lambda>(r, s2). (r, unpin i s2)) (body rs bytes s1))))"

definition put_bytes :: "nat \<Rightarrow> byte list \<Rightarrow> FileManager \<Rightarrow> FileManager" where
  "put_bytes i bs s = s\<lparr>disk := (disk s)(fpath (objs s i) := Some bs)\<rparr>"

text \<open>
  The write loop leaves the bytes \<open>f\<close> in the file and the value \<open>sz\<close> in \<^verbatim>\<open>size\<close>; the
  statistics are updated after the loop with that value.
\<close>

definition finish_write ::
  "nat \<Rightarrow> (nat, byte list) outcome \<Rightarrow> FileManager \<Rightarrow> (unit, FileManager) outcome" where
  "finish_write i r s =
     (case r of
        (Inl e, f) \<Rightarrow> throw e (put_bytes i f s)
      | (Inr sz, f) \<Rightarrow>
          ret () ((put_bytes i f s)\<lparr>stats := (stats s)\<lparr>writtenSize := writtenSize (stats s) + sz,
                                                 writtenChunks := writtenChunks (stats s) + 1\<rparr>\<rparr>))"

definition writeAll ::
  "os_answers \<Rightarrow> nat \<Rightarrow> byte list \<Rightarrow> nat \<Rightarrow> FileManager \<Rightarrow> (unit, FileManager) outcome option" where
  "writeAll a i data offs =
     with_monitor a i
       (\<lambda>rs bytes s. map_option (\<lambda>r. finish_write i r s) (writeAll_loop rs data offs 0 0 bytes))"

definition writeAllv ::
  "os_answers \<Rightarrow> nat \<Rightarrow> byte list list \<Rightarrow> nat \<Rightarrow> FileManager \<Rightarrow> (unit, FileManager) outcome option" where
  "writeAllv a i iovs offs =
     with_monitor a i
       (\<lambda>rs bytes s. map_option (\<lambda>r. finish_write i r s)
          (writeAllv_loop rs iovs iovs (sum_list (map length iovs)) 0 offs 0 0 bytes))"

definition count_read :: "nat \<Rightarrow> FileManager \<Rightarrow> FileManager" where
  "count_read sz s =
     s\<lparr>stats := (stats s)\<lparr>readSize := readSize (stats s) + sz, readChunks := readChunks (stats s) + 1\<rparr>\<rparr>"

definition readAll ::
  "os_answers \<Rightarrow> nat \<Rightarrow> nat \<Rightarrow> nat \<Rightarrow> FileManager \<Rightarrow> (byte list, FileManager) outcome option" where
  "readAll a i sz offs =
     with_monitor a i
       (\<lambda>rs bytes s. map_option
          (\<lambda>r. case r of Inl e \<Rightarrow> throw e s | Inr (dst, sz') \<Rightarrow> ret dst (count_read sz' s))
          (readAll_loop rs bytes sz offs 0 0 []))"

text \<open>The scatter read yields the memory after the call; an exception leaves it partly filled.\<close>

definition readAllv ::
  "os_answers \<Rightarrow> nat \<Rightarrow> nat list list \<Rightarrow> nat \<Rightarrow> (nat \<Rightarrow> byte) \<Rightarrow> FileManager \<Rightarrow>
     (nat \<Rightarrow> byte, FileManager) outcome option" where
  "readAllv a i iovs offs mem =
     with_monitor a i
       (\<lambda>rs bytes s. map_option
          (\<lambda>r. case r of (Inl e, mem') \<Rightarrow> throw e s | (Inr sz', mem') \<Rightarrow> ret mem' (count_read sz' s))
          (readAllv_loop rs bytes iovs iovs (sum_list (map length iovs)) 0 offs 0 0 mem))"

definition File_read ::
  "os_answers \<Rightarrow> nat \<Rightarrow> nat \<Rightarrow> nat \<Rightarrow> FileManager \<Rightarrow> (int \<times> byte list, FileManager) outcome option" where
  "File_read a i sz offs =
     with_monitor a i
       (\<lambda>rs bytes s. map_option (\<lambda>r. ret r s) (read_loop rs bytes sz offs 0 0 [] 0))"

definition File_fsync :: "os_answers \<Rightarrow> nat \<Rightarrow> FileManager \<Rightarrow> (int, FileManager) outcome option" where
  "File_fsync a i = with_monitor a i (\<lambda>rs bytes s. map_option (\<lambda>rc. ret rc s) (restart_loop rs))"

definition File_fdatasync :: "os_answers \<Rightarrow> nat \<Rightarrow> FileManager \<Rightarrow> (int, FileManager) outcome option" where
  "File_fdatasync a i = with_monitor a i (\<lambda>rs bytes s. map_option (\<lambda>rc. ret rc s) (restart_loop rs))"

definition File_ftruncate ::
  "os_answers \<Rightarrow> nat \<Rightarrow> nat \<Rightarrow> FileManager \<Rightarrow> (int, FileManager) outcome option" where
  "File_ftruncate a i len =
     with_monitor a i
       (\<lambda>rs bytes s. map_option
          (\<lambda>rc. ret rc (if rc = 0 then put_bytes i (truncate_to len bytes) s else s)) (restart_loop rs))"

definition File_fsetlock :: "os_answers \<Rightarrow> nat \<Rightarrow> FileManager \<Rightarrow> (int, FileManager) outcome option" where
  "File_fsetlock a i = with_monitor a i (\<lambda>rs bytes s. map_option (\<lambda>rc. ret rc s) (restart_loop rs))"

text \<open>\<^verbatim>\<open>fstat\<close> makes one call; the size is the part of the answer the callers use.\<close>

definition File_fstat :: "os_answers \<Rightarrow> nat \<Rightarrow> FileManager \<Rightarrow> (int \<times> nat, FileManager) outcome option" where
  "File_fstat a i =
     with_monitor a i
       (\<lambda>rs bytes s. case rs of
          [] \<Rightarrow> None
        | Done _ # _ \<Rightarrow> Some (ret (0, length bytes) s)
        | _ # _ \<Rightarrow> Some (ret (- 1, 0) s))"

section \<open>The invariant of the manager\<close>

text \<open>
  \<open>file_ok\<close> relates one object to the list it is on; \<open>fm_ok\<close> adds that the lists hold
  exactly the objects that point into them and that the bound is kept. Two failures of the
  system leave an object that is not \<open>intact\<close>: when a reopening fails the object is on the
  list of the open files without a descriptor, and when a \<^verbatim>\<open>close\<close> fails it is on no list
  but not marked closed.
\<close>

definition file_ok :: "File \<Rightarrow> bool" where
  "file_ok f \<longleftrightarrow>
     (fclosed f \<longrightarrow> listPos f = NoPos) \<and>
     (listPos f = InClosed \<longrightarrow> fd f < 0 \<and> pin f = 0) \<and>
     (\<not> fclosed f \<longrightarrow> set (fflags f) \<inter> {O_CREAT, O_EXCL, O_TRUNC} = {})"

definition intact :: "File \<Rightarrow> bool" where
  "intact f \<longleftrightarrow> (listPos f = InLru \<longrightarrow> 0 \<le> fd f) \<and> (listPos f = NoPos \<longrightarrow> fclosed f)"

definition lists_ok :: "FileManager \<Rightarrow> bool" where
  "lists_ok s \<longleftrightarrow>
     distinct (lru s) \<and> distinct (closedl s) \<and>
     (\<forall>i. i \<in> set (lru s) \<longleftrightarrow> listPos (objs s i) = InLru) \<and>
     (\<forall>i. i \<in> set (closedl s) \<longleftrightarrow> listPos (objs s i) = InClosed) \<and>
     (\<forall>i \<ge> nobjs s. listPos (objs s i) = NoPos \<and> fclosed (objs s i))"

definition fm_ok :: "FileManager \<Rightarrow> bool" where
  "fm_ok s \<longleftrightarrow> 1 \<le> maxLru s \<and> length (lru s) \<le> maxLru s \<and> lists_ok s \<and> (\<forall>i. file_ok (objs s i))"

lemma objs_upd_obj [simp]: "objs (upd_obj i g s) = (objs s)(i := g (objs s i))"
  "lru (upd_obj i g s) = lru s" "closedl (upd_obj i g s) = closedl s" "maxLru (upd_obj i g s) = maxLru s"
  "disk (upd_obj i g s) = disk s" "stats (upd_obj i g s) = stats s" "nobjs (upd_obj i g s) = nobjs s"
  by (simp_all add: upd_obj_def)

lemma objs_lru_push [simp]: "objs (lru_push i s) = (objs s)(i := (objs s i)\<lparr>listPos := InLru\<rparr>)"
  "lru (lru_push i s) = i # lru s" "closedl (lru_push i s) = closedl s" "maxLru (lru_push i s) = maxLru s"
  "disk (lru_push i s) = disk s" "stats (lru_push i s) = stats s" "nobjs (lru_push i s) = nobjs s"
  by (simp_all add: lru_push_def)

lemma objs_unpin [simp]: "objs (unpin i s) = (objs s)(i := (objs s i)\<lparr>pin := pin (objs s i) - 1\<rparr>)"
  "lru (unpin i s) = lru s" "closedl (unpin i s) = closedl s" "maxLru (unpin i s) = maxLru s"
  "disk (unpin i s) = disk s" "stats (unpin i s) = stats s" "nobjs (unpin i s) = nobjs s"
  by (simp_all add: unpin_def)

lemma fm_ok_file: "fm_ok s \<Longrightarrow> file_ok (objs s i)"
  by (simp add: fm_ok_def)

lemma fm_ok_fd:
  assumes "fm_ok s" "\<not> fclosed (objs s i)" "intact (objs s i)"
  shows "fd (objs s i) \<ge> 0 \<longleftrightarrow> listPos (objs s i) = InLru"
    and "fd (objs s i) < 0 \<longleftrightarrow> listPos (objs s i) = InClosed"
  using fm_ok_file [OF assms(1), of i] assms(2,3)
  by (cases "listPos (objs s i)"; auto simp: file_ok_def intact_def)+

text \<open>A change of the object, with its place kept, is seen by \<open>file_ok\<close> only.\<close>

lemma fm_ok_upd_same_pos:
  assumes "fm_ok s" "listPos (g (objs s i)) = listPos (objs s i)" "file_ok (g (objs s i))"
    and "fclosed (g (objs s i)) = fclosed (objs s i)"
  shows "fm_ok (upd_obj i g s)"
  using assms by (auto simp: fm_ok_def lists_ok_def)

text \<open>What \<^verbatim>\<open>checkLimit\<close> does in a consistent manager.\<close>

definition evicts :: "FileManager \<Rightarrow> FileManager \<Rightarrow> bool" where
  "evicts s s' \<longleftrightarrow>
     disk s' = disk s \<and> stats s' = stats s \<and> nobjs s' = nobjs s \<and> maxLru s' = maxLru s \<and>
     (\<forall>i. objs s' i = objs s i \<or>
          (pin (objs s i) = 0 \<and> listPos (objs s i) = InLru \<and>
           objs s' i = (objs s i)\<lparr>fd := - 1, listPos := InClosed\<rparr>))"

lemma evicts_refl [simp]: "evicts s s"
  by (simp add: evicts_def)

lemma fm_ok_evict:
  assumes ok: "fm_ok s" and ne: "lru s \<noteq> []" and pin: "pin (objs s (last (lru s))) = 0"
  defines "v \<equiv> last (lru s)"
  defines "s' \<equiv> upd_obj v (\<lambda>f. f\<lparr>fd := - 1, listPos := InClosed\<rparr>)
                   (s\<lparr>lru := butlast (lru s), closedl := v # closedl s\<rparr>)"
  shows "fm_ok s'" "evicts s s'"
proof -
  obtain xs where xs: "lru s = xs @ [v]" using ne unfolding v_def by (metis append_butlast_last_id)
  have inl: "listPos (objs s v) = InLru" using ok xs by (auto simp: fm_ok_def lists_ok_def)
  have cl: "v \<notin> set (closedl s)" "\<not> fclosed (objs s v)"
    using ok inl by (auto simp: fm_ok_def lists_ok_def file_ok_def)
  have f: "file_ok (objs s v)" using ok by (simp add: fm_ok_def)
  have "i \<in> set xs \<longleftrightarrow> i \<noteq> v \<and> listPos (objs s i) = InLru" for i
    using ok xs by (auto simp: fm_ok_def lists_ok_def)
  then have "lists_ok s'"
    using ok xs cl inl by (auto simp: fm_ok_def lists_ok_def s'_def)
  moreover have "file_ok (objs s' i)" for i
    using ok f cl pin [folded v_def] inl by (auto simp: fm_ok_def file_ok_def s'_def)
  moreover have "length (lru s') \<le> maxLru s'" "1 \<le> maxLru s'" using ok xs by (auto simp: fm_ok_def s'_def)
  ultimately show "fm_ok s'" by (simp add: fm_ok_def)
  show "evicts s s'" using pin inl by (simp add: evicts_def s'_def v_def)
qed

lemma checkLimit_cases:
  assumes "fm_ok s" "checkLimit a s = Some r"
  obtains (full) "r = throw LE_TOO_MANY_OPEN_FILES s" "length (lru s) = maxLru s"
      "pin (objs s (last (lru s))) > 0"
  | (room) s' where "r = ret () s'" "fm_ok s'" "length (lru s') < maxLru s'" "evicts s s'"
proof (cases "maxLru s \<le> length (lru s)")
  case False
  then show thesis using assms room [of s] by (simp add: checkLimit_def)
next
  case True
  then have len: "length (lru s) = maxLru s" and ne: "lru s \<noteq> []"
    using assms(1) by (auto simp: fm_ok_def)
  show thesis
  proof (cases "pin (objs s (last (lru s))) > 0")
    case True
    then show thesis using assms(2) len ne by (intro full) (simp_all add: checkLimit_def)
  next
    case False
    then have pin: "pin (objs s (last (lru s))) = 0" by simp
    note ev = fm_ok_evict [OF assms(1) ne pin]
    have "length (butlast (lru s)) < maxLru s" using len ne by (simp flip: len)
    then show thesis
      using assms(2) len ne pin
      by (intro room [OF _ ev(1) _ ev(2)]) (auto simp: checkLimit_def Let_def split: option.splits)
  qed
qed

lemma lru_erase_ok:
  assumes "fm_ok s" "listPos (objs s i) = InLru"
  shows "lru_erase i s = ret () (upd_obj i (\<lambda>f. f\<lparr>listPos := NoPos\<rparr>) (s\<lparr>lru := remove1 i (lru s)\<rparr>))"
  using assms by (simp add: lru_erase_def)

text \<open>Moving an open file to the front of the list.\<close>

lemma fm_ok_touch:
  assumes ok: "fm_ok s" and i: "listPos (objs s i) = InLru"
  shows "fm_ok (s\<lparr>lru := i # remove1 i (lru s)\<rparr>)"
proof -
  have "i \<in> set (lru s)" using ok i by (simp add: fm_ok_def lists_ok_def)
  then have "length (i # remove1 i (lru s)) = length (lru s)"
    by (simp add: length_remove1) (metis Suc_pred length_pos_if_in_set)
  then show ?thesis
    using ok i by (auto simp: fm_ok_def lists_ok_def)
qed

text \<open>Putting an object on the list that is on none, once it has a descriptor.\<close>

lemma fm_ok_push:
  assumes "length (lru s) < maxLru s" "lists_ok s" "\<forall>j. j \<noteq> i \<longrightarrow> file_ok (objs s j)"
    and "listPos (objs s i) = NoPos" "file_ok ((objs s i)\<lparr>listPos := InLru\<rparr>)" "i < nobjs s"
  shows "fm_ok (lru_push i s)"
  using assms by (auto simp: fm_ok_def lists_ok_def)

lemma lists_ok_closed_erase:
  assumes "lists_ok s" "listPos (objs s i) = InClosed"
  shows "lists_ok (upd_obj i (\<lambda>f. g f\<lparr>listPos := NoPos\<rparr>) (s\<lparr>closedl := remove1 i (closedl s)\<rparr>))"
  using assms by (auto simp: lists_ok_def)

lemma sys_openFile_reopen:
  assumes "set fl \<inter> {O_CREAT, O_EXCL, O_TRUNC} = {}" "sys_openFile a p fl s = Some (n, s')"
  shows "s' = s"
  using assms
  by (cases "disk s p")
    (auto simp: sys_openFile_def open_possible_def open_effect_def fun_upd_idem split: option.splits if_splits)

lemma evicts_other:
  assumes "evicts s s'" "listPos (objs s i) \<noteq> InLru"
  shows "objs s' i = objs s i"
  using assms by (metis evicts_def)

text \<open>
  What \<^verbatim>\<open>checkActive\<close> does to a file that is not closed: it reports that all descriptors
  are in use, or the file is first on the list and pinned once more; others are
  untouched unless they were evicted, which happens only to one that nobody uses. On a file
  that is not intact it erases from the wrong list, unless it happens to evict it first.
\<close>

definition activates :: "nat \<Rightarrow> FileManager \<Rightarrow> FileManager \<Rightarrow> bool" where
  "activates i s s' \<longleftrightarrow>
     disk s' = disk s \<and> stats s' = stats s \<and> nobjs s' = nobjs s \<and> maxLru s' = maxLru s \<and>
     hd (lru s') = i \<and> lru s' \<noteq> [] \<and> pin (objs s' i) = pin (objs s i) + 1 \<and> listPos (objs s' i) = InLru \<and>
     fpath (objs s' i) = fpath (objs s i) \<and> \<not> fclosed (objs s' i) \<and>
     (fd (objs s i) \<ge> 0 \<or> pin (objs s i) > 0 \<longrightarrow> fd (objs s' i) = fd (objs s i)) \<and>
     (\<forall>j. j \<noteq> i \<longrightarrow> objs s' j = objs s j \<or>
          (pin (objs s j) = 0 \<and> listPos (objs s j) = InLru \<and>
           objs s' j = (objs s j)\<lparr>fd := - 1, listPos := InClosed\<rparr>))"

lemma checkActive_open:
  assumes ok: "fm_ok s" and cl: "\<not> fclosed (objs s i)" and fd: "fd (objs s i) \<ge> 0" and int: "intact (objs s i)"
  shows "\<exists>s'. checkActive a i s = Some (ret () s') \<and> fm_ok s' \<and> activates i s s'"
proof -
  have i: "listPos (objs s i) = InLru" using fm_ok_fd [OF ok cl int] fd by simp
  define s' where "s' = upd_obj i (\<lambda>f. f\<lparr>listPos := InLru, pin := pin f + 1\<rparr>) (s\<lparr>lru := i # remove1 i (lru s)\<rparr>)"
  have "checkActive a i s = Some (ret () s')"
    using fd i by (simp add: checkActive_def lru_erase_def s'_def lru_push_def upd_obj_def)
  moreover have "fm_ok s'"
    unfolding s'_def using fm_ok_touch [OF ok i] fm_ok_file [OF ok, of i] i
    by (intro fm_ok_upd_same_pos) (auto simp: file_ok_def)
  moreover have "activates i s s'"
    using i cl by (simp add: activates_def s'_def)
  ultimately show ?thesis by blast
qed

lemma checkActive_reopen:
  assumes ok: "fm_ok s" and cl: "\<not> fclosed (objs s i)" and fd: "fd (objs s i) < 0"
    and room: "checkLimit a s = Some (ret () s1)" "fm_ok s1" "length (lru s1) < maxLru s1" "evicts s s1"
    and pos: "listPos (objs s1 i) = InClosed"
    and run: "checkActive a i s = Some r"
  shows "\<exists>s'. r = ret () s' \<and> fm_ok s' \<and> activates i s s'"
proof -
  have pin: "pin (objs s i) = 0"
    using fm_ok_file [OF room(2), of i] pos room(4) by (auto simp: evicts_def file_ok_def) metis
  have same: "pin (objs s1 i) = pin (objs s i)" "fpath (objs s1 i) = fpath (objs s i)"
    "fflags (objs s1 i) = fflags (objs s i)" "fclosed (objs s1 i) = fclosed (objs s i)"
  proof -
    have "objs s1 i = objs s i \<or> objs s1 i = (objs s i)\<lparr>fd := - 1, listPos := InClosed\<rparr>"
      using room(4) unfolding evicts_def by blast
    then show "pin (objs s1 i) = pin (objs s i)" "fpath (objs s1 i) = fpath (objs s i)"
      "fflags (objs s1 i) = fflags (objs s i)" "fclosed (objs s1 i) = fclosed (objs s i)" by auto
  qed
  have flags: "set (fflags (objs s i)) \<inter> {O_CREAT, O_EXCL, O_TRUNC} = {}"
    using fm_ok_file [OF ok, of i] cl by (simp add: file_ok_def)
  obtain n where n: "sys_openFile a (fpath (objs s1 i)) (fflags (objs s1 i)) s1 = Some (n, s1)"
  proof -
    obtain n s2 where *: "sys_openFile a (fpath (objs s1 i)) (fflags (objs s1 i)) s1 = Some (n, s2)"
      using run fd room(1) by (auto simp: checkActive_def ret_def split: option.splits)
    moreover have "s2 = s1" using sys_openFile_reopen [OF _ *] flags same by simp
    ultimately show thesis using that by blast
  qed
  define s3 where "s3 = upd_obj i (\<lambda>f. f\<lparr>fd := n, pin := pin f + 1, listPos := NoPos\<rparr>)
      (s1\<lparr>closedl := remove1 i (closedl s1)\<rparr>)"
  have r: "r = ret () (lru_push i s3)"
    using run fd room(1) n pos
    by (simp add: checkActive_def closed_erase_def s3_def upd_obj_def ret_def andThen_def)
  have "fm_ok (lru_push i s3)"
  proof (rule fm_ok_push)
    show "lists_ok s3" unfolding s3_def
      using lists_ok_closed_erase [of s1 i "\<lambda>f. f\<lparr>fd := n, pin := pin f + 1\<rparr>"] room(2) pos
      by (simp add: fm_ok_def)
    show "i < nobjs s3"
      using room(2) pos by (cases "nobjs s1 \<le> i") (auto simp: s3_def fm_ok_def lists_ok_def)
  qed (use room(2,3) same pos cl flags in \<open>auto simp: s3_def fm_ok_def file_ok_def\<close>)
  moreover have "activates i s (lru_push i s3)"
    using room(4) same cl fd pin by (auto simp: activates_def s3_def evicts_def)
  ultimately show ?thesis using r by (auto simp: s3_def)
qed

lemma checkActive_cases:
  assumes ok: "fm_ok s" and cl: "\<not> fclosed (objs s i)" and run: "checkActive a i s = Some r"
  obtains (busy) "r = throw LE_TOO_MANY_OPEN_FILES s" "fd (objs s i) < 0" "length (lru s) = maxLru s"
      "pin (objs s (last (lru s))) > 0"
  | (broken) "fst r = Inl Undefined_Behaviour" "\<not> intact (objs s i)"
  | (active) s' where "r = ret () s'" "fm_ok s'" "activates i s s'"
proof (cases "fd (objs s i) \<ge> 0")
  case True
  show thesis
  proof (cases "listPos (objs s i) = InLru")
    case pos: True
    then show thesis using checkActive_open [OF ok cl True, of a] run active True by (auto simp: intact_def)
  next
    case False
    then have "listPos (objs s i) = NoPos"
      using fm_ok_file [OF ok, of i] True by (cases "listPos (objs s i)") (auto simp: file_ok_def)
    then show thesis using run True cl broken by (simp add: checkActive_def lru_erase_def intact_def) auto
  qed
next
  case False
  then obtain r' where r': "checkLimit a s = Some r'"
    using run by (auto simp: checkActive_def split: option.splits)
  from ok r' show thesis
  proof (cases rule: checkLimit_cases)
    case full
    then show thesis using False run r' busy by (simp add: checkActive_def throw_def)
  next
    case (room s1)
    show thesis
    proof (cases "listPos (objs s1 i) = InClosed")
      case True
      then show thesis using checkActive_reopen [OF ok cl, of a s1 r] False r' run active room by auto
    next
      case pos: False
      then have "listPos (objs s i) \<noteq> InClosed" using evicts_other [OF room(4), of i] by (cases "listPos (objs s i)") auto
      then have "\<not> intact (objs s i)" using False cl by (cases "listPos (objs s i)") (auto simp: intact_def)
      moreover obtain n s2 where o: "sys_openFile a (fpath (objs s1 i)) (fflags (objs s1 i)) s1 = Some (n, s2)"
        using run False r' room(1) by (auto simp: checkActive_def ret_def split: option.splits)
      then have "objs s2 = objs s1" by (auto simp: sys_openFile_def split: option.splits if_splits)
      then have "fst r = Inl Undefined_Behaviour"
        using run False r' room(1) o pos
        by (auto simp: checkActive_def ret_def closed_erase_def throw_def andThen_def)
      ultimately show thesis using broken by blast
    qed
  qed
qed

lemma checkLimit_new_File:
  assumes "fm_ok s"
  shows "checkLimit a (new_File n p fl t s) =
    map_option (\<lambda>(r, s'). (r, new_File n p fl t s')) (checkLimit a s)"
proof (cases "lru s = []")
  case True
  then show ?thesis by (simp add: checkLimit_def new_File_def throw_def ret_def)
next
  case False
  have "last (lru s) \<in> set (lru s)" using False by simp
  then have "listPos (objs s (last (lru s))) = InLru" using assms unfolding fm_ok_def lists_ok_def by blast
  moreover have "listPos (objs s (nobjs s)) = NoPos" using assms by (simp add: fm_ok_def lists_ok_def)
  ultimately have "last (lru s) \<noteq> nobjs s" by auto
  then show ?thesis
    using False
    by (auto simp: checkLimit_def new_File_def Let_def throw_def ret_def upd_obj_def fun_upd_twist
        split: option.split)
qed

lemma fm_ok_new_File:
  assumes "fm_ok s" "length (lru s) < maxLru s" "n \<ge> 0" "set fl \<inter> {O_CREAT, O_EXCL, O_TRUNC} = {}"
  shows "fm_ok (lru_push (nobjs s) (new_File n p fl t s))"
proof (rule fm_ok_push)
  have "nobjs s \<notin> set (lru s)" "nobjs s \<notin> set (closedl s)"
    using assms(1) by (auto simp: fm_ok_def lists_ok_def)
  then show "lists_ok (new_File n p fl t s)"
    using assms(1) by (auto simp: fm_ok_def lists_ok_def new_File_def)
qed (use assms in \<open>auto simp: fm_ok_def file_ok_def new_File_def\<close>)

text \<open>
  A new file is registered, or, when the limit is reached and the last file of the list
  is in use, the unwinding of the new object erases through an iterator never set.
\<close>

lemma register_new_full:
  assumes "fm_ok s" "n \<ge> 0" "checkLimit a s = Some (throw LE_TOO_MANY_OPEN_FILES s)"
    and "register_new a n p fl t s = Some r"
  shows "fst r = Inl Undefined_Behaviour"
proof -
  have "addFd a (nobjs s) (new_File n p fl t s) = Some (throw LE_TOO_MANY_OPEN_FILES (new_File n p fl t s))"
    by (simp add: addFd_def checkLimit_new_File [OF assms(1)] assms(3)) (simp add: throw_def andThen_def)
  then show ?thesis
    using assms(2,4)
    by (simp add: register_new_def Let_def throw_def File_destroy_def File_close_def forgetFd_def
        lru_erase_def new_File_def andThen_def) auto
qed

lemma register_new_cases:
  assumes ok: "fm_ok s" and n: "n \<ge> 0" and fl: "set fl \<inter> {O_CREAT, O_EXCL, O_TRUNC} = {}"
    and run: "register_new a n p fl t s = Some r"
  obtains (full) "fst r = Inl Undefined_Behaviour" "length (lru s) = maxLru s"
      "pin (objs s (last (lru s))) > 0"
  | (room) s1 where "r = ret (nobjs s) (lru_push (nobjs s) (new_File n p fl t s1))"
      "fm_ok (lru_push (nobjs s) (new_File n p fl t s1))" "evicts s s1"
proof -
  note new = checkLimit_new_File [OF ok, of a n p fl t]
  obtain r' where r': "checkLimit a s = Some r'"
    using run by (auto simp: register_new_def addFd_def new Let_def split: option.splits)
  from ok r' show thesis
  proof (cases rule: checkLimit_cases)
    case full
    have "fst r = Inl Undefined_Behaviour"
      using register_new_full [OF ok n _ run] r' full(1) by simp
    then show thesis using full by (intro that(1))
  next
    case (room s1)
    have nb: "nobjs s1 = nobjs s" using room(4) by (simp add: evicts_def)
    have "addFd a (nobjs s) (new_File n p fl t s) = Some (ret () (lru_push (nobjs s) (new_File n p fl t s1)))"
      by (simp add: addFd_def new r' room(1)) (simp add: ret_def andThen_def)
    then have "r = ret (nobjs s) (lru_push (nobjs s) (new_File n p fl t s1))"
      using run by (simp add: register_new_def Let_def ret_def)
    then show thesis
      using fm_ok_new_File [OF room(2,3) n fl] nb room(4) by (intro that(2)) simp_all
  qed
qed

lemma fm_ok_disk [simp]: "fm_ok (s\<lparr>disk := d\<rparr>) = fm_ok s" "fm_ok (s\<lparr>stats := st\<rparr>) = fm_ok s"
  by (simp_all add: fm_ok_def lists_ok_def)

lemma sys_openFile_lists:
  "sys_openFile a p fl s = Some (n, s') \<Longrightarrow> \<exists>d. s' = s\<lparr>disk := d\<rparr>"
  by (auto simp: sys_openFile_def split: if_splits option.splits)
    (metis FileManager.surjective FileManager.update_convs(6))+

lemma closeFd_result: "closeFd rs = Some rc \<Longrightarrow> rc = 0 \<or> rc = - 1"
proof -
  have "closeFd_loop e rs = Some rc \<Longrightarrow> rc = 0 \<or> rc = - 1" for e
    by (induction e rs rule: closeFd_loop.induct) (auto split: if_splits)
  then show "closeFd rs = Some rc \<Longrightarrow> rc = 0 \<or> rc = - 1" by (simp add: closeFd_def)
qed

lemma File_close_cases:
  assumes ok: "fm_ok s" and cl: "\<not> fclosed (objs s i)" and int: "intact (objs s i)"
    and run: "File_close a u i s = Some r"
  defines "gone \<equiv> (if fd (objs s i) \<ge> 0 then s\<lparr>lru := remove1 i (lru s)\<rparr>
                   else s\<lparr>closedl := remove1 i (closedl s)\<rparr>)"
  obtains (failed) "r = ret (- 1) (upd_obj i (\<lambda>f. f\<lparr>listPos := NoPos\<rparr>) gone)" "fd (objs s i) \<ge> 0"
      "closeFd (close_rs a) = Some (- 1)"
  | (closed) rc d where "r = ret rc ((upd_obj i (\<lambda>f. f\<lparr>listPos := NoPos, fclosed := True\<rparr>) gone)\<lparr>disk := d\<rparr>)"
proof -
  have fg: "forgetFd i s = ret () (upd_obj i (\<lambda>f. f\<lparr>listPos := NoPos\<rparr>) gone)"
    using fm_ok_fd [OF ok cl int]
    by (cases "fd (objs s i) \<ge> 0") (auto simp: forgetFd_def lru_erase_def closed_erase_def gone_def)
  have gone: "objs gone = objs s" by (simp add: gone_def)
  have disk: "gone\<lparr>disk := disk gone\<rparr> = gone" by simp
  consider "fd (objs s i) \<ge> 0" "closeFd (close_rs a) = Some (- 1)"
    | "(if fd (objs s i) \<ge> 0 then closeFd (close_rs a) else Some 0) = Some 0"
    using run fg gone cl closeFd_result
    by (cases "fd (objs s i) \<ge> 0") (auto simp: File_close_def ret_def split: option.splits)
  then show thesis
  proof cases
    case 1
    then show thesis using run fg gone cl by (intro failed) (auto simp: File_close_def ret_def Let_def)
  next
    case 2
    then show thesis
      using run fg gone cl that(2) [of _ "disk gone"]
        that(2) [of 0 "(disk gone)(fpath (objs s i) := None)"]
      by (auto simp: File_close_def ret_def Let_def upd_obj_def split: if_splits)
  qed
qed

section \<open>Interleavings\<close>

text \<open>
  Every step below runs under the manager's lock or is one atomic update, so threads
  that use the manager interleave these steps. The transfers between \<open>Enter\<close> and
  \<open>Leave\<close> change the disk and the statistics only. A reopening that fails,
  \<open>Enter_failed\<close>, pins the file and puts it on the list of the open files without a
  descriptor; a \<^verbatim>\<open>close\<close> that fails, \<open>Close_failed\<close>, takes it off its list. An operation
  that is undefined has no step.
\<close>

datatype fm_label = Open | Enter nat | Enter_failed nat | Refused nat | Leave nat | Close nat | Close_failed nat
  | Mark nat | Transfer

inductive fm_step :: "FileManager \<Rightarrow> fm_label \<Rightarrow> FileManager \<Rightarrow> bool" where
  step_open: "openFileObj a p fl s = Some (ret r s') \<Longrightarrow> fm_step s Open s'"
| step_temp: "createTemporary a ans dir x nm p s = Some (ret i s') \<Longrightarrow> fm_step s Open s'"
| step_enter: "\<not> fclosed (objs s i) \<Longrightarrow> checkActive a i s = Some (ret () s') \<Longrightarrow>
    fd (objs s' i) \<ge> 0 \<Longrightarrow> fm_step s (Enter i) s'"
| step_enter_failed: "\<not> fclosed (objs s i) \<Longrightarrow> checkActive a i s = Some (ret () s') \<Longrightarrow>
    fd (objs s' i) < 0 \<Longrightarrow> fm_step s (Enter_failed i) s'"
| step_refused: "\<not> fclosed (objs s i) \<Longrightarrow> checkActive a i s = Some (throw e s') \<Longrightarrow> e \<noteq> Undefined_Behaviour \<Longrightarrow>
    fm_step s (Refused i) s'"
| step_leave: "0 < pin (objs s i) \<Longrightarrow> fm_step s (Leave i) (unpin i s)"
| step_close: "File_close a u i s = Some (ret rc s') \<Longrightarrow> fclosed (objs s' i) \<Longrightarrow> fm_step s (Close i) s'"
| step_close_failed: "File_close a u i s = Some (ret rc s') \<Longrightarrow> \<not> fclosed (objs s' i) \<Longrightarrow>
    fm_step s (Close_failed i) s'"
| step_mark: "fm_step s (Mark i) (removeOnClose i s)"
| step_transfer: "fm_step s Transfer (s\<lparr>disk := d, stats := st\<rparr>)"

inductive fm_run :: "fm_label list \<Rightarrow> FileManager \<Rightarrow> bool" where
  run_init: "fm_run [] (fst (FileManager_init tmp cfg d))"
| run_fm_step: "fm_run ls s \<Longrightarrow> fm_step s l s' \<Longrightarrow> fm_run (l # ls) s'"

definition fm_reach :: "FileManager \<Rightarrow> bool" where
  "fm_reach s \<longleftrightarrow> (\<exists>ls. fm_run ls s)"

lemma reach_init: "fm_reach (fst (FileManager_init tmp cfg d))"
  unfolding fm_reach_def using run_init by blast

lemma reach_step: "fm_reach s \<Longrightarrow> fm_step s l s' \<Longrightarrow> fm_reach s'"
  unfolding fm_reach_def using run_fm_step by blast

lemma fm_ok_init: "fm_ok (fst (FileManager_init tmp cfg d))"
  by (auto simp: FileManager_init_def Let_def fm_ok_def lists_ok_def file_ok_def split: option.split)

lemma fm_ok_gone:
  assumes ok: "fm_ok s" and cl: "\<not> fclosed (objs s i)" and int: "intact (objs s i)"
  defines "gone \<equiv> (if fd (objs s i) \<ge> 0 then s\<lparr>lru := remove1 i (lru s)\<rparr>
                   else s\<lparr>closedl := remove1 i (closedl s)\<rparr>)"
  shows "fm_ok (upd_obj i (\<lambda>f. f\<lparr>listPos := NoPos, fclosed := b\<rparr>) gone)"
proof -
  have "lists_ok s" using ok by (simp add: fm_ok_def)
  then have "lists_ok (upd_obj i (\<lambda>f. f\<lparr>listPos := NoPos, fclosed := b\<rparr>) gone)"
    using fm_ok_fd [OF ok cl int] cl
    by (cases "fd (objs s i) \<ge> 0") (auto simp: gone_def lists_ok_def)
  moreover have "length (lru gone) \<le> maxLru gone" "1 \<le> maxLru gone" "objs gone = objs s"
    using ok length_remove1 [of i "lru s"] by (auto simp: gone_def fm_ok_def)
  moreover have "\<forall>j. file_ok (objs s j)" using ok by (simp add: fm_ok_def)
  ultimately show ?thesis using cl by (simp add: fm_ok_def file_ok_def)
qed

text \<open>A \<^verbatim>\<open>close\<close> that returns found the file on the list that its descriptor says.\<close>

lemma File_close_intact:
  assumes "fm_ok s" "\<not> fclosed (objs s i)" "File_close a u i s = Some (ret rc s')"
  shows "intact (objs s i)"
  using assms
  by (cases "listPos (objs s i)"; cases "fd (objs s i) \<ge> 0")
    (auto simp: File_close_def forgetFd_def lru_erase_def closed_erase_def intact_def throw_def ret_def)

lemma File_close_ret:
  assumes "fm_ok s" "\<not> fclosed (objs s i)" "File_close a u i s = Some (ret rc s')"
  obtains b where "fm_ok s'" "objs s' = (objs s)(i := (objs s i)\<lparr>listPos := NoPos, fclosed := b\<rparr>)"
proof -
  note int = File_close_intact [OF assms]
  define gone where "gone = (if fd (objs s i) \<ge> 0 then s\<lparr>lru := remove1 i (lru s)\<rparr>
      else s\<lparr>closedl := remove1 i (closedl s)\<rparr>)"
  have g: "objs gone = objs s" by (simp add: gone_def)
  have "(objs s i)\<lparr>listPos := NoPos, fclosed := False\<rparr> = (objs s i)\<lparr>listPos := NoPos\<rparr>"
    using assms(2) by (simp add: File.equality)
  then have eq: "upd_obj i (\<lambda>f. f\<lparr>listPos := NoPos\<rparr>) gone = upd_obj i (\<lambda>f. f\<lparr>listPos := NoPos, fclosed := False\<rparr>) gone"
    by (simp add: upd_obj_def g)
  from assms(1,2) int assms(3) show thesis
  proof (cases rule: File_close_cases)
    case failed
    then have "s' = upd_obj i (\<lambda>f. f\<lparr>listPos := NoPos\<rparr>) gone" by (simp add: gone_def)
    then show thesis
      using that [of False] fm_ok_gone [OF assms(1,2) int, of False, folded gone_def] eq g by simp
  next
    case (closed rc d)
    then show thesis
      using that [of True] fm_ok_gone [OF assms(1,2) int, of True, folded gone_def] g by (simp add: gone_def [symmetric])
  qed
qed

lemma fm_ok_close:
  assumes ok: "fm_ok s" and run: "File_close a u i s = Some (ret rc s')"
  shows "fm_ok s'"
proof (cases "fclosed (objs s i)")
  case True
  then show ?thesis using ok run by (simp add: File_close_def)
next
  case cl: False
  from ok cl run show ?thesis by (rule File_close_ret)
qed

lemma openFileObj_ret:
  assumes "fm_ok s" "openFileObj a p fl s = Some (ret r s')"
  obtains d where "s' = s\<lparr>disk := d\<rparr>"
  | n d fl' t s1 where "fm_ok s'" "s' = lru_push (nobjs s) (new_File n p fl' t s1)" "evicts (s\<lparr>disk := d\<rparr>) s1" "0 \<le> n"
proof -
  obtain n s0 where o: "sys_openFile a p fl s = Some (n, s0)"
    using assms(2) by (auto simp: openFileObj_def split: option.splits)
  obtain d where d: "s0 = s\<lparr>disk := d\<rparr>" using sys_openFile_lists [OF o] by blast
  show thesis
  proof (cases "n \<ge> 0")
    case False
    then have "s' = s\<lparr>disk := d\<rparr>" using o d assms(2) by (auto simp: openFileObj_def)
    then show thesis by (rule that(1))
  next
    case True
    define fl' where "fl' = filter (\<lambda>x. x \<notin> {O_CREAT, O_EXCL, O_TRUNC}) fl"
    obtain i where run: "register_new a n p fl' False s0 = Some (ret i s')"
      using assms(2) o True by (auto simp: openFileObj_def fl'_def andThen_eq_ret)
    have ok: "fm_ok s0" using assms(1) d by simp
    have fl': "set fl' \<inter> {O_CREAT, O_EXCL, O_TRUNC} = {}" by (auto simp: fl'_def)
    from ok True fl' run show thesis
    proof (cases rule: register_new_cases)
      case (room s1)
      have "nobjs s0 = nobjs s" by (simp add: d)
      then have "s' = lru_push (nobjs s) (new_File n p fl' False s1)" using room(1) by simp
      moreover from this have "fm_ok s'" using room(2) \<open>nobjs s0 = nobjs s\<close> by simp
      ultimately show thesis using that(2) room(3) d True by blast
    qed simp
  qed
qed

lemma createTemporary_ret:
  assumes "fm_ok s" "createTemporary a ans dir x nm p s = Some (ret i s')"
  obtains n d p' fl' t s1 where
    "fm_ok s'" "s' = lru_push (nobjs s) (new_File n p' fl' t s1)" "evicts (s\<lparr>disk := d\<rparr>) s1" "0 \<le> n"
proof -
  obtain n d p' where run: "register_new a (int n) p' [O_RDWR, O_LARGEFILE] True (s\<lparr>disk := d\<rparr>) = Some (ret i s')"
    using assms(2) by (auto simp: createTemporary_def Let_def split: create_answer.splits if_splits)
  have ok: "fm_ok (s\<lparr>disk := d\<rparr>)" using assms(1) by simp
  have fl: "set [O_RDWR, O_LARGEFILE] \<inter> {O_CREAT, O_EXCL, O_TRUNC} = {}" by simp
  from ok of_nat_0_le_iff fl run show thesis
  proof (cases rule: register_new_cases)
    case (room s1)
    then show thesis using that [of "int n" p' "[O_RDWR, O_LARGEFILE]" True s1 d] by simp
  qed simp
qed

lemma fm_ok_step: "fm_step s l s' \<Longrightarrow> fm_ok s \<Longrightarrow> fm_ok s'"
proof (induction rule: fm_step.induct)
  case (step_open a p fl s r s')
  from step_open(2,1) show ?case by (cases rule: openFileObj_ret) (use step_open(2) in auto)
next
  case (step_temp a ans dir x nm p s i s')
  from step_temp(2,1) show ?case by (cases rule: createTemporary_ret)
next
  case (step_enter s i a s')
  from step_enter(4,1,2) show ?case by (cases rule: checkActive_cases) auto
next
  case (step_enter_failed s i a s')
  from step_enter_failed(4,1,2) show ?case by (cases rule: checkActive_cases) auto
next
  case (step_refused s i a e s')
  from step_refused(4,1,2) show ?case by (cases rule: checkActive_cases) (use step_refused(3,4) in auto)
next
  case (step_leave s i)
  then show ?case unfolding unpin_def
    using fm_ok_file [of s i] by (intro fm_ok_upd_same_pos) (auto simp: file_ok_def)
next
  case (step_close a u i s rc s')
  then show ?case using fm_ok_close by blast
next
  case (step_close_failed a u i s rc s')
  then show ?case using fm_ok_close by blast
next
  case (step_mark s i)
  then show ?case unfolding removeOnClose_def
    using fm_ok_file [of s i] by (intro fm_ok_upd_same_pos) (auto simp: file_ok_def)
qed simp_all

lemma fm_run_ok: "fm_run ls s \<Longrightarrow> fm_ok s"
  by (induction rule: fm_run.induct) (simp_all add: fm_ok_init fm_ok_step)

lemma fm_reach_ok: "fm_reach s \<Longrightarrow> fm_ok s"
  unfolding fm_reach_def using fm_run_ok by blast

text \<open>An object stops being intact in the two failing steps only.\<close>

definition breaks :: "fm_label \<Rightarrow> nat \<Rightarrow> File \<Rightarrow> File \<Rightarrow> bool" where
  "breaks l i f f' \<longleftrightarrow>
     (listPos f' = NoPos \<and> \<not> fclosed f' \<longrightarrow> (listPos f = NoPos \<and> \<not> fclosed f) \<or> l = Close_failed i) \<and>
     (listPos f' = InLru \<and> fd f' < 0 \<longrightarrow> (listPos f = InLru \<and> fd f < 0) \<or> l = Enter_failed i)"

lemma breaks_refl [simp]: "breaks l i f f"
  by (simp add: breaks_def)

lemma breaks_evict [simp]: "breaks l i f (f\<lparr>fd := - 1, listPos := InClosed\<rparr>)"
  by (simp add: breaks_def)

lemma breaks_new:
  assumes "evicts (s\<lparr>disk := d\<rparr>) s1" "0 \<le> n"
  shows "breaks l i (objs s i) (objs (lru_push (nobjs s) (new_File n p fl t s1)) i)"
proof (cases "i = nobjs s")
  case False
  have "nobjs s1 = nobjs s" using assms(1) by (simp add: evicts_def)
  moreover have "objs s1 i = objs s i \<or> objs s1 i = (objs s i)\<lparr>fd := - 1, listPos := InClosed\<rparr>"
    using assms(1) unfolding evicts_def by auto
  ultimately show ?thesis using False by (auto simp: new_File_def)
next
  case True
  have "nobjs s1 = nobjs s" using assms(1) by (simp add: evicts_def)
  then show ?thesis using True assms(2) by (simp add: new_File_def breaks_def)
qed

lemma breaks_activate:
  assumes "activates j s s'" "fd (objs s' j) < 0 \<longrightarrow> l = Enter_failed j"
  shows "breaks l i (objs s i) (objs s' i)"
proof (cases "i = j")
  case False
  then have "objs s' i = objs s i \<or> objs s' i = (objs s i)\<lparr>fd := - 1, listPos := InClosed\<rparr>"
    using assms(1) unfolding activates_def by blast
  then show ?thesis by auto
qed (use assms in \<open>simp add: activates_def breaks_def\<close>)

lemma breaks_close:
  assumes "fm_ok s" "File_close a u j s = Some (ret rc s')" "\<not> fclosed (objs s' j) \<longrightarrow> l = Close_failed j"
  shows "breaks l i (objs s i) (objs s' i)"
proof (cases "fclosed (objs s j)")
  case True
  then show ?thesis using assms(2) by (simp add: File_close_def)
next
  case False
  from assms(1) False assms(2) show ?thesis
    by (rule File_close_ret) (use assms(3) in \<open>auto simp: breaks_def split: if_splits\<close>)
qed

lemma fm_step_breaks: "fm_step s l s' \<Longrightarrow> fm_ok s \<Longrightarrow> breaks l i (objs s i) (objs s' i)"
proof (induction rule: fm_step.induct)
  case (step_open a p fl s r s')
  from step_open(2,1) show ?case by (cases rule: openFileObj_ret) (auto simp del: objs_lru_push intro: breaks_new)
next
  case (step_temp a ans dir x nm p s i' s')
  from step_temp(2,1) show ?case by (cases rule: createTemporary_ret) (auto simp del: objs_lru_push intro: breaks_new)
next
  case (step_enter s j a s')
  from step_enter(4,1,2) show ?case by (cases rule: checkActive_cases) (use step_enter(3) in \<open>auto intro: breaks_activate\<close>)
next
  case (step_enter_failed s j a s')
  from step_enter_failed(4,1,2) show ?case by (cases rule: checkActive_cases) (auto intro: breaks_activate)
next
  case (step_refused s j a e s')
  from step_refused(4,1,2) show ?case by (cases rule: checkActive_cases) (use step_refused(3) in auto)
next
  case (step_close a u j s rc s')
  then show ?case using breaks_close by blast
next
  case (step_close_failed a u j s rc s')
  then show ?case using breaks_close by blast
qed (auto simp: breaks_def removeOnClose_def)

lemma fm_run_breaks:
  "fm_run ls s \<Longrightarrow>
     (listPos (objs s i) = NoPos \<and> \<not> fclosed (objs s i) \<longrightarrow> Close_failed i \<in> set ls) \<and>
     (listPos (objs s i) = InLru \<and> fd (objs s i) < 0 \<longrightarrow> Enter_failed i \<in> set ls)"
proof (induction rule: fm_run.induct)
  case (run_init tmp cfg d)
  show ?case by (auto simp: FileManager_init_def Let_def split: option.split)
next
  case (run_fm_step ls s l s')
  then show ?case using fm_step_breaks [OF run_fm_step(2) fm_run_ok [OF run_fm_step(1)], of i] by (auto simp: breaks_def)
qed

text \<open>The descriptor of a file in use survives the steps of the other threads.\<close>

lemma evicts_pinned: "evicts s s' \<Longrightarrow> pin (objs s i) > 0 \<Longrightarrow> objs s' i = objs s i"
  by (metis evicts_def less_numeral_extra(3))

lemma evicts_new_pinned:
  assumes "fm_ok s" "evicts (s\<lparr>disk := d\<rparr>) s1" "pin (objs s i) > 0" "\<not> fclosed (objs s i)"
  shows "objs (lru_push (nobjs s) (new_File n p fl t s1)) i = objs s i"
proof -
  have "i \<noteq> nobjs s" using assms(1,4) by (auto simp: fm_ok_def lists_ok_def file_ok_def)
  moreover have "nobjs s1 = nobjs s" using assms(2) by (simp add: evicts_def)
  moreover have "objs s1 i = objs s i" using evicts_pinned [OF assms(2), of i] assms(3) by simp
  ultimately show ?thesis by (simp add: new_File_def)
qed

lemma activates_pinned:
  assumes "activates j s s'" "0 < pin (objs s i)" "\<not> fclosed (objs s i)"
  shows "fd (objs s' i) = fd (objs s i) \<and> \<not> fclosed (objs s' i)"
  using assms unfolding activates_def by (cases "i = j") auto

lemma fm_step_pinned:
  "fm_step s l s' \<Longrightarrow> fm_ok s \<Longrightarrow> 0 < pin (objs s i) \<Longrightarrow> \<not> fclosed (objs s i) \<Longrightarrow> l \<noteq> Close i \<Longrightarrow>
   fd (objs s' i) = fd (objs s i) \<and> \<not> fclosed (objs s' i)"
proof (induction rule: fm_step.induct)
  case (step_open a p fl s r s')
  from step_open(2,1) show ?case
    by (cases rule: openFileObj_ret) (use step_open evicts_new_pinned in auto)
next
  case (step_temp a ans dir x nm p s i' s')
  from step_temp(2,1) show ?case
    by (cases rule: createTemporary_ret) (use step_temp evicts_new_pinned in auto)
next
  case (step_enter s j a s')
  from step_enter(4,1,2) show ?case
    by (cases rule: checkActive_cases) (use activates_pinned step_enter(5,6) in auto)
next
  case (step_enter_failed s j a s')
  from step_enter_failed(4,1,2) show ?case
    by (cases rule: checkActive_cases) (use activates_pinned step_enter_failed(5,6) in auto)
next
  case (step_refused s j a e s')
  from step_refused(4,1,2) show ?case by (cases rule: checkActive_cases) (use step_refused in auto)
next
  case (step_close a u j s rc s')
  show ?case
  proof (cases "fclosed (objs s j)")
    case True
    then show ?thesis using step_close by (simp add: File_close_def)
  next
    case False
    from step_close(3) False step_close(1) show ?thesis by (rule File_close_ret) (use step_close in auto)
  qed
next
  case (step_close_failed a u j s rc s')
  show ?case
  proof (cases "fclosed (objs s j)")
    case True
    then show ?thesis using step_close_failed by (simp add: File_close_def)
  next
    case False
    from step_close_failed(3) False step_close_failed(1) show ?thesis
      by (rule File_close_ret) (use step_close_failed in auto)
  qed
qed (auto simp: removeOnClose_def)

section \<open>The methods\<close>

lemma activates_frame:
  assumes "activates i s s1"
  shows "disk s1 = disk s" "stats s1 = stats s" "fpath (objs s1 i) = fpath (objs s i)"
    "\<not> fclosed (objs s1 i)"
  using assms by (simp_all add: activates_def)

lemma with_monitor_cases:
  assumes ok: "fm_ok s" and cl: "\<not> fclosed (objs s i)" and int: "intact (objs s i)" and f: "disk s (fpath (objs s i)) = Some f"
    and run: "with_monitor a i body s = Some r"
  obtains (busy) "r = throw LE_TOO_MANY_OPEN_FILES s" "length (lru s) = maxLru s"
  | (entered) s1 rs r1 s2 where "activates i s s1" "fm_ok s1"
      "body rs f s1 = Some (r1, s2)" "r = (r1, unpin i s2)"
      "rs = (if fd (objs s1 i) < 0 then [EOther] else io_rs a)"
proof -
  obtain r0 where r0: "checkActive a i s = Some r0"
    using run cl by (auto simp: with_monitor_def split: option.splits)
  from ok cl r0 show thesis
  proof (cases rule: checkActive_cases)
    case busy
    then show thesis using run cl r0 that(1) by (simp add: with_monitor_def throw_def)
  next
    case broken
    then show thesis using int by simp
  next
    case (active s1)
    have bytes: "(case disk s1 (fpath (objs s1 i)) of None \<Rightarrow> [] | Some bs \<Rightarrow> bs) = f"
      using activates_frame [OF active(3)] f by simp
    obtain r1 s2 where b: "body (if fd (objs s1 i) < 0 then [EOther] else io_rs a) f s1 = Some (r1, s2)"
      and r: "r = (r1, unpin i s2)"
      using run cl r0 active(1) bytes by (auto simp: with_monitor_def ret_def)
    show thesis using that(2) [OF active(3) active(2) b r refl] .
  qed
qed

text \<open>
  Leaving the monitor: the pin is given back, the manager is consistent, and the file is
  intact, unless it could not be reopened.
\<close>

definition monitor_left :: "nat \<Rightarrow> FileManager \<Rightarrow> FileManager \<Rightarrow> bool" where
  "monitor_left i s s' \<longleftrightarrow>
     pin (objs s' i) = pin (objs s i) \<and> fpath (objs s' i) = fpath (objs s i) \<and>
     fclosed (objs s' i) = fclosed (objs s i) \<and> fm_ok s' \<and> (fd (objs s' i) \<ge> 0 \<longrightarrow> intact (objs s' i))"

lemma monitor_left_unpin:
  assumes "activates i s s1" "fm_ok s1" "\<not> fclosed (objs s i)"
  shows "monitor_left i s (unpin i (s1\<lparr>disk := d, stats := st\<rparr>))"
proof -
  have ok: "fm_ok (s1\<lparr>disk := d, stats := st\<rparr>)" using assms(2) by simp
  have "fm_ok (unpin i (s1\<lparr>disk := d, stats := st\<rparr>))"
    unfolding unpin_def using fm_ok_file [OF assms(2), of i]
    by (intro fm_ok_upd_same_pos [OF ok]) (auto simp: file_ok_def)
  then show ?thesis using assms(1,3) by (simp add: monitor_left_def activates_def intact_def)
qed

lemma monitor_left_refl: "fm_ok s \<Longrightarrow> intact (objs s i) \<Longrightarrow> monitor_left i s s"
  by (simp add: monitor_left_def)

text \<open>What the two write methods leave on the disk.\<close>

definition write_spec ::
  "nat \<Rightarrow> byte list \<Rightarrow> nat \<Rightarrow> byte list \<Rightarrow> FileManager \<Rightarrow> (unit, FileManager) outcome \<Rightarrow> bool" where
  "write_spec i f offs data s r \<longleftrightarrow>
     monitor_left i s (snd r) \<and>
     ((\<exists>s'. r = ret () s' \<and> disk s' = (disk s)(fpath (objs s i) \<mapsto> pwrite f offs data)) \<or>
      (\<exists>k s'. k < length data \<and> r = throw LE_PWRITE_ERROR s' \<and>
              disk s' = (disk s)(fpath (objs s i) \<mapsto> pwrite f offs (take k data))) \<or>
      r = throw LE_TOO_MANY_OPEN_FILES s)"

lemma finish_write_spec:
  assumes "write_result f offs data r1" "activates i s s1" "fm_ok s1"
    "finish_write i r1 s1 = (r2, s2)" "\<not> fclosed (objs s i)"
  shows "write_spec i f offs data s (r2, unpin i s2)"
proof -
  note frame = activates_frame [OF assms(2)]
  have "s2 = s1\<lparr>disk := disk s2, stats := stats s2\<rparr>"
    using assms(4) by (cases r1 rule: outcome_cases)
      (auto simp: finish_write_def put_bytes_def ret_def throw_def intro: FileManager.equality)
  then have left: "monitor_left i s (unpin i s2)"
    using monitor_left_unpin [OF assms(2,3,5)] by metis
  from assms(1) consider "r1 = ret 0 (pwrite f offs data)"
    | k where "k < length data" "r1 = throw LE_PWRITE_ERROR (pwrite f offs (take k data))"
    by (auto simp: write_result_def)
  then show ?thesis
  proof cases
    case 1
    then have "r2 = Inr ()" "disk s2 = (disk s)(fpath (objs s i) \<mapsto> pwrite f offs data)"
      using assms(4) frame by (auto simp: finish_write_def put_bytes_def ret_def)
    then show ?thesis using left by (simp add: write_spec_def ret_def)
  next
    case 2
    then have "r2 = Inl LE_PWRITE_ERROR" "disk s2 = (disk s)(fpath (objs s i) \<mapsto> pwrite f offs (take k data))"
      using assms(4) frame by (auto simp: finish_write_def put_bytes_def throw_def)
    then show ?thesis using left 2(1) by (auto simp: write_spec_def throw_def)
  qed
qed

lemma writeAll_spec:
  assumes ok: "fm_ok s" and cl: "\<not> fclosed (objs s i)" and int: "intact (objs s i)" and f: "disk s (fpath (objs s i)) = Some f"
    and run: "writeAll a i data offs s = Some r"
  shows "write_spec i f offs data s r"
  using ok cl int f run [unfolded writeAll_def]
proof (cases rule: with_monitor_cases)
  case busy
  then show ?thesis using ok int by (simp add: write_spec_def monitor_left_refl)
next
  case (entered s1 rs r2 s2)
  then obtain r1 where r1: "writeAll_loop rs data offs 0 0 f = Some r1" "finish_write i r1 s1 = (r2, s2)"
    by auto
  then show ?thesis
    unfolding entered(4) by (intro finish_write_spec [OF writeAll_loop_result [OF r1(1)] entered(1,2) _ cl])
qed

lemma writeAllv_spec:
  assumes ok: "fm_ok s" and cl: "\<not> fclosed (objs s i)" and int: "intact (objs s i)" and f: "disk s (fpath (objs s i)) = Some f"
    and run: "writeAllv a i iovs offs s = Some r"
  shows "write_spec i f offs (concat iovs) s r"
  using ok cl int f run [unfolded writeAllv_def]
proof (cases rule: with_monitor_cases)
  case busy
  then show ?thesis using ok int by (simp add: write_spec_def monitor_left_refl)
next
  case (entered s1 rs r2 s2)
  then obtain r1 where r1: "writeAllv_loop rs iovs iovs (length (concat iovs)) 0 offs 0 0 f = Some r1"
    "finish_write i r1 s1 = (r2, s2)"
    by (auto simp: length_concat)
  have "write_result f offs (concat iovs) r1" by (rule writeAllv_loop_result [OF r1(1)]) simp_all
  then show ?thesis using entered(1,2) r1(2) cl unfolding entered(4) by (rule finish_write_spec)
qed

lemma readAll_spec:
  assumes ok: "fm_ok s" and cl: "\<not> fclosed (objs s i)" and int: "intact (objs s i)" and f: "disk s (fpath (objs s i)) = Some f"
    and run: "readAll a i sz offs s = Some r"
  shows "monitor_left i s (snd r) \<and> disk (snd r) = disk s \<and>
    (fst r = Inr (pread f offs sz) \<and> (sz = 0 \<or> offs + sz \<le> length f) \<or>
     fst r = Inl LE_PREAD_ERROR \<or> r = throw LE_TOO_MANY_OPEN_FILES s)"
  using ok cl int f run [unfolded readAll_def]
proof (cases rule: with_monitor_cases)
  case (entered s1 rs r2 s2)
  then obtain r1 where r1: "readAll_loop rs f sz offs 0 0 [] = Some r1"
    "(r2, s2) = (case r1 of Inl e \<Rightarrow> throw e s1 | Inr (dst, sz') \<Rightarrow> ret dst (count_read sz' s1))"
    by auto
  have "\<exists>st. s2 = s1\<lparr>disk := disk s1, stats := st\<rparr>"
    using r1(2) by (cases r1) (auto simp: count_read_def ret_def throw_def intro: exI [of _ "stats s1"])
  then have left: "monitor_left i s (unpin i s2)" using monitor_left_unpin [OF entered(1,2) cl] by metis
  have "read_result f offs sz [] r1" by (rule readAll_loop_result [OF r1(1)])
  then show ?thesis
    using left r1(2) activates_frame [OF entered(1)] unfolding entered(4)
    by (auto simp: read_result_def throw_def ret_def count_read_def)
qed (simp add: ok int monitor_left_refl)

lemma readAllv_spec:
  assumes ok: "fm_ok s" and cl: "\<not> fclosed (objs s i)" and int: "intact (objs s i)" and f: "disk s (fpath (objs s i)) = Some f"
    and dist: "distinct (concat iovs)" and run: "readAllv a i iovs offs mem s = Some r"
  shows "monitor_left i s (snd r) \<and> disk (snd r) = disk s \<and>
    ((\<exists>mem'. fst r = Inr mem' \<and> map mem' (concat iovs) = pread f offs (length (concat iovs)) \<and>
             (\<forall>x. x \<notin> set (concat iovs) \<longrightarrow> mem' x = mem x)) \<or>
     fst r = Inl LE_PREAD_ERROR \<or> r = throw LE_TOO_MANY_OPEN_FILES s)"
  using ok cl int f run [unfolded readAllv_def]
proof (cases rule: with_monitor_cases)
  case (entered s1 rs r2 s2)
  then obtain r1 where r1:
    "readAllv_loop rs f iovs iovs (length (concat iovs)) 0 offs 0 0 mem = Some r1"
    "(r2, s2) = (case r1 of (Inl e, mem') \<Rightarrow> throw e s1 | (Inr sz', mem') \<Rightarrow> ret mem' (count_read sz' s1))"
    by (auto simp: length_concat)
  have "\<exists>st. s2 = s1\<lparr>disk := disk s1, stats := st\<rparr>"
    using r1(2) by (cases r1 rule: outcome_cases)
      (auto simp: count_read_def ret_def throw_def intro: exI [of _ "stats s1"])
  then have left: "monitor_left i s (unpin i s2)" using monitor_left_unpin [OF entered(1,2) cl] by metis
  have res: "readv_result f offs (concat iovs) mem r1"
    by (rule readAllv_loop_result [OF r1(1)]) (simp_all add: dist)
  have out: "map_of (zip (concat iovs) bs) x = None" if "x \<notin> set (concat iovs)" for x and bs :: "byte list"
    using that by (rule map_of_zip_None)
  from res consider mem' where "r1 = throw LE_PREAD_ERROR mem'"
    | "r1 = ret 0 (store_at (concat iovs) (pread f offs (length (concat iovs))) mem)"
      "length (pread f offs (length (concat iovs))) = length (concat iovs)"
    by (cases "concat iovs = []")
      (auto simp: readv_result_def length_pread simp del: concat_eq_Nil_conv)
  then show ?thesis
  proof cases
    case 1
    then show ?thesis
      using left r1(2) activates_frame [OF entered(1)] unfolding entered(4) by (simp add: throw_def)
  next
    case 2
    have "map (store_at (concat iovs) (pread f offs (length (concat iovs))) mem) (concat iovs) =
        pread f offs (length (concat iovs))"
      by (rule map_store_at [OF dist 2(2)])
    then show ?thesis
      using left r1(2) 2(1) activates_frame [OF entered(1)] out unfolding entered(4)
      by (simp add: ret_def count_read_def store_at_def)
  qed
qed (simp add: ok int monitor_left_refl)

text \<open>On an open file the methods go straight to the transfer.\<close>

lemma with_monitor_open:
  assumes ok: "fm_ok s" and cl: "\<not> fclosed (objs s i)" and int: "intact (objs s i)" and fd: "0 \<le> fd (objs s i)"
    and f: "disk s (fpath (objs s i)) = Some f"
  obtains s1 where "activates i s s1" "fm_ok s1" "0 \<le> fd (objs s1 i)"
    "\<And>body. with_monitor a i body s = map_option (\<lambda>(r, s2). (r, unpin i s2)) (body (io_rs a) f s1)"
proof -
  obtain s1 where s1: "checkActive a i s = Some (ret () s1)" "fm_ok s1" "activates i s s1"
    using checkActive_open [OF ok cl fd int] by blast
  have fd1: "0 \<le> fd (objs s1 i)" using s1(3) fd by (simp add: activates_def)
  show thesis
    by (rule that [OF s1(3,2) fd1])
      (use s1 fd1 cl f activates_frame [OF s1(3)] in \<open>simp add: with_monitor_def ret_def\<close>)
qed

lemma writeAll_open:
  assumes "fm_ok s" "\<not> fclosed (objs s i)" "intact (objs s i)" "0 \<le> fd (objs s i)" "disk s (fpath (objs s i)) = Some f"
    and run: "writeAll_loop (io_rs a) data offs 0 0 f = Some (ret sz g)"
  shows "\<exists>s'. writeAll a i data offs s = Some (ret () s') \<and> fm_ok s' \<and> \<not> fclosed (objs s' i) \<and>
     intact (objs s' i) \<and> 0 \<le> fd (objs s' i) \<and> disk s' (fpath (objs s' i)) = Some g"
proof -
  obtain s1 where s1: "activates i s s1" "fm_ok s1" "0 \<le> fd (objs s1 i)"
    "with_monitor a i body s = map_option (\<lambda>(r, s2). (r, unpin i s2)) (body (io_rs a) f s1)"
    for body :: "sysret list \<Rightarrow> byte list \<Rightarrow> FileManager \<Rightarrow> (unit, FileManager) outcome option"
    by (rule with_monitor_open [OF assms(1-5), of a]) iprover
  define st where "st = (stats s1)\<lparr>writtenSize := writtenSize (stats s1) + sz,
      writtenChunks := writtenChunks (stats s1) + 1\<rparr>"
  define s' where "s' = unpin i (s1\<lparr>disk := (disk s1)(fpath (objs s1 i) \<mapsto> g), stats := st\<rparr>)"
  have "writeAll a i data offs s = Some (ret () s')"
    using run unfolding writeAll_def s1(4)
    by (simp add: finish_write_def put_bytes_def ret_def s'_def st_def)
  moreover have "monitor_left i s s'" unfolding s'_def using monitor_left_unpin s1 assms(2) by blast
  moreover have "0 \<le> fd (objs s' i)" "disk s' (fpath (objs s' i)) = Some g" using s1(3) by (simp_all add: s'_def)
  ultimately show ?thesis using assms(2) by (auto simp: monitor_left_def)
qed

section \<open>Properties\<close>

text \<open>A manager with one open file, which the witnesses use.\<close>

definition ex_os :: os_answers where
  "ex_os = \<lparr>close_rs = [Done 0], open_rs = [EINTR, Done 7], io_rs = [EAGAIN, Done 2, EINTR, Done 100]\<rparr>"

definition ex_fm :: FileManager where
  "ex_fm = snd (the (openFileObj ex_os ''a'' [O_CREAT, O_RDWR]
                       (fst (FileManager_init (Some [''scidb_x'', ''keep'']) 1 (\<lambda>_. None)))))"

lemma ex_fm_eval:
  "lru ex_fm = [0]" "closedl ex_fm = []" "maxLru ex_fm = 1" "disk ex_fm = [''a'' \<mapsto> []]" "nobjs ex_fm = 1"
  "objs ex_fm 0 = \<lparr>fd = 7, fpath = ''a'', fflags = [O_RDWR], fremove = False, fclosed = False, pin = 0,
                   listPos = InLru\<rparr>"
  by (simp_all add: ex_fm_def ex_os_def openFileObj_def sys_openFile_def open_possible_def open_effect_def
      openFile_def FileManager_init_def register_new_def addFd_def checkLimit_def new_File_def Let_def
      retry_limits ret_def andThen_def)

text \<open>C16. In every state the threads can bring the manager to, over every failure of the system, at most
  \<open>maxLru\<close> files are on the list of the open files. A file in use with an open descriptor is on it, unless
  a \<^verbatim>\<open>close\<close> of it failed; a file on it has an open descriptor, unless a reopening of it failed.\<close>

theorem open_files_bounded:
  assumes "fm_run ls s"
  shows "card (set (lru s)) \<le> maxLru s \<and>
     {i. \<not> fclosed (objs s i) \<and> fd (objs s i) \<ge> 0} \<subseteq> set (lru s) \<union> {i. Close_failed i \<in> set ls} \<and>
     set (lru s) \<subseteq> {i. \<not> fclosed (objs s i) \<and> fd (objs s i) \<ge> 0} \<union> {i. Enter_failed i \<in> set ls}"
proof -
  have ok: "fm_ok s" by (rule fm_run_ok [OF assms])
  have pos: "i \<in> set (lru s) \<longleftrightarrow> listPos (objs s i) = InLru" for i using ok by (simp add: fm_ok_def lists_ok_def)
  have "card (set (lru s)) \<le> maxLru s" using ok card_length [of "lru s"] by (auto simp: fm_ok_def)
  moreover have "i \<in> set (lru s) \<union> {i. Close_failed i \<in> set ls}" if "\<not> fclosed (objs s i)" "fd (objs s i) \<ge> 0" for i
    using that fm_ok_file [OF ok, of i] fm_run_breaks [OF assms, of i] pos [of i]
    by (cases "listPos (objs s i)") (auto simp: file_ok_def)
  moreover have "i \<in> {i. \<not> fclosed (objs s i) \<and> fd (objs s i) \<ge> 0} \<union> {i. Enter_failed i \<in> set ls}" if "i \<in> set (lru s)" for i
    using that fm_ok_file [OF ok, of i] fm_run_breaks [OF assms, of i] pos [of i] by (auto simp: file_ok_def)
  ultimately show ?thesis by blast
qed

text \<open>Two files with a limit of one descriptor: the first is evicted and cannot be reopened.\<close>

definition ex_bad_os :: os_answers where
  "ex_bad_os = \<lparr>close_rs = [Done 0], open_rs = [EOther], io_rs = []\<rparr>"

definition ex_evicted :: FileManager where
  "ex_evicted = snd (the (openFileObj ex_os ''b'' [O_CREAT, O_RDWR] ex_fm))"

definition ex_bad :: FileManager where
  "ex_bad = snd (the (checkActive ex_bad_os 0 ex_evicted))"

lemma ex_evicted_eval:
  "openFileObj ex_os ''b'' [O_CREAT, O_RDWR] ex_fm = Some (ret (Some 1) ex_evicted)"
  "lru ex_evicted = [Suc 0]" "closedl ex_evicted = [0]" "maxLru ex_evicted = 1" "nobjs ex_evicted = 2"
  "disk ex_evicted = [''a'' \<mapsto> [], ''b'' \<mapsto> []]"
  "objs ex_evicted 0 = \<lparr>fd = - 1, fpath = ''a'', fflags = [O_RDWR], fremove = False, fclosed = False, pin = 0,
                       listPos = InClosed\<rparr>"
  "objs ex_evicted (Suc 0) = \<lparr>fd = 7, fpath = ''b'', fflags = [O_RDWR], fremove = False, fclosed = False, pin = 0,
                       listPos = InLru\<rparr>"
  by (simp_all add: ex_evicted_def openFileObj_def sys_openFile_def open_possible_def open_effect_def openFile_def
      ex_fm_eval ex_os_def closeFd_def register_new_def addFd_def checkLimit_def new_File_def Let_def retry_limits
      ret_def andThen_def)

lemma ex_bad_eval:
  "checkActive ex_bad_os 0 ex_evicted = Some (ret () ex_bad)"
  "lru ex_bad = [0]" "maxLru ex_bad = 1" "fd (objs ex_bad 0) = - 1"
  by (simp_all add: ex_bad_def checkActive_def checkLimit_def sys_openFile_def open_possible_def openFile_def
      closed_erase_def ex_evicted_eval ex_bad_os_def closeFd_def Let_def ret_def andThen_def)

lemma ex_open_run: "fm_run [Open] ex_fm"
proof (rule run_fm_step [OF run_init step_open])
  show "openFileObj ex_os ''a'' [O_CREAT, O_RDWR]
      (fst (FileManager_init (Some [''scidb_x'', ''keep'']) 1 (\<lambda>_. None))) = Some (ret (Some 0) ex_fm)"
    by (simp add: ex_fm_def ex_os_def openFileObj_def sys_openFile_def open_possible_def open_effect_def
        openFile_def FileManager_init_def register_new_def addFd_def checkLimit_def new_File_def Let_def
        retry_limits ret_def andThen_def)
qed

lemma ex_fm_reach: "fm_reach ex_fm"
  unfolding fm_reach_def using ex_open_run by blast

lemma ex_bad_run: "fm_run [Enter_failed 0, Open, Open] ex_bad"
proof (rule run_fm_step [OF run_fm_step [OF ex_open_run step_open [OF ex_evicted_eval(1)]]])
  show "fm_step ex_evicted (Enter_failed 0) ex_bad"
    using step_enter_failed [OF _ ex_bad_eval(1)] by (simp add: ex_bad_eval ex_evicted_eval)
qed

theorem open_files_bounded_witness:
  "fm_run [Enter_failed 0, Open, Open] ex_bad \<and> card (set (lru ex_bad)) \<le> 1 \<and> fd (objs ex_bad 0) = - 1 \<and>
   {i. \<not> fclosed (objs ex_bad i) \<and> fd (objs ex_bad i) \<ge> 0} \<subseteq> {0}"
  using open_files_bounded [OF ex_bad_run] ex_bad_run by (simp add: ex_bad_eval)

text \<open>C17. A descriptor in use is not closed under its user by the work of other threads on other files: no
  step, over every failure of the system, changes the descriptor of a pinned file, apart from a \<^verbatim>\<open>close\<close> of
  that file, which does not look at the pin. Where no reopening and no \<^verbatim>\<open>close\<close> of it failed, it is open.\<close>

theorem pinned_descriptor_kept:
  assumes "fm_reach s" "fm_step s l s'" "l \<noteq> Close i" "l \<noteq> Close_failed i" "0 < pin (objs s i)" "\<not> fclosed (objs s i)"
  shows "fd (objs s' i) = fd (objs s i) \<and> \<not> fclosed (objs s' i) \<and> (intact (objs s i) \<longrightarrow> 0 \<le> fd (objs s i))"
proof -
  have ok: "fm_ok s" by (rule fm_reach_ok [OF assms(1)])
  have "0 \<le> fd (objs s i)" if "intact (objs s i)"
    using fm_ok_file [OF ok, of i] that assms(5,6) by (cases "listPos (objs s i)") (auto simp: file_ok_def intact_def)
  then show ?thesis using fm_step_pinned [OF assms(2) ok assms(5,6,3)] by simp
qed

definition ex_pinned :: FileManager where
  "ex_pinned = snd (the (checkActive ex_os 0 ex_fm))"

lemma ex_pinned_eval:
  "checkActive ex_os 0 ex_fm = Some (ret () ex_pinned)"
  "objs ex_pinned 0 = \<lparr>fd = 7, fpath = ''a'', fflags = [O_RDWR], fremove = False, fclosed = False, pin = 1,
                       listPos = InLru\<rparr>"
  "lru ex_pinned = [0]" "maxLru ex_pinned = 1"
  by (simp_all add: ex_pinned_def checkActive_def lru_erase_def ex_fm_eval ret_def andThen_def)

lemma ex_pinned_reach: "fm_reach ex_pinned"
  by (rule reach_step [OF ex_fm_reach step_enter [of ex_fm 0 ex_os]])
    (simp_all add: ex_pinned_eval ex_fm_eval)

text \<open>A limit of two: the first file is in use, the second is evicted when a third is opened.\<close>

definition ex_two :: FileManager where
  "ex_two = snd (the (openFileObj ex_os ''b'' [O_CREAT, O_RDWR]
     (snd (the (openFileObj ex_os ''a'' [O_CREAT, O_RDWR] (fst (FileManager_init (Some []) 2 (\<lambda>_. None))))))))"

definition ex_two_pinned :: FileManager where
  "ex_two_pinned = snd (the (checkActive ex_os 0 ex_two))"

definition ex_three :: FileManager where
  "ex_three = snd (the (openFileObj ex_os ''c'' [O_CREAT, O_RDWR] ex_two_pinned))"

lemmas ex_open_defs = openFileObj_def sys_openFile_def open_possible_def open_effect_def openFile_def
  FileManager_init_def register_new_def addFd_def checkLimit_def new_File_def Let_def retry_limits ret_def andThen_def
  ex_os_def

lemma ex_two_eval:
  "lru ex_two = [Suc 0, 0]" "closedl ex_two = []" "maxLru ex_two = 2" "nobjs ex_two = 2" "disk ex_two ''c'' = None"
  "objs ex_two 0 = \<lparr>fd = 7, fpath = ''a'', fflags = [O_RDWR], fremove = False, fclosed = False, pin = 0, listPos = InLru\<rparr>"
  "objs ex_two (Suc 0) = \<lparr>fd = 7, fpath = ''b'', fflags = [O_RDWR], fremove = False, fclosed = False, pin = 0, listPos = InLru\<rparr>"
  by (simp_all add: ex_two_def ex_open_defs)

lemma ex_two_reach: "fm_reach ex_two"
proof (rule reach_step [OF reach_step [OF reach_init step_open] step_open])
  show "openFileObj ex_os ''a'' [O_CREAT, O_RDWR] (fst (FileManager_init (Some []) 2 (\<lambda>_. None))) =
      Some (ret (Some 0) (snd (the (openFileObj ex_os ''a'' [O_CREAT, O_RDWR] (fst (FileManager_init (Some []) 2 (\<lambda>_. None)))))))"
    by (simp add: ex_open_defs)
  show "openFileObj ex_os ''b'' [O_CREAT, O_RDWR]
     (snd (the (openFileObj ex_os ''a'' [O_CREAT, O_RDWR] (fst (FileManager_init (Some []) 2 (\<lambda>_. None)))))) =
      Some (ret (Some 1) ex_two)"
    by (simp add: ex_two_def ex_open_defs)
qed

lemma ex_two_pinned_eval:
  "checkActive ex_os 0 ex_two = Some (ret () ex_two_pinned)" "lru ex_two_pinned = [0, Suc 0]" "closedl ex_two_pinned = []"
  "maxLru ex_two_pinned = 2" "nobjs ex_two_pinned = 2" "disk ex_two_pinned ''c'' = None"
  "objs ex_two_pinned 0 = \<lparr>fd = 7, fpath = ''a'', fflags = [O_RDWR], fremove = False, fclosed = False, pin = 1, listPos = InLru\<rparr>"
  "objs ex_two_pinned (Suc 0) = \<lparr>fd = 7, fpath = ''b'', fflags = [O_RDWR], fremove = False, fclosed = False, pin = 0, listPos = InLru\<rparr>"
  by (simp_all add: ex_two_pinned_def checkActive_def lru_erase_def ex_two_eval ret_def andThen_def)

lemma ex_three_eval:
  "openFileObj ex_os ''c'' [O_CREAT, O_RDWR] ex_two_pinned = Some (ret (Some 2) ex_three)"
  "fd (objs ex_three (Suc 0)) = - 1"
  by (simp_all add: ex_three_def ex_two_pinned_eval closeFd_def ex_open_defs)

theorem pinned_descriptor_kept_witness:
  "fm_step ex_two_pinned Open ex_three \<and> fd (objs ex_three 1) = - 1 \<and> fd (objs ex_three 0) = 7"
proof -
  have "fm_reach ex_two_pinned"
    by (rule reach_step [OF ex_two_reach step_enter [of ex_two 0 ex_os]])
      (simp_all add: ex_two_pinned_eval ex_two_eval)
  then show ?thesis
    using pinned_descriptor_kept [OF _ step_open [OF ex_three_eval(1)], of 0] step_open [OF ex_three_eval(1)]
    by (simp add: ex_two_pinned_eval ex_three_eval)
qed

text \<open>C18. \<^verbatim>\<open>File::writeAll\<close> returns only after all of the data is in the file at the offset
  (a gap before it is filled with zeros, nothing else changes on the disk); otherwise it
  throws, with a proper prefix of the data written or the disk untouched. The pin is
  given back in either case. The file is one for which no reopening and no \<^verbatim>\<open>close\<close>
  has failed.\<close>

theorem writeAll_correct:
  assumes "fm_reach s" "\<not> fclosed (objs s i)" "intact (objs s i)" "disk s (fpath (objs s i)) = Some f"
    and "writeAll a i data offs s = Some r"
  shows "write_spec i f offs data s r"
  using writeAll_spec [OF fm_reach_ok] assms by blast

lemmas ex_run = with_monitor_def checkActive_def lru_erase_def ret_def throw_def andThen_def
  finish_write_def put_bytes_def count_read_def retry_limits pwrite_def pread_def

theorem writeAll_correct_witness:
  "\<exists>s'. writeAll ex_os 0 [1, 2, 3] 2 ex_fm = Some (ret () s') \<and> disk s' = [''a'' \<mapsto> [0, 0, 1, 2, 3]]"
proof -
  obtain r where r: "writeAll ex_os 0 [1, 2, 3] 2 ex_fm = Some r" and "\<exists>s'. r = ret () s'"
    by (simp add: writeAll_def ex_run ex_fm_eval ex_os_def writeAll_loop.simps)
  moreover have "write_spec 0 [] 2 [1, 2, 3] ex_fm r"
    by (rule writeAll_correct [OF ex_fm_reach _ _ _ r]) (simp_all add: ex_fm_eval intact_def)
  ultimately show ?thesis by (auto simp: write_spec_def ex_fm_eval pwrite_def numeral_eq_Suc)
qed

text \<open>\<^verbatim>\<open>File::writeAllv\<close> writes the concatenation of the vectors, under the same contract,
  wherever the system cuts the transfer.\<close>

theorem writeAllv_correct:
  assumes "fm_reach s" "\<not> fclosed (objs s i)" "intact (objs s i)" "disk s (fpath (objs s i)) = Some f"
    and "writeAllv a i iovs offs s = Some r"
  shows "write_spec i f offs (concat iovs) s r"
  using writeAllv_spec [OF fm_reach_ok] assms by blast

theorem writeAllv_correct_witness:
  "\<exists>s'. writeAllv ex_os 0 [[1], [], [2, 3]] 0 ex_fm = Some (ret () s') \<and> disk s' = [''a'' \<mapsto> [1, 2, 3]]"
proof -
  obtain r where r: "writeAllv ex_os 0 [[1], [], [2, 3]] 0 ex_fm = Some r" and "\<exists>s'. r = ret () s'"
    by (simp add: writeAllv_def ex_run ex_fm_eval ex_os_def writeAllv_loop.simps)
  moreover have "write_spec 0 [] 0 (concat [[1], [], [2, 3]]) ex_fm r"
    by (rule writeAllv_correct [OF ex_fm_reach _ _ _ r]) (simp_all add: ex_fm_eval intact_def)
  ultimately show ?thesis by (auto simp: write_spec_def ex_fm_eval pwrite_def)
qed

text \<open>C19. \<^verbatim>\<open>File::readAllv\<close> fills the buffers, which do not overlap, with the bytes of the file
  at the offset, in order, and touches no other memory; otherwise it throws. It changes
  nothing on the disk. The file is one for which
  no reopening and no \<^verbatim>\<open>close\<close> has failed.\<close>

theorem readAllv_correct:
  assumes "fm_reach s" "\<not> fclosed (objs s i)" "intact (objs s i)" "disk s (fpath (objs s i)) = Some f"
    and "distinct (concat iovs)" "readAllv a i iovs offs mem s = Some r"
  shows "monitor_left i s (snd r) \<and> disk (snd r) = disk s \<and>
    ((\<exists>mem'. fst r = Inr mem' \<and> map mem' (concat iovs) = pread f offs (length (concat iovs)) \<and>
             (\<forall>x. x \<notin> set (concat iovs) \<longrightarrow> mem' x = mem x)) \<or>
     fst r = Inl LE_PREAD_ERROR \<or> r = throw LE_TOO_MANY_OPEN_FILES s)"
  using readAllv_spec [OF fm_reach_ok] assms by blast

definition ex_data :: FileManager where
  "ex_data = ex_fm\<lparr>disk := [''a'' \<mapsto> [4, 5, 6]], stats := stats ex_fm\<rparr>"

lemma ex_data_eval: "objs ex_data = objs ex_fm" "lru ex_data = [0]" "disk ex_data = [''a'' \<mapsto> [4, 5, 6]]"
  by (simp_all add: ex_data_def ex_fm_eval)

lemma ex_data_reach: "fm_reach ex_data"
  unfolding ex_data_def by (rule reach_step [OF ex_fm_reach step_transfer])

theorem readAllv_correct_witness:
  "\<exists>r mem'. readAllv ex_os 0 [[10], [20, 21]] 0 (\<lambda>_. 0) ex_data = Some r \<and>
     fst r = Inr mem' \<and> map mem' [10, 20, 21] = [4, 5, 6]"
proof -
  obtain r where r: "readAllv ex_os 0 [[10], [20, 21]] 0 (\<lambda>_. 0) ex_data = Some r"
    and "\<exists>m. fst r = Inr m"
    by (simp add: readAllv_def ex_run ex_fm_eval ex_data_eval ex_os_def readAllv_loop.simps)
  then show ?thesis
    using readAllv_correct [OF ex_data_reach _ _ _ _ r, of "[4, 5, 6]"]
    by (auto simp: ex_data_eval ex_fm_eval intact_def pread_def throw_def)
qed

text \<open>C20. What was written is read back: on an open file for which no reopening and no \<^verbatim>\<open>close\<close>
  has failed, if the system transfers what it is asked for, \<^verbatim>\<open>writeAll\<close> returns and a \<^verbatim>\<open>readAll\<close> at the same place then returns the
  data.\<close>

theorem write_then_read:
  assumes "fm_reach s" "\<not> fclosed (objs s i)" "intact (objs s i)" "0 \<le> fd (objs s i)" "disk s (fpath (objs s i)) = Some f"
    and "data \<noteq> []" "io_rs a = Done n # rs" "length data \<le> n"
  shows "\<exists>s' s''. writeAll a i data offs s = Some (ret () s') \<and>
                  readAll a i (length data) offs s' = Some (ret data s'')"
proof -
  have len: "min n (length data) = length data" using assms(8) by simp
  have "writeAll_loop (io_rs a) data offs 0 0 f = Some (ret 0 (pwrite f offs data))"
    using assms(6) len by (simp add: assms(7) writeAll_loop.simps)
  then obtain s' where s': "writeAll a i data offs s = Some (ret () s')" "fm_ok s'" "\<not> fclosed (objs s' i)"
    "intact (objs s' i)" "0 \<le> fd (objs s' i)" "disk s' (fpath (objs s' i)) = Some (pwrite f offs data)"
    using writeAll_open [OF fm_reach_ok [OF assms(1)] assms(2-5)] by blast
  obtain s1 where s1: "with_monitor a i body s' =
      map_option (\<lambda>(r, s2). (r, unpin i s2)) (body (io_rs a) (pwrite f offs data) s1)"
    for body :: "sysret list \<Rightarrow> byte list \<Rightarrow> FileManager \<Rightarrow> (byte list, FileManager) outcome option"
    by (rule with_monitor_open [OF s'(2-6), of a]) iprover
  have "readAll_loop (io_rs a) (pwrite f offs data) (length data) offs 0 0 [] = Some (Inr (data, 0))"
    using assms(6) len pread_pwrite [OF assms(6)]
    by (simp add: assms(7) readAll_loop.simps)
  then have "\<exists>s''. readAll a i (length data) offs s' = Some (ret data s'')"
    by (simp add: readAll_def s1 ret_def)
  then show ?thesis using s'(1) by blast
qed

definition ex_full :: os_answers where
  "ex_full = \<lparr>close_rs = [], open_rs = [], io_rs = [Done 8]\<rparr>"

theorem write_then_read_witness:
  "\<exists>s' s''. writeAll ex_full 0 [9, 8] 1 ex_fm = Some (ret () s') \<and>
            readAll ex_full 0 2 1 s' = Some (ret [9, 8] s'')"
  using write_then_read [OF ex_fm_reach, of 0 "[]" "[9, 8]" ex_full 8 "[]" 1]
  by (simp add: ex_fm_eval intact_def ex_full_def numeral_2_eq_2)

text \<open>C34. A write that is never interrupted ends: it makes at most \<open>MAX_WRITE_RETRIES\<close> calls
  per byte, on an open file for which
  no reopening and no \<^verbatim>\<open>close\<close> has failed.\<close>

theorem writeAll_returns:
  assumes "fm_reach s" "\<not> fclosed (objs s i)" "intact (objs s i)" "0 \<le> fd (objs s i)" "disk s (fpath (objs s i)) = Some f"
    and "EINTR \<notin> set (io_rs a)" "MAX_WRITE_RETRIES * length data \<le> length (io_rs a)"
  shows "\<exists>r. writeAll a i data offs s = Some r"
proof -
  have "\<exists>r. writeAll_loop (io_rs a) data offs 0 0 f = Some r"
    using assms(6,7) by (intro writeAll_loop_total) (simp_all add: retry_limits)
  moreover obtain s1 where "with_monitor a i body s =
      map_option (\<lambda>(r, s2). (r, unpin i s2)) (body (io_rs a) f s1)"
    for body :: "sysret list \<Rightarrow> byte list \<Rightarrow> FileManager \<Rightarrow> (unit, FileManager) outcome option"
    by (rule with_monitor_open [OF fm_reach_ok [OF assms(1)] assms(2-5), of a]) iprover
  ultimately show ?thesis by (auto simp: writeAll_def)
qed

theorem writeAll_returns_witness:
  "\<exists>r. writeAll (ex_full\<lparr>io_rs := replicate 10 EAGAIN\<rparr>) 0 [9] 1 ex_fm = Some r"
  using writeAll_returns [OF ex_fm_reach, of 0 "[]" "ex_full\<lparr>io_rs := replicate 10 EAGAIN\<rparr>" "[9]" 1]
  by (simp add: ex_fm_eval intact_def ex_full_def retry_limits)

text \<open>C35. Interruptions alternating with transfers the system asks to repeat keep a write
  running for as long as they go on: each resets the retry counter of the other.
  The file is open, and for it no reopening and no \<^verbatim>\<open>close\<close> has failed.\<close>

theorem writeAll_livelock:
  assumes "fm_reach s" "\<not> fclosed (objs s i)" "intact (objs s i)" "0 \<le> fd (objs s i)" "disk s (fpath (objs s i)) = Some f"
    and "data \<noteq> []" "io_rs a = concat (replicate k [EINTR, EAGAIN])"
  shows "writeAll a i data offs s = None"
proof -
  obtain s1 where "with_monitor a i body s =
      map_option (\<lambda>(r, s2). (r, unpin i s2)) (body (io_rs a) f s1)"
    for body :: "sysret list \<Rightarrow> byte list \<Rightarrow> FileManager \<Rightarrow> (unit, FileManager) outcome option"
    by (rule with_monitor_open [OF fm_reach_ok [OF assms(1)] assms(2-5), of a]) iprover
  then show ?thesis
    using writeAll_loop_livelock [OF assms(6), of k offs 0 f] by (simp add: writeAll_def assms(7))
qed

theorem writeAll_livelock_witness:
  "writeAll (ex_full\<lparr>io_rs := concat (replicate 5 [EINTR, EAGAIN])\<rparr>) 0 [9] 1 ex_fm = None"
  using writeAll_livelock [OF ex_fm_reach, of 0 "[]" "[9]"
      "ex_full\<lparr>io_rs := concat (replicate 5 [EINTR, EAGAIN])\<rparr>" 5 1]
  by (simp add: ex_fm_eval intact_def ex_full_def)

text \<open>C36. Opening one file more than the limit allows while the last file of the list is in
  use does not report \<open>LE_TOO_MANY_OPEN_FILES\<close>: the unwinding of the new object erases
  through a list iterator that was never set.\<close>

theorem openFileObj_at_limit:
  assumes "fm_reach s" "length (lru s) = maxLru s" "0 < pin (objs s (last (lru s)))"
    and "sys_openFile a p fl s = Some (n, s0)" "0 \<le> n" "openFileObj a p fl s = Some r"
  shows "fst r = Inl Undefined_Behaviour"
proof -
  obtain d where d: "s0 = s\<lparr>disk := d\<rparr>" using sys_openFile_lists [OF assms(4)] by blast
  have ok: "fm_ok s0" using fm_reach_ok [OF assms(1)] d by simp
  define fl' where "fl' = filter (\<lambda>x. x \<notin> {O_CREAT, O_EXCL, O_TRUNC}) fl"
  have fl': "set fl' \<inter> {O_CREAT, O_EXCL, O_TRUNC} = {}" by (auto simp: fl'_def)
  obtain r' where r': "register_new a n p fl' False s0 = Some r'"
    and r: "r = andThen r' (\<lambda>i s'. ret (Some i) s')"
    using assms(4,5,6) by (auto simp: openFileObj_def fl'_def)
  have "checkLimit a s0 = Some (throw LE_TOO_MANY_OPEN_FILES s0)"
    using ok assms(2,3) by (auto simp: checkLimit_def d fm_ok_def)
  then have "fst r' = Inl Undefined_Behaviour" using register_new_full [OF ok assms(5) _ r'] by simp
  then show ?thesis using r by (cases r') (simp add: andThen_def)
qed

theorem openFileObj_at_limit_witness:
  "fst (the (openFileObj ex_os ''b'' [O_CREAT, O_RDWR] ex_pinned)) = Inl Undefined_Behaviour"
proof -
  have disk: "disk ex_pinned = [''a'' \<mapsto> []]" "nobjs ex_pinned = 1"
    by (simp_all add: ex_pinned_def checkActive_def lru_erase_def ex_fm_eval ret_def andThen_def)
  have "sys_openFile ex_os ''b'' [O_CREAT, O_RDWR] ex_pinned =
      Some (7, ex_pinned\<lparr>disk := [''a'' \<mapsto> [], ''b'' \<mapsto> []]\<rparr>)"
    by (simp add: sys_openFile_def open_possible_def open_effect_def disk openFile_def ex_os_def retry_limits)
  moreover from this have "\<exists>r. openFileObj ex_os ''b'' [O_CREAT, O_RDWR] ex_pinned = Some r"
    by (simp add: openFileObj_def register_new_def Let_def addFd_def checkLimit_def new_File_def
        ex_pinned_eval disk throw_def andThen_def File_destroy_def File_close_def forgetFd_def lru_erase_def)
  ultimately show ?thesis
    using openFileObj_at_limit [OF ex_pinned_reach, of ex_os "''b''" "[O_CREAT, O_RDWR]" 7]
    by (auto simp: ex_pinned_eval)
qed

text \<open>C37. The first \<^verbatim>\<open>close\<close> of an open file that the system fails is not repeatable: the object has left its list but is
  not marked closed, so that the destructor erases it again, through an iterator that is
  no longer valid.\<close>

theorem close_failure_not_repeatable:
  assumes "fm_reach s" "\<not> fclosed (objs s i)" "intact (objs s i)" "0 \<le> fd (objs s i)" "closeFd (close_rs a) = Some (- 1)"
  shows "\<exists>s'. File_close a u i s = Some (ret (- 1) s') \<and>
              (\<forall>a' u'. map_option fst (File_destroy a' u' i s') = Some (Inl Undefined_Behaviour))"
proof -
  have ok: "fm_ok s" by (rule fm_reach_ok [OF assms(1)])
  have "listPos (objs s i) = InLru" using fm_ok_fd(1) [OF ok assms(2,3)] assms(4) by simp
  then show ?thesis
    using assms(2,4,5)
    by (simp add: File_close_def forgetFd_def lru_erase_def ret_def Let_def File_destroy_def throw_def
        andThen_def)
qed

theorem close_failure_not_repeatable_witness:
  "\<exists>s'. File_close (ex_full\<lparr>close_rs := [EOther]\<rparr>) True 0 ex_fm = Some (ret (- 1) s') \<and>
        map_option fst (File_destroy ex_full True 0 s') = Some (Inl Undefined_Behaviour)"
  using close_failure_not_repeatable [OF ex_fm_reach, of 0 "ex_full\<lparr>close_rs := [EOther]\<rparr>" True]
  by (auto simp: ex_fm_eval intact_def ex_full_def closeFd_def)

text \<open>\<^verbatim>\<open>File::read\<close> does not return the number of bytes read: when the file ends before the
  request, it has stored the bytes up to the end and returns 0.\<close>

lemma read_short_returns_0:
  assumes "fm_reach s" "\<not> fclosed (objs s i)" "intact (objs s i)" "0 \<le> fd (objs s i)" "disk s (fpath (objs s i)) = Some f"
    and "offs < length f" "length f < offs + sz" "io_rs a = Done n # Done m # rs" "sz \<le> n"
  shows "\<exists>s'. File_read a i sz offs s = Some (ret (0, drop offs f) s')"
proof -
  obtain s1 where s1: "with_monitor a i body s =
      map_option (\<lambda>(r, s2). (r, unpin i s2)) (body (io_rs a) f s1)"
    for body :: "sysret list \<Rightarrow> byte list \<Rightarrow> FileManager \<Rightarrow> (int \<times> byte list, FileManager) outcome option"
    by (rule with_monitor_open [OF fm_reach_ok [OF assms(1)] assms(2-5), of a]) iprover
  have "min n sz = sz" "pread f offs sz = drop offs f" "pread f (length f) k = []" for k
    using assms(6,7,9) by (simp_all add: pread_def)
  then have "read_loop (io_rs a) f sz offs 0 0 [] 0 = Some (0, drop offs f)"
    using assms(6,7) by (simp add: assms(8) read_loop.simps)
  then show ?thesis by (simp add: File_read_def s1 ret_def)
qed

lemma read_short_example:
  "\<exists>s'. File_read (ex_full\<lparr>io_rs := [Done 5, Done 5]\<rparr>) 0 5 0 ex_data = Some (ret (0, [4, 5, 6]) s')"
  using read_short_returns_0 [OF ex_data_reach, of 0 "[4, 5, 6]" 0 5 "ex_full\<lparr>io_rs := [Done 5, Done 5]\<rparr>" 5 5 "[]"]
  by (simp add: ex_data_eval ex_fm_eval intact_def ex_full_def)

end
