(* ===== verification/Bytes.thy ===== *)
theory Bytes
  imports Prelude
begin

text \<open>
  Integers as they lie in memory and in files. The machine is little-endian with 8-byte
  \<^verbatim>\<open>size_t\<close>, \<^verbatim>\<open>off_t\<close> and \<^verbatim>\<open>position_t\<close>, the platform SciDB supports.
\<close>

section \<open>Unsigned integers\<close>

primrec le_bytes :: "nat \<Rightarrow> nat \<Rightarrow> byte list" where
  "le_bytes 0 n = []"
| "le_bytes (Suc k) n = word_of_nat (n mod 256) # le_bytes k (n div 256)"

primrec le_val :: "byte list \<Rightarrow> nat" where
  "le_val [] = 0"
| "le_val (b # bs) = unat b + 256 * le_val bs"

lemma length_le_bytes [simp]: "length (le_bytes k n) = k"
  by (induction k arbitrary: n) simp_all

lemma le_val_le_bytes: "le_val (le_bytes k n) = n mod 256 ^ k"
proof (induction k arbitrary: n)
  case (Suc k)
  have "unat (word_of_nat (n mod 256) :: byte) = n mod 256"
    by (simp add: unat_of_nat take_bit_eq_mod)
  then show ?case
    using Suc by (simp add: mod_mult2_eq)
qed simp

lemma le_val_less: "le_val bs < 256 ^ length bs"
proof (induction bs)
  case (Cons b bs)
  have "unat b < 256" using unsigned_less [of b] by simp
  then show ?case using Cons by simp
qed simp

lemma le_bytes_le_val [simp]: "le_bytes (length bs) (le_val bs) = bs"
proof (induction bs)
  case (Cons b bs)
  have "unat b < 256" using unsigned_less [of b] by simp
  then show ?case using Cons by (simp add: div_mult_self4)
qed simp

definition le64 :: "nat \<Rightarrow> byte list" where
  "le64 n = le_bytes 8 n"

definition le32 :: "nat \<Rightarrow> byte list" where
  "le32 n = le_bytes 4 n"

lemma length_le64 [simp]: "length (le64 n) = 8" and length_le32 [simp]: "length (le32 n) = 4"
  by (simp_all add: le64_def le32_def)

lemma le_val_le64 [simp]: "n < 2 ^ 64 \<Longrightarrow> le_val (le64 n) = n"
  by (simp add: le64_def le_val_le_bytes)

lemma le_val_le32 [simp]: "n < 2 ^ 32 \<Longrightarrow> le_val (le32 n) = n"
  by (simp add: le32_def le_val_le_bytes)

lemma length_concat_le64 [simp]: "length (concat (map le64 xs)) = 8 * length xs"
  by (induction xs) simp_all

lemma drop_concat_le64: "drop (8 * i) (concat (map le64 xs)) = concat (map le64 (drop i xs))"
proof (induction xs arbitrary: i)
  case (Cons x xs)
  then show ?case by (cases i) simp_all
qed simp

section \<open>Signed integers\<close>

definition le64s :: "int \<Rightarrow> byte list" where
  "le64s x = le64 (nat (x mod 2 ^ 64))"

definition val64s :: "byte list \<Rightarrow> int" where
  "val64s bs = (let n = int (le_val bs) in if n < 2 ^ 63 then n else n - 2 ^ 64)"

lemma val64s_le64s: "- (2 ^ 63) \<le> x \<Longrightarrow> x < 2 ^ 63 \<Longrightarrow> val64s (le64s x) = x"
proof -
  assume x: "- (2 ^ 63) \<le> x" "x < 2 ^ 63"
  have m: "0 \<le> x mod 2 ^ 64" "x mod 2 ^ 64 < 2 ^ 64" by simp_all
  then have "nat (x mod 2 ^ 64) < 2 ^ 64" by (metis nat_less_numeral_power_cancel_iff)
  then have v: "int (le_val (le64 (nat (x mod 2 ^ 64)))) = x mod 2 ^ 64" using m(1) by simp
  show ?thesis
  proof (cases "0 \<le> x")
    case True
    then have "x mod 2 ^ 64 = x" using x by simp
    then show ?thesis using v x by (simp add: val64s_def le64s_def Let_def)
  next
    case False
    then have "(x + 2 ^ 64) mod 2 ^ 64 = x + 2 ^ 64" using x by (intro mod_pos_pos_trivial) simp_all
    then have "x mod 2 ^ 64 = x + 2 ^ 64" by simp
    then show ?thesis using v x by (simp add: val64s_def le64s_def Let_def)
  qed
qed

lemma length_le64s [simp]: "length (le64s x) = 8"
  by (simp add: le64s_def)

end
