(* ===== verification/Crc32.thy ===== *)
theory Crc32
  imports Prelude
begin

text \<open>
  \<^verbatim>\<open>calculateCRC32\<close> of \<^verbatim>\<open>include/util/DataStore.h\<close>, the checksum of a serialised bucket
  of the free list: the table as the source has it, that it is the table of the reflected
  polynomial \<open>0xEDB88320\<close>, and which corruptions the checksum detects.
\<close>

unbundle bit_operations_syntax

definition crc_table :: "32 word list" where
  "crc_table = [
     0x00000000, 0x77073096, 0xEE0E612C, 0x990951BA,
     0x076DC419, 0x706AF48F, 0xE963A535, 0x9E6495A3,
     0x0EDB8832, 0x79DCB8A4, 0xE0D5E91E, 0x97D2D988,
     0x09B64C2B, 0x7EB17CBD, 0xE7B82D07, 0x90BF1D91,
     0x1DB71064, 0x6AB020F2, 0xF3B97148, 0x84BE41DE,
     0x1ADAD47D, 0x6DDDE4EB, 0xF4D4B551, 0x83D385C7,
     0x136C9856, 0x646BA8C0, 0xFD62F97A, 0x8A65C9EC,
     0x14015C4F, 0x63066CD9, 0xFA0F3D63, 0x8D080DF5,
     0x3B6E20C8, 0x4C69105E, 0xD56041E4, 0xA2677172,
     0x3C03E4D1, 0x4B04D447, 0xD20D85FD, 0xA50AB56B,
     0x35B5A8FA, 0x42B2986C, 0xDBBBC9D6, 0xACBCF940,
     0x32D86CE3, 0x45DF5C75, 0xDCD60DCF, 0xABD13D59,
     0x26D930AC, 0x51DE003A, 0xC8D75180, 0xBFD06116,
     0x21B4F4B5, 0x56B3C423, 0xCFBA9599, 0xB8BDA50F,
     0x2802B89E, 0x5F058808, 0xC60CD9B2, 0xB10BE924,
     0x2F6F7C87, 0x58684C11, 0xC1611DAB, 0xB6662D3D,
     0x76DC4190, 0x01DB7106, 0x98D220BC, 0xEFD5102A,
     0x71B18589, 0x06B6B51F, 0x9FBFE4A5, 0xE8B8D433,
     0x7807C9A2, 0x0F00F934, 0x9609A88E, 0xE10E9818,
     0x7F6A0DBB, 0x086D3D2D, 0x91646C97, 0xE6635C01,
     0x6B6B51F4, 0x1C6C6162, 0x856530D8, 0xF262004E,
     0x6C0695ED, 0x1B01A57B, 0x8208F4C1, 0xF50FC457,
     0x65B0D9C6, 0x12B7E950, 0x8BBEB8EA, 0xFCB9887C,
     0x62DD1DDF, 0x15DA2D49, 0x8CD37CF3, 0xFBD44C65,
     0x4DB26158, 0x3AB551CE, 0xA3BC0074, 0xD4BB30E2,
     0x4ADFA541, 0x3DD895D7, 0xA4D1C46D, 0xD3D6F4FB,
     0x4369E96A, 0x346ED9FC, 0xAD678846, 0xDA60B8D0,
     0x44042D73, 0x33031DE5, 0xAA0A4C5F, 0xDD0D7CC9,
     0x5005713C, 0x270241AA, 0xBE0B1010, 0xC90C2086,
     0x5768B525, 0x206F85B3, 0xB966D409, 0xCE61E49F,
     0x5EDEF90E, 0x29D9C998, 0xB0D09822, 0xC7D7A8B4,
     0x59B33D17, 0x2EB40D81, 0xB7BD5C3B, 0xC0BA6CAD,
     0xEDB88320, 0x9ABFB3B6, 0x03B6E20C, 0x74B1D29A,
     0xEAD54739, 0x9DD277AF, 0x04DB2615, 0x73DC1683,
     0xE3630B12, 0x94643B84, 0x0D6D6A3E, 0x7A6A5AA8,
     0xE40ECF0B, 0x9309FF9D, 0x0A00AE27, 0x7D079EB1,
     0xF00F9344, 0x8708A3D2, 0x1E01F268, 0x6906C2FE,
     0xF762575D, 0x806567CB, 0x196C3671, 0x6E6B06E7,
     0xFED41B76, 0x89D32BE0, 0x10DA7A5A, 0x67DD4ACC,
     0xF9B9DF6F, 0x8EBEEFF9, 0x17B7BE43, 0x60B08ED5,
     0xD6D6A3E8, 0xA1D1937E, 0x38D8C2C4, 0x4FDFF252,
     0xD1BB67F1, 0xA6BC5767, 0x3FB506DD, 0x48B2364B,
     0xD80D2BDA, 0xAF0A1B4C, 0x36034AF6, 0x41047A60,
     0xDF60EFC3, 0xA867DF55, 0x316E8EEF, 0x4669BE79,
     0xCB61B38C, 0xBC66831A, 0x256FD2A0, 0x5268E236,
     0xCC0C7795, 0xBB0B4703, 0x220216B9, 0x5505262F,
     0xC5BA3BBE, 0xB2BD0B28, 0x2BB45A92, 0x5CB36A04,
     0xC2D7FFA7, 0xB5D0CF31, 0x2CD99E8B, 0x5BDEAE1D,
     0x9B64C2B0, 0xEC63F226, 0x756AA39C, 0x026D930A,
     0x9C0906A9, 0xEB0E363F, 0x72076785, 0x05005713,
     0x95BF4A82, 0xE2B87A14, 0x7BB12BAE, 0x0CB61B38,
     0x92D28E9B, 0xE5D5BE0D, 0x7CDCEFB7, 0x0BDBDF21,
     0x86D3D2D4, 0xF1D4E242, 0x68DDB3F8, 0x1FDA836E,
     0x81BE16CD, 0xF6B9265B, 0x6FB077E1, 0x18B74777,
     0x88085AE6, 0xFF0F6A70, 0x66063BCA, 0x11010B5C,
     0x8F659EFF, 0xF862AE69, 0x616BFFD3, 0x166CCF45,
     0xA00AE278, 0xD70DD2EE, 0x4E048354, 0x3903B3C2,
     0xA7672661, 0xD06016F7, 0x4969474D, 0x3E6E77DB,
     0xAED16A4A, 0xD9D65ADC, 0x40DF0B66, 0x37D83BF0,
     0xA9BCAE53, 0xDEBB9EC5, 0x47B2CF7F, 0x30B5FFE9,
     0xBDBDF21C, 0xCABAC28A, 0x53B39330, 0x24B4A3A6,
     0xBAD03605, 0xCDD70693, 0x54DE5729, 0x23D967BF,
     0xB3667A2E, 0xC4614AB8, 0x5D681B02, 0x2A6F2B94,
     0xB40BBE37, 0xC30C8EA1, 0x5A05DF1B, 0x2D02EF8D]"

definition crc_index :: "32 word \<Rightarrow> byte \<Rightarrow> nat" where
  "crc_index crc b = unat ((crc AND 0xFF) XOR ucast b)"

definition crc_step :: "32 word \<Rightarrow> byte \<Rightarrow> 32 word" where
  "crc_step crc b = drop_bit 8 crc XOR crc_table ! crc_index crc b"

primrec crc_loop :: "byte list \<Rightarrow> 32 word \<Rightarrow> 32 word" where
  "crc_loop [] crc = crc"
| "crc_loop (b # bs) crc = crc_loop bs (crc_step crc b)"

definition calculateCRC32 :: "byte list \<Rightarrow> 32 word" where
  "calculateCRC32 content = crc_loop content 0xFFFFFFFF"

section \<open>The table\<close>

text \<open>The entry for a byte: eight shifts of the register, each with the feedback of the polynomial.\<close>

primrec crc_shift :: "nat \<Rightarrow> 32 word \<Rightarrow> 32 word" where
  "crc_shift 0 r = r"
| "crc_shift (Suc n) r = crc_shift n (if r AND 1 = 1 then drop_bit 1 r XOR 0xEDB88320 else drop_bit 1 r)"

lemma length_crc_table [simp]: "length crc_table = 256"
  by (simp add: crc_table_def)



text \<open>
  The entries by counting: evaluating \<open>crc_entries 256 0\<close> gives the literal table.
\<close>

primrec crc_entries :: "nat \<Rightarrow> 32 word \<Rightarrow> 32 word list" where
  "crc_entries 0 w = []"
| "crc_entries (Suc n) w = crc_shift 8 w # crc_entries n (w + 1)"

lemma crc_shift_numeral:
  "crc_shift (numeral n) r =
   crc_shift (pred_numeral n) (if r AND 1 = 1 then drop_bit 1 r XOR 0xEDB88320 else drop_bit 1 r)"
  by (simp add: numeral_eq_Suc)

lemma crc_entries_numeral:
  "crc_entries (numeral n) w = crc_shift 8 w # crc_entries (pred_numeral n) (w + 1)"
  by (simp add: numeral_eq_Suc)

lemma crc_table_entries: "crc_table = crc_entries 256 0"
  by (simp add: crc_table_def crc_entries_numeral crc_shift_numeral)

lemma nth_crc_entries: "i < n \<Longrightarrow> crc_entries n w ! i = crc_shift 8 (w + word_of_nat i)"
  by (induction n arbitrary: w i) (auto simp: nth_Cons' algebra_simps of_nat_diff)

lemma nth_crc_table: "i < 256 \<Longrightarrow> crc_table ! i = crc_shift 8 (word_of_nat i)"
  by (simp add: crc_table_entries nth_crc_entries)

text \<open>The top byte of an entry determines its index; \<open>crc_untop\<close> computes it.\<close>

definition crc_untop :: "32 word \<Rightarrow> 32 word" where
  "crc_untop y =
     (if y AND 1 = 0 then 0 else 65) XOR
     (if y AND 2 = 0 then 0 else 195) XOR
     (if y AND 4 = 0 then 0 else 134) XOR
     (if y AND 8 = 0 then 0 else 77) XOR
     (if y AND 16 = 0 then 0 else 154) XOR
     (if y AND 32 = 0 then 0 else 117) XOR
     (if y AND 64 = 0 then 0 else 234) XOR
     (if y AND 128 = 0 then 0 else 149)"

primrec count_from :: "nat \<Rightarrow> 32 word \<Rightarrow> 32 word list" where
  "count_from 0 w = []"
| "count_from (Suc n) w = w # count_from n (w + 1)"

lemma count_from_numeral: "count_from (numeral n) w = w # count_from (pred_numeral n) (w + 1)"
  by (simp add: numeral_eq_Suc)

lemma nth_count_from: "i < n \<Longrightarrow> count_from n w ! i = w + word_of_nat i"
  by (induction n arbitrary: w i) (auto simp: nth_Cons' algebra_simps of_nat_diff)

lemma crc_untop_table: "map (\<lambda>x. crc_untop (drop_bit 24 x)) crc_table = count_from 256 0"
  by (simp add: crc_table_def count_from_numeral crc_untop_def)

section \<open>What the checksum detects\<close>

lemma crc_low_byte: "(crc AND 0xFF :: 32 word) = take_bit 8 crc"
  by (simp add: take_bit_eq_mask mask_eq_exp_minus_1)

lemma crc_index_eq: "crc_index crc b = unat (take_bit 8 crc XOR ucast b)"
  by (simp add: crc_index_def crc_low_byte)

lemma crc_index_less [simp]: "crc_index crc b < 256"
proof -
  have "take_bit 8 (ucast b :: 32 word) = ucast b"
    by (rule bit_word_eqI) (auto simp: bit_simps dest: bit_imp_le_length)
  then have "take_bit 8 (take_bit 8 crc XOR ucast b) = take_bit 8 crc XOR ucast b" by (simp add: take_bit_xor)
  moreover have "unat (take_bit 8 w) < 2 ^ 8" for w :: "32 word"
    using take_bit_nat_less_exp [of 8 "unat w"] by (simp only: unsigned_take_bit_eq)
  ultimately have "unat (take_bit 8 crc XOR ucast b) < 2 ^ 8" by metis
  then show ?thesis by (simp add: crc_index_eq)
qed

lemma xor_cancel: "(x :: 32 word) XOR z = y XOR z \<longleftrightarrow> x = y" "z XOR x = z XOR y \<longleftrightarrow> x = y"
proof -
  have "(w XOR z) XOR z = w" for w by (simp add: xor.assoc)
  then show "x XOR z = y XOR z \<longleftrightarrow> x = y" by metis
  then show "z XOR x = z XOR y \<longleftrightarrow> x = y" by (simp only: xor.commute)
qed

lemma ucast_byte_inj: "(ucast b :: 32 word) = ucast b' \<longleftrightarrow> b = b'" for b b' :: byte
proof
  assume "(ucast b :: 32 word) = ucast b'"
  then have "(ucast (ucast b :: 32 word) :: byte) = ucast (ucast b' :: 32 word)" by simp
  then show "b = b'" by (simp add: unsigned_ucast_eq take_bit_word_beyond_length_eq)
qed simp

lemma crc_index_cancel:
  "crc_index c b = crc_index c b' \<longleftrightarrow> b = b'"
  "crc_index c b = crc_index c' b \<longleftrightarrow> take_bit 8 c = take_bit 8 c'"
  by (simp_all add: crc_index_eq xor_cancel word_unat_eq_iff [symmetric] ucast_byte_inj)

lemma crc_top_byte_inj:
  assumes "i < 256" "j < 256" "drop_bit 24 (crc_table ! i) = drop_bit 24 (crc_table ! j)"
  shows "i = j"
proof -
  have "word_of_nat k = crc_untop (drop_bit 24 (crc_table ! k))" if "k < 256" for k
    using arg_cong [OF crc_untop_table, of "\<lambda>xs. xs ! k"] that by (simp add: nth_count_from)
  then have "(word_of_nat i :: 32 word) = word_of_nat j" using assms by metis
  then have "unat (word_of_nat i :: 32 word) = unat (word_of_nat j :: 32 word)" by simp
  then show ?thesis using assms(1,2) by (simp add: unat_of_nat take_bit_nat_eq_self)
qed

text \<open>A step is run backwards: all but the lowest \<open>n\<close> bits of the result give the index.\<close>

lemma crc_step_back:
  assumes "n \<le> 24" "drop_bit n (crc_step c b) = drop_bit n (crc_step c' b')"
  shows "crc_index c b = crc_index c' b' \<and> drop_bit (n + 8) c = drop_bit (n + 8) c'"
proof -
  have "drop_bit 24 (crc_step x y) = drop_bit 24 (crc_table ! crc_index x y)" for x y
    by (simp add: crc_step_def)
  moreover have "drop_bit 24 (crc_step c b) = drop_bit 24 (crc_step c' b')"
    using arg_cong [OF assms(2), of "drop_bit (24 - n)"] assms(1) by simp
  ultimately have idx: "crc_index c b = crc_index c' b'" by (intro crc_top_byte_inj) simp_all
  moreover have "drop_bit (n + 8) c = drop_bit (n + 8) c'"
    using assms(2) idx by (simp add: crc_step_def xor_cancel)
  ultimately show ?thesis by blast
qed

lemma crc_step_inj: "crc_step c b = crc_step c' b \<longleftrightarrow> c = c'"
proof
  assume "crc_step c b = crc_step c' b"
  then have "take_bit 8 c = take_bit 8 c'" "drop_bit 8 c = drop_bit 8 c'"
    using crc_step_back [of 0 c b c' b] by (simp_all add: crc_index_cancel)
  then show "c = c'" by (metis bits_ident)
qed simp

lemma crc_loop_inj: "crc_loop bs c = crc_loop bs c' \<longleftrightarrow> c = c'"
  by (induction bs arbitrary: c c') (simp_all add: crc_step_inj)

lemma crc_loop_append: "crc_loop (as @ bs) c = crc_loop bs (crc_loop as c)"
  by (induction as arbitrary: c) simp_all

primrec crc_indices :: "byte list \<Rightarrow> 32 word \<Rightarrow> nat list" where
  "crc_indices [] c = []"
| "crc_indices (b # bs) c = crc_index c b # crc_indices bs (crc_step c b)"

lemma crc_loop_back:
  "length bs = length bs' \<Longrightarrow> n + 8 * length bs \<le> 32 \<Longrightarrow>
   drop_bit n (crc_loop bs c) = drop_bit n (crc_loop bs' c') \<Longrightarrow>
   crc_indices bs c = crc_indices bs' c' \<and> drop_bit (n + 8 * length bs) c = drop_bit (n + 8 * length bs) c'"
proof (induction bs bs' arbitrary: c c' rule: list_induct2)
  case (Cons b bs b' bs')
  then have IH: "crc_indices bs (crc_step c b) = crc_indices bs' (crc_step c' b')"
    "drop_bit (n + 8 * length bs) (crc_step c b) = drop_bit (n + 8 * length bs) (crc_step c' b')"
    by simp_all
  have "n + 8 * length bs \<le> 24" using Cons.prems(1) by simp
  from crc_step_back [OF this IH(2)] IH(1) show ?case by (simp add: algebra_simps)
qed simp

lemma crc_indices_inj: "length bs = length bs' \<Longrightarrow> crc_indices bs c = crc_indices bs' c \<Longrightarrow> bs = bs'"
  by (induction bs bs' arbitrary: c rule: list_induct2) (auto simp: crc_index_cancel)

lemma crc_burst:
  assumes "length bs = length bs'" "length bs \<le> 4" "crc_loop bs c = crc_loop bs' c"
  shows "bs = bs'"
  using crc_loop_back [OF assms(1), of 0 c c] assms(2,3) crc_indices_inj [OF assms(1)] by simp

lemma calculateCRC32_burst:
  assumes "length ys = length ys'" "length ys \<le> 4" "ys \<noteq> ys'"
  shows "calculateCRC32 (xs @ ys @ zs) \<noteq> calculateCRC32 (xs @ ys' @ zs)"
  using crc_burst [OF assms(1,2)] assms(3)
  by (auto simp: calculateCRC32_def crc_loop_append crc_loop_inj)

section \<open>The table-driven loop and the bitwise definition\<close>

lemma and_1_iff: "r AND 1 = 1 \<longleftrightarrow> bit r 0" for r :: "32 word"
  by (simp add: and_one_eq bit_0 odd_iff_mod_2_eq_one)

lemma crc_shift_xor: "crc_shift n (x XOR y) = crc_shift n x XOR crc_shift n y"
proof (induction n arbitrary: x y)
  case (Suc n)
  define f where "f r = (if r AND 1 = 1 then drop_bit 1 r XOR 0xEDB88320 else drop_bit 1 r)" for r :: "32 word"
  have "f (x XOR y) = f x XOR f y"
    by (cases "bit x 0"; cases "bit y 0")
      (simp_all add: f_def and_1_iff bit_xor_iff xor.assoc xor.left_commute xor.commute)
  then show ?case by (simp add: f_def [symmetric] Suc.IH)
qed simp

lemma crc_shift_clear: "take_bit n x = 0 \<Longrightarrow> crc_shift n x = drop_bit n x"
proof (induction n arbitrary: x)
  case (Suc n)
  then have "\<not> bit x 0" by (metis bit_0_eq bit_take_bit_iff bot_apply bot_bool_def zero_less_Suc)
  moreover have "take_bit n (drop_bit 1 x) = 0"
    using Suc.prems by (simp add: take_bit_drop_bit)
  ultimately show ?case using Suc.IH [of "drop_bit 1 x"] by (simp add: and_1_iff)
qed simp

lemma xor_split_bits: "x = push_bit n (drop_bit n x) XOR take_bit n x" for x :: "32 word"
  by (rule bit_word_eqI) (auto simp: bit_simps)

lemma crc_step_bitwise: "crc_step c b = crc_shift 8 (c XOR ucast b)"
proof -
  define x where "x = c XOR ucast b"
  have low: "take_bit 8 x = take_bit 8 c XOR ucast b"
    unfolding x_def by (rule bit_word_eqI) (auto simp: bit_simps dest: bit_imp_le_length)
  have high: "drop_bit 8 x = drop_bit 8 c"
    unfolding x_def by (rule bit_word_eqI) (auto simp: bit_simps dest: bit_imp_le_length)
  have idx: "crc_index c b = unat (take_bit 8 x)" by (simp add: crc_index_eq low)
  have "crc_shift 8 x = crc_shift 8 (push_bit 8 (drop_bit 8 x)) XOR crc_shift 8 (take_bit 8 x)"
    by (subst xor_split_bits [of x 8]) (rule crc_shift_xor)
  also have "crc_shift 8 (push_bit 8 (drop_bit 8 x)) = drop_bit 8 (push_bit 8 (drop_bit 8 x))"
    by (rule crc_shift_clear) (simp add: take_bit_push_bit)
  also have "drop_bit 8 (push_bit 8 (drop_bit 8 x)) = drop_bit 8 x"
    by (rule bit_word_eqI) (auto simp: bit_simps dest: bit_imp_le_length)
  also have "crc_shift 8 (take_bit 8 x) = crc_table ! crc_index c b"
    using crc_index_less [of c b] by (simp add: nth_crc_table idx)
  finally show ?thesis unfolding crc_step_def high x_def [symmetric] by (rule sym)
qed

primrec crc_bitwise :: "byte list \<Rightarrow> 32 word \<Rightarrow> 32 word" where
  "crc_bitwise [] crc = crc"
| "crc_bitwise (b # bs) crc = crc_bitwise bs (crc_shift 8 (crc XOR ucast b))"

text \<open>C14. The table-driven loop computes the bitwise CRC with the reflected polynomial
  \<open>0xEDB88320\<close> from the initial register \<open>0xFFFFFFFF\<close> (without the final complement).\<close>

theorem calculateCRC32_bitwise: "calculateCRC32 bs = crc_bitwise bs 0xFFFFFFFF"
proof -
  have "crc_loop bs c = crc_bitwise bs c" for c
    by (induction bs arbitrary: c) (simp_all add: crc_step_bitwise)
  then show ?thesis by (simp add: calculateCRC32_def)
qed

end
