(* ===== verification/Std_Containers.thy ===== *)
theory Std_Containers
  imports Prelude
begin

text \<open>
  The parts of \<^verbatim>\<open>std::map\<close> and \<^verbatim>\<open>std::set\<close> the modelled code uses. A map is
  its list of entries in iteration order, which is the increasing order of the keys;
  a set is its list of elements in iteration order. \<open>smap_upper k m\<close> is what a loop
  from \<^verbatim>\<open>upper_bound(k)\<close> to \<^verbatim>\<open>end()\<close> visits.

  The locale \<open>ordered_map\<close> states what the clients rely on; the entry list is an
  interpretation of it.
\<close>

section \<open>Sets\<close>

type_synonym 'a sset = "'a list"

definition sset_ok :: "'a::linorder sset \<Rightarrow> bool" where
  "sset_ok s \<longleftrightarrow> sorted_wrt (<) s"

definition sset_insert :: "'a::linorder \<Rightarrow> 'a sset \<Rightarrow> 'a sset" where
  "sset_insert x s = (if x \<in> set s then s else insort x s)"

definition sset_erase :: "'a::linorder \<Rightarrow> 'a sset \<Rightarrow> 'a sset" where
  "sset_erase x s = filter (\<lambda>y. y \<noteq> x) s"

lemma sset_ok_Nil [simp]: "sset_ok []"
  by (simp add: sset_ok_def)

lemma sset_ok_single [simp]: "sset_ok [x]"
  by (simp add: sset_ok_def)

lemma set_sset_insert [simp]: "set (sset_insert x s) = insert x (set s)"
  by (auto simp: sset_insert_def set_insort_key)

lemma set_sset_erase [simp]: "set (sset_erase x s) = set s - {x}"
  by (auto simp: sset_erase_def)

lemma sset_insert_nonempty [simp]: "sset_insert x s \<noteq> []"
  using set_sset_insert [of x s] by (metis empty_not_insert list.set(1))

lemma sset_ok_insert [simp]: "sset_ok s \<Longrightarrow> sset_ok (sset_insert x s)"
  by (auto simp: sset_ok_def sset_insert_def strict_sorted_iff sorted_insort distinct_insort)

lemma sset_ok_erase [simp]: "sset_ok s \<Longrightarrow> sset_ok (sset_erase x s)"
  by (simp add: sset_ok_def sset_erase_def sorted_wrt_filter)

lemma sset_ok_distinct: "sset_ok s \<Longrightarrow> distinct s"
  by (simp add: sset_ok_def strict_sorted_iff)

lemma sset_eqI: "sset_ok s \<Longrightarrow> sset_ok t \<Longrightarrow> set s = set t \<Longrightarrow> s = t"
  by (auto simp: sset_ok_def intro: strict_sorted_equal)

lemma length_sset_erase: "x \<in> set s \<Longrightarrow> length (sset_erase x s) < length s"
  unfolding sset_erase_def by (rule length_filter_less) auto

lemma sset_hd_least: "sset_ok s \<Longrightarrow> x \<in> set s \<Longrightarrow> hd s \<le> x"
  by (cases s) (auto simp: sset_ok_def)

section \<open>Maps\<close>

type_synonym ('k, 'v) smap = "('k \<times> 'v) list"

definition smap_ok :: "('k::linorder, 'v) smap \<Rightarrow> bool" where
  "smap_ok m \<longleftrightarrow> sorted_wrt (<) (map fst m)"

definition smap_find :: "('k, 'v) smap \<Rightarrow> 'k \<Rightarrow> 'v option" where
  "smap_find m = map_of m"

definition smap_put :: "'k::linorder \<Rightarrow> 'v \<Rightarrow> ('k, 'v) smap \<Rightarrow> ('k, 'v) smap" where
  "smap_put k v m = (if k \<in> set (map fst m) then AList.update k v m else insort_key fst (k, v) m)"

definition smap_erase :: "'k \<Rightarrow> ('k, 'v) smap \<Rightarrow> ('k, 'v) smap" where
  "smap_erase k m = AList.delete k m"

definition smap_upper :: "'k::linorder \<Rightarrow> ('k, 'v) smap \<Rightarrow> ('k, 'v) smap" where
  "smap_upper k m = filter (\<lambda>e. k < fst e) m"

definition smap_last_key :: "('k, 'v) smap \<Rightarrow> 'k option" where
  "smap_last_key m = (if m = [] then None else Some (fst (last m)))"

lemma sorted_le_last: "sorted xs \<Longrightarrow> x \<in> set xs \<Longrightarrow> x \<le> last xs"
  by (induction xs) auto

locale ordered_map =
  fixes ok :: "'m \<Rightarrow> bool"
    and nil :: "'m"
    and look :: "'m \<Rightarrow> 'k::linorder \<Rightarrow> 'v option"
    and upd :: "'k \<Rightarrow> 'v \<Rightarrow> 'm \<Rightarrow> 'm"
    and del :: "'k \<Rightarrow> 'm \<Rightarrow> 'm"
    and iter :: "'m \<Rightarrow> ('k \<times> 'v) list"
  assumes ok_nil: "ok nil"
    and look_nil: "look nil k = None"
    and ok_upd: "ok m \<Longrightarrow> ok (upd k v m)"
    and ok_del: "ok m \<Longrightarrow> ok (del k m)"
    and look_upd: "ok m \<Longrightarrow> look (upd k v m) = (look m)(k \<mapsto> v)"
    and look_del: "ok m \<Longrightarrow> look (del k m) = (look m)(k := None)"
    and iter_sorted: "ok m \<Longrightarrow> sorted_wrt (<) (map fst (iter m))"
    and iter_look: "ok m \<Longrightarrow> map_of (iter m) = look m"
begin

text \<open>What the clients use: an entry is visited exactly when the lookup finds it.\<close>

lemma iter_distinct: "ok m \<Longrightarrow> distinct (map fst (iter m))"
  using iter_sorted strict_sorted_iff by blast

lemma mem_iter_iff: "ok m \<Longrightarrow> (k, v) \<in> set (iter m) \<longleftrightarrow> look m k = Some v"
  using iter_distinct iter_look by (metis map_of_eq_Some_iff)

lemma key_iter_iff: "ok m \<Longrightarrow> k \<in> fst ` set (iter m) \<longleftrightarrow> look m k \<noteq> None"
  using mem_iter_iff by force

lemma mem_iter_upd:
  "ok m \<Longrightarrow> (k', v') \<in> set (iter (upd k v m)) \<longleftrightarrow>
     (if k' = k then v' = v else (k', v') \<in> set (iter m))"
  by (auto simp: mem_iter_iff ok_upd look_upd)

lemma mem_iter_del:
  "ok m \<Longrightarrow> (k', v') \<in> set (iter (del k m)) \<longleftrightarrow> k' \<noteq> k \<and> (k', v') \<in> set (iter m)"
  by (auto simp: mem_iter_iff ok_del look_del)

lemma iter_last_key:
  assumes "ok m" "iter m \<noteq> []" "look m k = Some v"
  shows "k \<le> fst (last (iter m))"
proof -
  have "k \<in> fst ` set (iter m)" using assms key_iter_iff by simp
  then have "k \<le> last (map fst (iter m))"
    using iter_sorted [OF assms(1)] by (intro sorted_le_last) (simp_all add: strict_sorted_iff)
  then show ?thesis using assms(2) by (simp add: last_map)
qed

end

lemma map_of_eqI_list:
  "map fst m = map fst n \<Longrightarrow> distinct (map fst m) \<Longrightarrow> map_of m = map_of n \<Longrightarrow> m = n"
proof (induction m arbitrary: n)
  case (Cons e m)
  obtain k v where e: "e = (k, v)" by (cases e)
  from Cons.prems(1) e obtain w n' where n: "n = (k, w) # n'" by (cases n) auto
  have k: "k \<notin> fst ` set m" "k \<notin> fst ` set n'"
    using Cons.prems(1,2) e n by (auto simp flip: set_map)
  have "map_of (e # m) k = map_of n k" by (simp only: Cons.prems(3))
  then have "v = w" by (simp add: e n)
  moreover have "map_of m x = map_of n' x" for x
    using fun_cong [OF Cons.prems(3), of x] k
    by (cases "x = k") (simp_all add: e n map_of_eq_None_iff [THEN iffD2] del: map_of_eq_None_iff)
  ultimately show ?case using Cons e n by auto
qed simp

lemma smap_ok_distinct: "smap_ok m \<Longrightarrow> distinct (map fst m)"
  by (simp add: smap_ok_def strict_sorted_iff)

lemma smap_ok_Nil [simp]: "smap_ok []"
  by (simp add: smap_ok_def)

lemma map_fst_insort_key: "map fst (insort_key fst e m) = insort (fst e) (map fst m)"
  by (induction m) auto

lemma map_of_insort_key:
  "fst e \<notin> fst ` set m \<Longrightarrow> map_of (insort_key fst e m) = (map_of m)(fst e \<mapsto> snd e)"
  by (induction m) (auto simp: fun_eq_iff)

lemma smap_ok_put: "smap_ok m \<Longrightarrow> smap_ok (smap_put k v m)"
  by (auto simp: smap_ok_def smap_put_def update_keys map_fst_insort_key strict_sorted_iff
      sorted_insort distinct_insort)

lemma smap_find_put: "smap_find (smap_put k v m) = (smap_find m)(k \<mapsto> v)"
  by (auto simp: smap_find_def smap_put_def map_of_insort_key update_conv' fun_eq_iff)

lemma smap_ok_filter: "smap_ok m \<Longrightarrow> smap_ok (filter P m)"
  by (simp add: smap_ok_def sorted_wrt_map sorted_wrt_filter)

lemma smap_ok_erase: "smap_ok m \<Longrightarrow> smap_ok (smap_erase k m)"
  by (simp add: smap_erase_def AList.delete_eq smap_ok_filter)

lemma smap_find_erase: "smap_find (smap_erase k m) = (smap_find m)(k := None)"
  by (simp add: smap_find_def smap_erase_def delete_conv')

interpretation smap: ordered_map smap_ok "[]" smap_find smap_put smap_erase "\<lambda>m. m"
  by unfold_locales
    (simp_all add: smap_ok_put smap_ok_erase smap_find_put smap_find_erase,
     simp_all add: smap_ok_def smap_find_def)

lemma smap_upper_iff: "smap_ok m \<Longrightarrow> (k', v) \<in> set (smap_upper k m) \<longleftrightarrow> k < k' \<and> smap_find m k' = Some v"
  by (auto simp: smap_upper_def smap.mem_iter_iff)

lemma smap_eqI: "smap_ok m \<Longrightarrow> smap_ok n \<Longrightarrow> smap_find m = smap_find n \<Longrightarrow> m = n"
proof -
  assume ok: "smap_ok m" "smap_ok n" and eq: "smap_find m = smap_find n"
  have "map fst m = map fst n"
  proof (rule strict_sorted_equal)
    show "sorted_wrt (<) (map fst m)" "sorted_wrt (<) (map fst n)"
      using ok by (simp_all add: smap_ok_def)
    show "set (map fst m) = set (map fst n)"
      using eq by (simp add: smap_find_def flip: dom_map_of_conv_image_fst)
  qed
  then show ?thesis
    using ok eq by (intro map_of_eqI_list) (auto simp: smap_find_def smap_ok_distinct)
qed

end
