(* ===== verification/Freelist_File.thy ===== *)
theory Freelist_File
  imports Bytes Crc32 File_IO Std_Containers
begin

text \<open>
  The free lists of a data store and the file that keeps them across restarts: the class
  \<^verbatim>\<open>FreelistBucket\<close> and the bodies of \<^verbatim>\<open>persistFreelists\<close> and
  \<^verbatim>\<open>readFreelistFromFile\<close> of \<^verbatim>\<open>src/util/DataStore.cpp\<close>, byte by byte.
\<close>

section \<open>The free lists in memory\<close>

type_synonym freelists = "(nat, nat sset) smap"

text \<open>\<^verbatim>\<open>_freelists[key].insert(off)\<close>: the bucket is created when it is not there.\<close>

definition fl_bucket :: "nat \<Rightarrow> freelists \<Rightarrow> nat sset" where
  "fl_bucket key fl = (case smap_find fl key of None \<Rightarrow> [] | Some b \<Rightarrow> b)"

definition fl_insert :: "nat \<Rightarrow> nat \<Rightarrow> freelists \<Rightarrow> freelists" where
  "fl_insert key off fl = smap_put key (sset_insert off (fl_bucket key fl)) fl"

section \<open>One bucket\<close>

text \<open>
  The buffer of a bucket: \<open><size><key><nelements><offset 1>...<offset n><crc>\<close>. The
  checksum covers what follows the size, without the checksum itself.
\<close>

definition bucket_body :: "nat \<Rightarrow> nat sset \<Rightarrow> byte list" where
  "bucket_body key bucket = le64 key @ le64 (length bucket) @ concat (map le64 bucket)"

definition FreelistBucket :: "nat \<Rightarrow> nat sset \<Rightarrow> byte list" where
  "FreelistBucket key bucket =
     (let bucketsize = 2 * 8 + length bucket * 8 + 4 in
      le64 bucketsize @ bucket_body key bucket @
      le32 (unat (calculateCRC32 (bucket_body key bucket))))"

text \<open>
  A bucket read from a file. \<open>flb_data\<close> is the buffer without the leading size; the
  number of elements is what the buffer says. Reading or storing outside of the buffer is
  undefined; \<open>mem\<close> is the size of the largest array \<^verbatim>\<open>new\<close> can provide.
\<close>

record flb =
  flb_size :: nat
  flb_data :: "byte list"

definition flb_key :: "flb \<Rightarrow> nat" where
  "flb_key b = le_val (take 8 (flb_data b))"

definition flb_nelements :: "flb \<Rightarrow> nat" where
  "flb_nelements b = le_val (take 8 (drop 8 (flb_data b)))"

definition flb_offset :: "flb \<Rightarrow> nat \<Rightarrow> nat" where
  "flb_offset b i = le_val (take 8 (drop (16 + 8 * i) (flb_data b)))"

definition FreelistBucket_read :: "nat \<Rightarrow> byte list \<Rightarrow> nat \<Rightarrow> error + flb" where
  "FreelistBucket_read mem f offset =
     (if length f < offset + 8 then Inl LE_PREAD_ERROR
      else
        (let bucketsize = le_val (pread f offset 8);
             bufsize = bucketsize + 8 in
         if 2 ^ 64 \<le> bufsize then Inl Undefined_Behaviour
         else if mem < bufsize then Inl Bad_Alloc
         else if length f < offset + 8 + bucketsize then Inl LE_PREAD_ERROR
         else
           (let b = \<lparr>flb_size = bucketsize, flb_data = pread f (offset + 8) bucketsize\<rparr>;
                crcpos = 16 + u64 (flb_nelements b * 8) in
            if bucketsize < 16 \<or> bucketsize < crcpos + 4 then Inl Undefined_Behaviour
            else if le_val (take 4 (drop crcpos (flb_data b))) \<noteq>
                    unat (calculateCRC32 (take (bucketsize - 4) (flb_data b)))
            then Inl LE_DATASTORE_CORRUPT_FREELIST
            else Inr b)))"

definition FreelistBucket_size :: "flb \<Rightarrow> nat" where
  "FreelistBucket_size b = u64 (flb_size b + 8)"

fun unload_loop :: "nat \<Rightarrow> nat \<Rightarrow> flb \<Rightarrow> freelists \<Rightarrow> freelists" where
  "unload_loop 0 offset b fl = fl"
| "unload_loop (Suc n) offset b fl =
     unload_loop n (offset + 1) b (fl_insert (flb_key b) (flb_offset b offset) fl)"

definition unload :: "flb \<Rightarrow> freelists \<Rightarrow> error + freelists" where
  "unload b fl =
     (if flb_size b < 16 + 8 * flb_nelements b then Inl Undefined_Behaviour
      else Inr (unload_loop (flb_nelements b) 0 b fl))"

section \<open>The file\<close>

text \<open>
  The free-list file while it is open for writing: its bytes, the number of bytes the disk
  still takes, and the number of calls that still find a descriptor. A call first makes the
  file active, which throws when every open file is pinned
  (\<^verbatim>\<open>FileManager::checkLimit\<close>); a write that does not fit leaves a prefix and
  throws, which is the contract of \<^verbatim>\<open>File::writeAll\<close>. The result of
  \<^verbatim>\<open>fsync\<close> is ignored.
\<close>

type_synonym fl_out = "byte list \<times> nat \<times> nat"

fun fl_writeAll :: "byte list \<Rightarrow> nat \<Rightarrow> fl_out \<Rightarrow> (unit, fl_out) outcome" where
  "fl_writeAll bs off (f, room, calls) =
     (if calls = 0 then throw LE_TOO_MANY_OPEN_FILES (f, room, calls)
      else if length bs \<le> room then ret () (pwrite f off bs, room - length bs, calls - 1)
      else throw LE_PWRITE_ERROR (pwrite f off (take room bs), 0, calls - 1))"

fun fl_fsync :: "fl_out \<Rightarrow> (unit, fl_out) outcome" where
  "fl_fsync (f, room, calls) =
     (if calls = 0 then throw LE_TOO_MANY_OPEN_FILES (f, room, calls) else ret () (f, room, calls - 1))"

fun persist_buckets :: "freelists \<Rightarrow> nat \<Rightarrow> fl_out \<Rightarrow> (unit, fl_out) outcome" where
  "persist_buckets [] fileoff c = ret () c"
| "persist_buckets ((key, bucket) # fl) fileoff c =
     (if length bucket = 0 then persist_buckets fl fileoff c
      else andThen (fl_writeAll (FreelistBucket key bucket) fileoff c)
             (\<lambda>_ c'. persist_buckets fl (fileoff + length (FreelistBucket key bucket)) c'))"

definition persist_file :: "freelists \<Rightarrow> nat \<Rightarrow> nat \<Rightarrow> (unit, fl_out) outcome" where
  "persist_file fl room calls =
     andThen (fl_writeAll (le64 (length fl)) 0 ([], room, calls)) (\<lambda>_ c.
       andThen (persist_buckets fl 8 c) (\<lambda>_ c'. fl_fsync c'))"

text \<open>
  Reading. A system exception while a bucket is read is caught and empties the free lists;
  what is not a system exception is not caught.
\<close>

fun read_buckets :: "nat \<Rightarrow> byte list \<Rightarrow> nat \<Rightarrow> nat \<Rightarrow> freelists \<Rightarrow> error + freelists" where
  "read_buckets mem f 0 fileoff fl = Inr fl"
| "read_buckets mem f (Suc n) fileoff fl =
     (case FreelistBucket_read mem f fileoff of
        Inl e \<Rightarrow> Inl e
      | Inr b \<Rightarrow>
          (case unload b fl of
             Inl e \<Rightarrow> Inl e
           | Inr fl' \<Rightarrow> read_buckets mem f n (fileoff + FreelistBucket_size b) fl'))"

definition is_SystemException :: "error \<Rightarrow> bool" where
  "is_SystemException e \<longleftrightarrow> e \<notin> {Undefined_Behaviour, Bad_Alloc, LE_TOO_MANY_OPEN_FILES}"

definition read_file :: "nat \<Rightarrow> byte list \<Rightarrow> freelists \<Rightarrow> (nat, freelists) outcome" where
  "read_file mem f fl =
     (if length f = 0 then ret 0 fl
      else if length f < 8 then throw LE_PREAD_ERROR fl
      else
        (let nbuckets = le_val (pread f 0 8) in
         case read_buckets mem f nbuckets 8 fl of
           Inr fl' \<Rightarrow> ret nbuckets fl'
         | Inl e \<Rightarrow> if is_SystemException e then ret 0 [] else throw e fl))"

section \<open>What is written is read back\<close>

definition bucket_ok :: "nat \<Rightarrow> nat sset \<Rightarrow> bool" where
  "bucket_ok key bucket \<longleftrightarrow>
     key < 2 ^ 64 \<and> bucket \<noteq> [] \<and> sset_ok bucket \<and> (\<forall>x \<in> set bucket. x < 2 ^ 64) \<and>
     28 + 8 * length bucket < 2 ^ 64"

definition freelists_ok :: "freelists \<Rightarrow> bool" where
  "freelists_ok fl \<longleftrightarrow> smap_ok fl \<and> (\<forall>(key, bucket) \<in> set fl. bucket_ok key bucket) \<and> length fl < 2 ^ 64"

lemma length_bucket_body [simp]: "length (bucket_body key bucket) = 16 + 8 * length bucket"
  by (simp add: bucket_body_def)

lemma length_FreelistBucket [simp]: "length (FreelistBucket key bucket) = 28 + 8 * length bucket"
  by (simp add: FreelistBucket_def Let_def)

lemma pread_at: "pread (xs @ bs @ ys) (length xs) (length bs) = bs"
  by (simp add: pread_def)

definition flb_of :: "nat \<Rightarrow> nat sset \<Rightarrow> flb" where
  "flb_of key bucket = \<lparr>flb_size = 20 + 8 * length bucket,
     flb_data = bucket_body key bucket @ le32 (unat (calculateCRC32 (bucket_body key bucket)))\<rparr>"

lemma flb_of_sel:
  assumes "bucket_ok key bucket"
  shows "flb_size (flb_of key bucket) = 20 + 8 * length bucket"
    and "flb_key (flb_of key bucket) = key" "flb_nelements (flb_of key bucket) = length bucket"
    and "FreelistBucket_size (flb_of key bucket) = length (FreelistBucket key bucket)"
  using assms
  by (simp_all add: bucket_ok_def flb_of_def flb_key_def flb_nelements_def bucket_body_def FreelistBucket_size_def)

lemma flb_of_offset:
  assumes "bucket_ok key bucket" "i < length bucket"
  shows "flb_offset (flb_of key bucket) i = bucket ! i"
proof -
  have "bucket ! i < 2 ^ 64" using assms by (simp add: bucket_ok_def)
  moreover have "take 8 (concat (map le64 (drop i bucket))) = le64 (bucket ! i)"
    using assms(2) by (simp add: Cons_nth_drop_Suc [symmetric])
  ultimately show ?thesis
    using assms(2) drop_concat_le64 [of i bucket]
    by (simp add: flb_offset_def flb_of_def bucket_body_def)
qed

text \<open>The reader parses one bucket in the file up to where the checksum is compared.\<close>

lemma FreelistBucket_read_parse:
  assumes "length data = 20 + 8 * n" "28 + 8 * n < 2 ^ 64" "28 + 8 * n \<le> mem"
    and "le_val (take 8 (drop 8 data)) = n" "offset = length xs"
  shows "FreelistBucket_read mem (xs @ le64 (20 + 8 * n) @ data @ ys) offset =
    (if le_val (drop (16 + 8 * n) data) = unat (calculateCRC32 (take (16 + 8 * n) data))
     then Inr \<lparr>flb_size = 20 + 8 * n, flb_data = data\<rparr> else Inl LE_DATASTORE_CORRUPT_FREELIST)"
proof -
  define f where "f = xs @ le64 (20 + 8 * n) @ data @ ys"
  have sz: "pread f offset 8 = le64 (20 + 8 * n)"
    using pread_at [of xs "le64 (20 + 8 * n)" "data @ ys"] assms(5) by (simp add: f_def)
  have dat: "pread f (offset + 8) (20 + 8 * n) = data"
    using pread_at [of "xs @ le64 (20 + 8 * n)" data ys] assms(1,5) by (simp add: f_def)
  have len: "\<not> length f < offset + 8" "\<not> length f < offset + 8 + (20 + 8 * n)"
    using assms(1,5) by (simp_all add: f_def)
  have val: "le_val (le64 (20 + 8 * n)) = 20 + 8 * n" using assms(2) by (intro le_val_le64) simp
  have nel: "flb_nelements \<lparr>flb_size = 20 + 8 * n, flb_data = data\<rparr> = n"
    using assms(4) by (simp add: flb_nelements_def)
  have u: "u64 (n * 8) = 8 * n" using assms(2) by simp
  have small: "\<not> 2 ^ 64 \<le> 20 + 8 * n + 8" "\<not> mem < 20 + 8 * n + 8"
    "\<not> (20 + 8 * n < 16 \<or> 20 + 8 * n < 16 + 8 * n + 4)"
    using assms(2,3) by simp_all
  have cut: "take 4 (drop (16 + 8 * n) data) = drop (16 + 8 * n) data" "20 + 8 * n - 4 = 16 + 8 * n"
    using assms(1) by simp_all
  show ?thesis
    unfolding FreelistBucket_read_def Let_def f_def [symmetric] sz dat val nel u flb.simps cut
    by (simp only: len small if_False)  (simp split: if_split)
qed

lemma FreelistBucket_read_ok:
  assumes "bucket_ok key bucket" "length (FreelistBucket key bucket) \<le> mem" "offset = length xs"
  shows "FreelistBucket_read mem (xs @ FreelistBucket key bucket @ ys) offset = Inr (flb_of key bucket)"
proof -
  define body where "body = bucket_body key bucket"
  define crc where "crc = le32 (unat (calculateCRC32 body))"
  have fb: "FreelistBucket key bucket = le64 (20 + 8 * length bucket) @ (body @ crc)"
    by (simp add: FreelistBucket_def body_def crc_def Let_def algebra_simps)
  have n: "le_val (take 8 (drop 8 (body @ crc))) = length bucket"
    using assms(1) by (simp add: body_def bucket_body_def bucket_ok_def)
  have "unat (calculateCRC32 body) < 2 ^ 32" using unsigned_less [of "calculateCRC32 body"] by simp
  then have c: "le_val crc = unat (calculateCRC32 body)" by (simp add: crc_def)
  have lb: "length body = 16 + 8 * length bucket" by (simp add: body_def)
  then have "take (16 + 8 * length bucket) (body @ crc) = body" "drop (16 + 8 * length bucket) (body @ crc) = crc"
    by simp_all
  moreover have "length (body @ crc) = 20 + 8 * length bucket" using lb by (simp add: crc_def)
  ultimately show ?thesis
    using FreelistBucket_read_parse [of "body @ crc" "length bucket" mem offset xs ys] assms n c
    unfolding fb by (simp add: bucket_ok_def flb_of_def body_def crc_def)
qed

text \<open>Loading the elements of a bucket, in increasing order, above the keys loaded before.\<close>

lemma sset_insert_last: "\<forall>y \<in> set s. y < x \<Longrightarrow> sset_insert x s = s @ [x]"
  by (induction s) (auto simp: sset_insert_def)

lemma smap_put_new_last: "\<forall>k \<in> fst ` set m. k < key \<Longrightarrow> smap_put key v m = m @ [(key, v)]"
  by (induction m) (auto simp: smap_put_def)

lemma smap_put_last: "\<forall>k \<in> fst ` set m. k < key \<Longrightarrow> smap_put key v (m @ [(key, w)]) = m @ [(key, v)]"
  by (induction m) (auto simp: smap_put_def)

lemma fl_bucket_last:
  "\<forall>k \<in> fst ` set m. k < key \<Longrightarrow> fl_bucket key m = []"
  "\<forall>k \<in> fst ` set m. k < key \<Longrightarrow> fl_bucket key (m @ [(key, b)]) = b"
  by (induction m) (auto simp: fl_bucket_def smap_find_def)

lemma unload_loop_more:
  assumes "\<forall>k \<in> fst ` set m. k < flb_key b" "sset_ok bucket" "j \<le> length bucket" "j \<noteq> 0"
    and "\<And>i. i < length bucket \<Longrightarrow> flb_offset b i = bucket ! i" "n = length bucket - j"
  shows "unload_loop n j b (m @ [(flb_key b, take j bucket)]) = m @ [(flb_key b, bucket)]"
  using assms(3,4,6)
proof (induction n arbitrary: j)
  case (Suc n)
  then have j: "j < length bucket" by simp
  have "\<forall>y \<in> set (take j bucket). y < bucket ! j"
    using assms(2) j by (auto simp: sset_ok_def sorted_wrt_iff_nth_less in_set_conv_nth)
  then have "fl_insert (flb_key b) (bucket ! j) (m @ [(flb_key b, take j bucket)]) =
      m @ [(flb_key b, take (Suc j) bucket)]"
    using assms(1) j
    by (simp add: fl_insert_def fl_bucket_last sset_insert_last smap_put_last take_Suc_conv_app_nth)
  moreover have "unload_loop n (Suc j) b (m @ [(flb_key b, take (Suc j) bucket)]) = m @ [(flb_key b, bucket)]"
    using Suc.prems j by (intro Suc.IH) simp_all
  ultimately show ?case unfolding unload_loop.simps using assms(5) [OF j] by simp
qed simp

lemma unload_ok:
  assumes "bucket_ok key bucket" "\<forall>k \<in> fst ` set m. k < key"
  shows "unload (flb_of key bucket) m = Inr (m @ [(key, bucket)])"
proof -
  note sel = flb_of_sel [OF assms(1)]
  obtain x xs where x: "bucket = x # xs" using assms(1) by (cases bucket) (auto simp: bucket_ok_def)
  have "fl_insert key x m = m @ [(key, [x])]"
    using assms(2) by (simp add: fl_insert_def fl_bucket_last smap_put_new_last sset_insert_def)
  moreover have "unload_loop (length xs) 1 (flb_of key bucket) (m @ [(flb_key (flb_of key bucket), take 1 bucket)]) =
      m @ [(flb_key (flb_of key bucket), bucket)]"
    by (rule unload_loop_more)
      (use assms sel(2) flb_of_offset [OF assms(1)] in \<open>simp_all add: bucket_ok_def x\<close>)
  moreover have "flb_offset (flb_of key bucket) 0 = x"
    using flb_of_offset [OF assms(1), of 0] by (simp add: x)
  ultimately have "unload_loop (Suc (length xs)) 0 (flb_of key bucket) m = m @ [(key, bucket)]"
    unfolding unload_loop.simps sel(2) by (simp add: x)
  then have "unload_loop (length bucket) 0 (flb_of key bucket) m = m @ [(key, bucket)]" by (simp add: x)
  then show ?thesis by (simp add: unload_def sel)
qed

lemma read_buckets_ok:
  assumes "smap_ok (fl1 @ fl2)" "\<forall>(key, bucket) \<in> set fl2. bucket_ok key bucket"
    and "\<forall>(key, bucket) \<in> set fl2. length (FreelistBucket key bucket) \<le> mem"
  shows "read_buckets mem (xs @ concat (map (\<lambda>(k, b). FreelistBucket k b) fl2)) (length fl2) (length xs) fl1 =
    Inr (fl1 @ fl2)"
  using assms
proof (induction fl2 arbitrary: fl1 xs)
  case (Cons e fl2)
  obtain key bucket where e: "e = (key, bucket)" by (cases e)
  have ok: "bucket_ok key bucket" "length (FreelistBucket key bucket) \<le> mem" using Cons.prems(2,3) e by auto
  have "\<forall>k \<in> fst ` set fl1. k < key"
    using Cons.prems(1) e by (auto simp: smap_ok_def sorted_wrt_append)
  then have "read_buckets mem (xs @ concat (map (\<lambda>(k, b). FreelistBucket k b) (e # fl2))) (length (e # fl2))
      (length xs) fl1 =
    read_buckets mem ((xs @ FreelistBucket key bucket) @ concat (map (\<lambda>(k, b). FreelistBucket k b) fl2))
      (length fl2) (length (xs @ FreelistBucket key bucket)) (fl1 @ [(key, bucket)])"
    using FreelistBucket_read_ok [OF ok refl] unload_ok [OF ok(1)] flb_of_sel [OF ok(1)]
    by (simp add: e)
  also have "\<dots> = Inr (fl1 @ e # fl2)"
    using Cons.IH [of "fl1 @ [(key, bucket)]" "xs @ FreelistBucket key bucket"] Cons.prems e by simp
  finally show ?case .
qed simp

section \<open>The whole file, and its prefixes\<close>

definition buckets_bytes :: "freelists \<Rightarrow> byte list" where
  "buckets_bytes fl = concat (map (\<lambda>(k, b). FreelistBucket k b) fl)"

definition file_bytes :: "freelists \<Rightarrow> byte list" where
  "file_bytes fl = le64 (length fl) @ buckets_bytes fl"

lemma buckets_bytes_simps [simp]:
  "buckets_bytes [] = []"
  "buckets_bytes ((k, b) # fl) = FreelistBucket k b @ buckets_bytes fl"
  by (simp_all add: buckets_bytes_def)

lemma pwrite_end: "pwrite c (length c) bs = c @ bs"
  by (simp add: pwrite_def)

text \<open>
  Writing the lists: the complete file, or an exception that leaves a proper prefix of it;
  only the exception of the last call, \<^verbatim>\<open>fsync\<close>, leaves all of it.
\<close>

definition persisted :: "byte list \<Rightarrow> nat \<Rightarrow> nat \<Rightarrow> nat \<Rightarrow> (unit, fl_out) outcome \<Rightarrow> bool" where
  "persisted bs room calls n r \<longleftrightarrow>
     (\<exists>c. r = ret () (bs, c) \<and> length bs \<le> room \<and> n \<le> calls) \<or>
     (\<exists>e j c. r = throw e (take j bs, c) \<and> e \<in> {LE_PWRITE_ERROR, LE_TOO_MANY_OPEN_FILES} \<and>
        (room < length bs \<or> calls < n) \<and> (length bs \<le> j \<longrightarrow> calls < n))"

lemma persist_buckets_result:
  assumes "\<forall>(k, b) \<in> set fl. b \<noteq> []" "fileoff = length c"
  shows "(\<exists>room'. persist_buckets fl fileoff (c, room, calls) = ret () (c @ buckets_bytes fl, room', calls - length fl) \<and>
            length (buckets_bytes fl) \<le> room \<and> length fl \<le> calls) \<or>
         (\<exists>e j d. persist_buckets fl fileoff (c, room, calls) = throw e (c @ take j (buckets_bytes fl), d) \<and>
            e \<in> {LE_PWRITE_ERROR, LE_TOO_MANY_OPEN_FILES} \<and> j < length (buckets_bytes fl) \<and>
            (room < length (buckets_bytes fl) \<or> calls < length fl))"
  using assms
proof (induction fl arbitrary: c room calls fileoff)
  case (Cons e fl)
  obtain k b where e: "e = (k, b)" by (cases e)
  define bs where "bs = FreelistBucket k b"
  have bs: "0 < length bs" by (simp add: bs_def)
  have b: "b \<noteq> []" using Cons.prems by (simp add: e)
  have step: "persist_buckets (e # fl) fileoff (c, room, calls) =
      (if calls = 0 then throw LE_TOO_MANY_OPEN_FILES (c, room, calls)
       else if length bs \<le> room then persist_buckets fl (length (c @ bs)) (c @ bs, room - length bs, calls - 1)
       else throw LE_PWRITE_ERROR (c @ take room bs, 0, calls - 1))"
    using b Cons.prems(2) by (simp add: e bs_def [symmetric] pwrite_end del: length_FreelistBucket)
  consider "calls = 0" | "calls \<noteq> 0" "room < length bs" | "calls \<noteq> 0" "length bs \<le> room" by linarith
  then show ?case
  proof cases
    case 1
    then show ?thesis using step bs by (intro disjI2 exI [of _ LE_TOO_MANY_OPEN_FILES] exI [of _ 0]) (auto simp: e bs_def)
  next
    case 2
    then show ?thesis using step
      by (intro disjI2 exI [of _ LE_PWRITE_ERROR] exI [of _ room]) (auto simp: e bs_def)
  next
    case 3
    have "\<forall>(k, b) \<in> set fl. b \<noteq> []" using Cons.prems by simp
    from Cons.IH [OF this refl, of "c @ bs" "room - length bs" "calls - 1"] show ?thesis
    proof (rule disjE; elim exE conjE)
      fix room' assume "persist_buckets fl (length (c @ bs)) (c @ bs, room - length bs, calls - 1) =
          ret () ((c @ bs) @ buckets_bytes fl, room', calls - 1 - length fl)"
        "length (buckets_bytes fl) \<le> room - length bs" "length fl \<le> calls - 1"
      then show ?thesis using 3 step by (intro disjI1 exI [of _ room']) (auto simp: e bs_def)
    next
      fix x j d assume x: "persist_buckets fl (length (c @ bs)) (c @ bs, room - length bs, calls - 1) =
          throw x ((c @ bs) @ take j (buckets_bytes fl), d)" "x \<in> {LE_PWRITE_ERROR, LE_TOO_MANY_OPEN_FILES}"
        "j < length (buckets_bytes fl)" "room - length bs < length (buckets_bytes fl) \<or> calls - 1 < length fl"
      have "persist_buckets (e # fl) fileoff (c, room, calls) =
          throw x (c @ take (length bs + j) (buckets_bytes (e # fl)), d)"
        using 3 step x(1) by (simp add: e bs_def [symmetric] del: length_FreelistBucket)
      moreover have "length bs + j < length (buckets_bytes (e # fl))" using x(3) by (simp add: e bs_def)
      moreover have "room < length (buckets_bytes (e # fl)) \<or> calls < length (e # fl)"
        using x(4) 3 by (auto simp: e bs_def)
      ultimately show ?thesis using x(2) by blast
    qed
  qed
qed simp

lemma persist_file_result:
  assumes "\<forall>(k, b) \<in> set fl. b \<noteq> []"
  shows "persisted (file_bytes fl) room calls (length fl + 2) (persist_file fl room calls)"
proof -
  have [simp]: "pwrite [] 0 bs = bs" for bs :: "byte list" using pwrite_end [of "[]"] by simp
  define h where "h = le64 (length fl)"
  have h: "length h = 8" by (simp add: h_def)
  have f: "file_bytes fl = h @ buckets_bytes fl" by (simp add: file_bytes_def h_def)
  have pf: "persist_file fl room calls =
      (if calls = 0 then throw LE_TOO_MANY_OPEN_FILES ([], room, calls)
       else if 8 \<le> room
       then andThen (persist_buckets fl 8 (h, room - 8, calls - 1)) (\<lambda>_ c'. fl_fsync c')
       else throw LE_PWRITE_ERROR (take room h, 0, calls - 1))"
    using h by (simp add: persist_file_def h_def [symmetric])
  consider "calls = 0" | "calls \<noteq> 0" "room < 8" | "calls \<noteq> 0" "8 \<le> room" by linarith
  then show ?thesis
  proof cases
    case 1
    then show ?thesis using pf unfolding persisted_def f
      by (intro disjI2 exI [of _ LE_TOO_MANY_OPEN_FILES] exI [of _ 0] exI [of _ "(room, calls)"]) simp
  next
    case 2
    then show ?thesis using pf h unfolding persisted_def f
      by (intro disjI2 exI [of _ LE_PWRITE_ERROR] exI [of _ room] exI [of _ "(0, calls - 1)"]) auto
  next
    case 3
    have "(8::nat) = length h" using h by simp
    from persist_buckets_result [OF assms this, of "room - 8" "calls - 1"] show ?thesis
    proof (rule disjE; elim exE conjE)
      fix room' assume "persist_buckets fl 8 (h, room - 8, calls - 1) =
          ret () (h @ buckets_bytes fl, room', calls - 1 - length fl)"
        "length (buckets_bytes fl) \<le> room - 8" "length fl \<le> calls - 1"
      then show ?thesis using pf 3 h unfolding persisted_def f
        by (cases "calls - 1 - length fl = 0")
          (auto intro!: exI [of _ "length (h @ buckets_bytes fl)"])
    next
      fix x j d assume "persist_buckets fl 8 (h, room - 8, calls - 1) = throw x (h @ take j (buckets_bytes fl), d)"
        "x \<in> {LE_PWRITE_ERROR, LE_TOO_MANY_OPEN_FILES}" "j < length (buckets_bytes fl)"
        "room - 8 < length (buckets_bytes fl) \<or> calls - 1 < length fl"
      then show ?thesis using pf 3 h unfolding persisted_def f
        by (intro disjI2 exI [of _ x] exI [of _ "8 + j"] exI [of _ d]) auto
    qed
  qed
qed

lemma FreelistBucket_read_cut:
  assumes ok: "bucket_ok key bucket" and mem: "length (FreelistBucket key bucket) \<le> mem"
    and j: "j < length (FreelistBucket key bucket)" and off: "offset = length xs"
  shows "FreelistBucket_read mem (xs @ take j (FreelistBucket key bucket)) offset = Inl LE_PREAD_ERROR"
proof (cases "j < 8")
  case True
  then show ?thesis using off by (simp add: FreelistBucket_read_def)
next
  case False
  define n where "n = length bucket"
  define f where "f = xs @ take j (FreelistBucket key bucket)"
  define r where "r = take (j - 8) (bucket_body key bucket @ le32 (unat (calculateCRC32 (bucket_body key bucket))))"
  have f: "f = xs @ le64 (20 + 8 * n) @ r"
    using False by (simp add: f_def r_def FreelistBucket_def Let_def n_def algebra_simps)
  have "pread f offset 8 = le64 (20 + 8 * n)"
    using pread_at [of xs "le64 (20 + 8 * n)" r] off by (simp add: f)
  moreover have "le_val (le64 (20 + 8 * n)) = 20 + 8 * n"
    using ok by (intro le_val_le64) (simp add: bucket_ok_def n_def)
  moreover have "\<not> length f < offset + 8" "length f < offset + 8 + (20 + 8 * n)"
    using off False j by (simp_all add: f r_def n_def)
  moreover have "\<not> 2 ^ 64 \<le> 20 + 8 * n + 8" "\<not> mem < 20 + 8 * n + 8"
    using ok mem by (simp_all add: bucket_ok_def n_def)
  ultimately show ?thesis unfolding f_def [symmetric] by (simp add: FreelistBucket_read_def Let_def)
qed

lemma read_buckets_cut:
  assumes "smap_ok (fl1 @ fl2)" "\<forall>(key, bucket) \<in> set fl2. bucket_ok key bucket"
    and "\<forall>(key, bucket) \<in> set fl2. length (FreelistBucket key bucket) \<le> mem"
    and "j < length (buckets_bytes fl2)"
  shows "read_buckets mem (xs @ take j (buckets_bytes fl2)) (length fl2) (length xs) fl1 = Inl LE_PREAD_ERROR"
  using assms
proof (induction fl2 arbitrary: fl1 xs j)
  case (Cons e fl2)
  obtain key bucket where e: "e = (key, bucket)" by (cases e)
  define bs where "bs = FreelistBucket key bucket"
  have ok: "bucket_ok key bucket" "length bs \<le> mem" using Cons.prems(2,3) e by (auto simp: bs_def)
  show ?case
  proof (cases "j < length bs")
    case True
    then show ?thesis
      using FreelistBucket_read_cut [OF ok(1) ok(2) [unfolded bs_def] True [unfolded bs_def] refl, of xs]
      by (simp add: e bs_def)
  next
    case False
    have "\<forall>k \<in> fst ` set fl1. k < key"
      using Cons.prems(1) e by (auto simp: smap_ok_def sorted_wrt_append)
    then have "read_buckets mem (xs @ take j (buckets_bytes (e # fl2))) (length (e # fl2)) (length xs) fl1 =
      read_buckets mem ((xs @ bs) @ take (j - length bs) (buckets_bytes fl2)) (length fl2) (length (xs @ bs))
        (fl1 @ [(key, bucket)])"
      using FreelistBucket_read_ok [OF ok(1) _ refl, of mem xs "take (j - length bs) (buckets_bytes fl2)"] ok(2)
        unload_ok [OF ok(1)] flb_of_sel [OF ok(1)] False
      by (simp add: e bs_def)
    also have "\<dots> = Inl LE_PREAD_ERROR"
      using Cons.IH [of "fl1 @ [(key, bucket)]" "j - length bs" "xs @ bs"] Cons.prems e False by (simp add: bs_def)
    finally show ?thesis .
  qed
qed simp

definition fits :: "nat \<Rightarrow> freelists \<Rightarrow> bool" where
  "fits mem fl \<longleftrightarrow> (\<forall>(k, b) \<in> set fl. length (FreelistBucket k b) \<le> mem)"

lemma read_file_ok:
  assumes "freelists_ok fl" "fits mem fl"
  shows "read_file mem (file_bytes fl) [] = ret (length fl) fl"
proof -
  have "pread (file_bytes fl) 0 8 = le64 (length fl)"
    using pread_at [of "[]" "le64 (length fl)" "buckets_bytes fl"] by (simp add: file_bytes_def)
  moreover have "le_val (le64 (length fl)) = length fl" using assms(1) by (simp add: freelists_ok_def)
  moreover have "read_buckets mem (file_bytes fl) (length fl) 8 [] = Inr fl"
    using read_buckets_ok [of "[]" fl mem "le64 (length fl)"] assms
    by (simp add: freelists_ok_def fits_def file_bytes_def buckets_bytes_def)
  ultimately show ?thesis by (simp add: read_file_def file_bytes_def)
qed

lemma read_file_cut:
  assumes "freelists_ok fl" "fits mem fl" "8 \<le> j" "j < length (file_bytes fl)"
  shows "read_file mem (take j (file_bytes fl)) [] = ret 0 []"
proof -
  define f where "f = le64 (length fl) @ take (j - 8) (buckets_bytes fl)"
  have f: "take j (file_bytes fl) = f" using assms(3) by (simp add: file_bytes_def f_def)
  have "pread f 0 8 = le64 (length fl)"
    using pread_at [of "[]" "le64 (length fl)" "take (j - 8) (buckets_bytes fl)"] by (simp add: f_def)
  moreover have "le_val (le64 (length fl)) = length fl" using assms(1) by (simp add: freelists_ok_def)
  moreover have "read_buckets mem f (length fl) 8 [] = Inl LE_PREAD_ERROR"
    using read_buckets_cut [of "[]" fl mem "j - 8" "le64 (length fl)"] assms
    by (simp add: freelists_ok_def fits_def file_bytes_def f_def)
  ultimately show ?thesis
    using assms(3) by (simp add: f read_file_def f_def is_SystemException_def)
qed

text \<open>
  A corruption confined to four consecutive bytes of a bucket that does not touch the
  element count is detected.
\<close>

lemma FreelistBucket_read_corrupt:
  assumes ok: "bucket_ok key bucket" and mem: "length (FreelistBucket key bucket) \<le> mem"
    and body: "bucket_body key bucket = p @ ys @ q" and ys: "length ys' = length ys" "length ys \<le> 4" "ys' \<noteq> ys"
    and count: "take 8 (drop 8 (p @ ys' @ q)) = take 8 (drop 8 (bucket_body key bucket))"
    and off: "offset = length xs"
  shows "FreelistBucket_read mem
      (xs @ le64 (20 + 8 * length bucket) @ (p @ ys' @ q) @
       le32 (unat (calculateCRC32 (bucket_body key bucket))) @ zs) offset = Inl LE_DATASTORE_CORRUPT_FREELIST"
proof -
  define body' where "body' = p @ ys' @ q"
  define crc where "crc = le32 (unat (calculateCRC32 (bucket_body key bucket)))"
  define n where "n = length bucket"
  have lb: "length body' = 16 + 8 * n"
    using arg_cong [OF body, of length] ys(1) by (simp add: body'_def n_def)
  have "calculateCRC32 body' \<noteq> calculateCRC32 (bucket_body key bucket)"
    unfolding body body'_def using ys by (intro calculateCRC32_burst) simp_all
  moreover have "unat (calculateCRC32 (bucket_body key bucket)) < 2 ^ 32"
    using unsigned_less [of "calculateCRC32 (bucket_body key bucket)"] by simp
  ultimately have bad: "le_val crc \<noteq> unat (calculateCRC32 body')"
    by (auto simp: crc_def word_unat_eq_iff)
  have "le_val (take 8 (drop 8 (body' @ crc))) = n"
    using count ok lb by (simp add: body'_def [symmetric] bucket_body_def bucket_ok_def n_def)
  then have "FreelistBucket_read mem (xs @ le64 (20 + 8 * n) @ (body' @ crc) @ zs) offset =
      Inl LE_DATASTORE_CORRUPT_FREELIST"
    using FreelistBucket_read_parse [of "body' @ crc" n mem offset xs zs] ok mem lb off bad
    by (simp add: bucket_ok_def crc_def n_def)
  then show ?thesis by (simp add: body'_def crc_def n_def)
qed

text \<open>An element count that points past the buffer is used before the checksum is compared.\<close>

lemma FreelistBucket_read_count:
  assumes "length f \<ge> offset + 8 + s" "le_val (pread f offset 8) = s" "s + 8 < 2 ^ 64" "s + 8 \<le> mem"
    and "le_val (take 8 (drop 8 (pread f (offset + 8) s))) = n" "8 * n < 2 ^ 64" "s < 20 + 8 * n"
  shows "FreelistBucket_read mem f offset = Inl Undefined_Behaviour"
  using assms by (simp add: FreelistBucket_read_def Let_def flb_nelements_def mult.commute)

end
