(* ===== verification/Data_Store.thy ===== *)
theory Data_Store
  imports Freelist_File
begin

text \<open>
  The class \<^verbatim>\<open>DataStore\<close> of \<^verbatim>\<open>src/util/DataStore.cpp\<close>: one file whose space is handed out
  in blocks of a power of two by a buddy allocator. The free blocks are kept in memory, by
  size, and written to a second file when the store is flushed; the first change after
  that invalidates the second file before it touches the lists.

  The two files are their bytes. What the operating system and the file manager answer
  during one operation is the argument \<open>env\<close>: every call that the code checks can fail, a
  write that fails has written a prefix, which is the contract proved for the class
  \<^verbatim>\<open>File\<close>, and every call on a file can find all open files pinned, \<open>full\<close>. A method that
  has to reopen its file then throws \<open>LE_TOO_MANY_OPEN_FILES\<close> before it does anything. An
  \<^verbatim>\<open>openFileObj\<close> has by then opened the file, with its truncation, and unwinding destroys a
  \<^verbatim>\<open>File\<close> that is on no list: \<open>Undefined_Behaviour\<close>, as in the model of the file manager.
\<close>

unbundle bit_operations_syntax

section \<open>State\<close>

record flusher =
  running :: bool
  queued :: "nat sset"

record datastore =
  guid :: nat
  dfile :: "byte list"
  flfile :: "byte list option"
  freelists :: freelists
  frees :: nat
  largestFreeChunk :: nat
  allocatedSize :: nat
  dirty :: bool
  fldirty :: bool
  dsm_flusher :: flusher

datatype file_call =
  Open_data | Open_fl | Fstat | Ftruncate nat | Fsync | Read_data | Write_data | Fl_fstat

datatype fl_reading = Fl_reads | Fl_count_fails | Fl_bucket_fails | Fl_read_full

record ds_env =
  minAllocSize :: nat
  isDebug :: bool
  mem_limit :: nat
  open_data_ok :: bool
  open_fl_ok :: bool
  fstat_ok :: bool
  ftruncate_ok :: "nat \<Rightarrow> bool"
  fsync_ok :: bool
  injected :: bool
  fl_room :: nat
  fl_calls :: nat
  fl_reading :: fl_reading
  write_cut :: "nat option"
  read_ok :: bool
  full :: "file_call \<Rightarrow> bool"

text \<open>\<^verbatim>\<open>DataStoreFlusher::add\<close>\<close>

definition flusher_add :: "nat \<Rightarrow> flusher \<Rightarrow> flusher" where
  "flusher_add ds f = (if running f then f\<lparr>queued := sset_insert ds (queued f)\<rparr> else f)"

definition schedule_flush :: "datastore \<Rightarrow> datastore" where
  "schedule_flush ds = ds\<lparr>dsm_flusher := flusher_add (guid ds) (dsm_flusher ds)\<rparr>"

section \<open>Sizes\<close>

definition roundUpPowerOf2 :: "64 word \<Rightarrow> 64 word" where
  "roundUpPowerOf2 sz =
     (let r = sz - 1;
          r = r OR drop_bit 1 r;
          r = r OR drop_bit 2 r;
          r = r OR drop_bit 4 r;
          r = r OR drop_bit 8 r;
          r = r OR drop_bit 16 r;
          r = r OR drop_bit 32 r
      in r + 1)"

definition roundUp :: "nat \<Rightarrow> nat" where
  "roundUp n = unat (roundUpPowerOf2 (word_of_nat n))"

text \<open>The header in front of every chunk: \<^verbatim>\<open>DiskChunkHeader\<close>.\<close>

definition usedValue :: nat where "usedValue = 0xfeedfacefeedface"
definition freeValue :: nat where "freeValue = 0xdeadbeefdeadbeef"

definition DiskChunkHeader :: "bool \<Rightarrow> nat \<Rightarrow> byte list" where
  "DiskChunkHeader free sz = le64 (if free then freeValue else usedValue) @ le64 sz"

definition hdr_isValid :: "byte list \<Rightarrow> bool" where
  "hdr_isValid hdr \<longleftrightarrow> le_val (take 8 hdr) = usedValue \<or> le_val (take 8 hdr) = freeValue"

definition header_size :: nat where "header_size = 16"

section \<open>The free lists\<close>

text \<open>
  \<open>fl_erase key off fl\<close> removes an offset from its bucket, and the bucket when it becomes
  empty.
\<close>

definition fl_erase :: "nat \<Rightarrow> nat \<Rightarrow> freelists \<Rightarrow> freelists" where
  "fl_erase key off fl =
     (case smap_find fl key of
        None \<Rightarrow> fl
      | Some bucket \<Rightarrow>
          (let bucket' = sset_erase off bucket in
           if bucket' = [] then smap_erase key fl else smap_put key bucket' fl))"

definition isParentBlockFree :: "nat \<Rightarrow> nat \<Rightarrow> freelists \<Rightarrow> bool" where
  "isParentBlockFree off sz fl =
     list_ex (\<lambda>(bucketSize, bucket). off - off mod bucketSize \<in> set bucket) (smap_upper sz fl)"

definition verifyFreelistInternal :: "datastore \<Rightarrow> (unit, datastore) outcome" where
  "verifyFreelistInternal ds =
     (if list_ex (\<lambda>(sz, bucket). list_ex (\<lambda>off. isParentBlockFree off sz (freelists ds)) bucket)
           (freelists ds)
      then throw LE_DATASTORE_CORRUPT_FREELIST ds else ret () ds)"

definition calcLargestFreeChunk :: "datastore \<Rightarrow> datastore" where
  "calcLargestFreeChunk ds =
     ds\<lparr>largestFreeChunk := (case smap_last_key (freelists ds) of None \<Rightarrow> 0 | Some k \<Rightarrow> k)\<rparr>"

text \<open>
  The recursion of \<^verbatim>\<open>searchFreelist\<close> doubles the request until a bucket is found; with no
  larger block free it does not return.
\<close>

partial_function (option) searchFreelist :: "nat \<Rightarrow> freelists \<Rightarrow> (nat, freelists) outcome option" where
  "searchFreelist request fl =
     (case smap_find fl request of
        Some bucket \<Rightarrow>
          Some (if bucket = [] then throw Undefined_Behaviour fl
                else ret (hd bucket) (fl_erase request (hd bucket) fl))
      | None \<Rightarrow>
          Option.bind (searchFreelist (u64 (request * 2)) fl)
            (\<lambda>r. Some (andThen r (\<lambda>off fl'. ret off (fl_insert request (off + request) fl')))))"

text \<open>
  The file is grown by doubling until the block just added is large enough. The lists and
  the size have grown before \<^verbatim>\<open>ftruncate\<close> is called, and stay so when it fails.
\<close>

partial_function (option) makeMoreSpace ::
  "ds_env \<Rightarrow> nat \<Rightarrow> datastore \<Rightarrow> (unit, datastore) outcome option" where
  "makeMoreSpace env request ds =
     (if largestFreeChunk ds < request then
        (let sz = allocatedSize ds;
             ds1 = ds\<lparr>freelists := fl_insert sz sz (freelists ds), largestFreeChunk := sz,
                      allocatedSize := u64 (sz * 2)\<rparr> in
         if full env (Ftruncate (allocatedSize ds1)) then Some (throw LE_TOO_MANY_OPEN_FILES ds1)
         else if ftruncate_ok env (allocatedSize ds1)
         then makeMoreSpace env request (ds1\<lparr>dfile := truncate_to (allocatedSize ds1) (dfile ds1)\<rparr>)
         else Some (throw LE_SYSCALL_ERROR ds1))
      else Some (ret () ds))"

text \<open>
  The end of \<^verbatim>\<open>addToFreelist\<close>: insert the block; a debug build checks the lists at every
  thousandth insertion.
\<close>

definition insertFree :: "bool \<Rightarrow> nat \<Rightarrow> nat \<Rightarrow> datastore \<Rightarrow> (unit, datastore) outcome" where
  "insertFree dbg bucket off ds =
     (let ds1 = ds\<lparr>freelists := fl_insert bucket off (freelists ds)\<rparr> in
      if dbg then
        (let ds2 = ds1\<lparr>frees := frees ds1 + 1\<rparr> in
         if frees ds2 mod 1000 = 0 then verifyFreelistInternal ds2 else ret () ds2)
      else ret () ds1)"

definition buddy_of :: "nat \<Rightarrow> nat \<Rightarrow> int" where
  "buddy_of bucket off =
     (if off mod u64 (bucket * 2) = 0 then int off + int bucket else int off - int bucket)"

definition fl_count :: "freelists \<Rightarrow> nat" where
  "fl_count fl = sum_list (map (\<lambda>e. length (snd e)) fl)"

lemma fl_count_simps [simp]: "fl_count [] = 0" "fl_count (e # fl) = length (snd e) + fl_count fl"
  by (simp_all add: fl_count_def)

lemma fl_count_delete:
  assumes "map_of fl key = Some bucket"
  shows "fl_count (AList.delete key fl) + length bucket \<le> fl_count fl"
proof -
  have le: "fl_count (AList.delete key fl) \<le> fl_count fl" for fl
    by (induction fl) (auto simp: AList.delete_eq)
  from assms show ?thesis
  proof (induction fl)
    case (Cons e fl)
    then show ?case using le [of fl] by (cases e) (auto simp: AList.delete_eq)
  qed simp
qed

lemma fl_count_update:
  "map_of fl key = Some bucket \<Longrightarrow>
   fl_count (AList.update key bucket' fl) + length bucket = fl_count fl + length bucket'"
  by (induction fl) auto

lemma fl_count_erase:
  assumes "smap_find fl key = Some bucket" "off \<in> set bucket"
  shows "fl_count (fl_erase key off fl) < fl_count fl"
proof -
  have b: "length (sset_erase off bucket) < length bucket" by (rule length_sset_erase [OF assms(2)])
  have find: "map_of fl key = Some bucket" using assms(1) by (simp add: smap_find_def)
  then have key: "key \<in> fst ` set fl" by (metis image_eqI fst_conv map_of_SomeD)
  show ?thesis
    using b fl_count_delete [OF find] fl_count_update [OF find, of "sset_erase off bucket"] key assms(1)
    by (auto simp: fl_erase_def smap_erase_def smap_put_def Let_def)
qed

function addToFreelist :: "bool \<Rightarrow> nat \<Rightarrow> nat \<Rightarrow> datastore \<Rightarrow> (unit, datastore) outcome" where
  "addToFreelist dbg bucket off ds =
     (if isParentBlockFree off bucket (freelists ds) then ret () ds
      else if u64 (bucket * 2) = 0 then throw Undefined_Behaviour ds
      else
        (let parent = u64 (bucket * 2); buddy = buddy_of bucket off in
         case smap_find (freelists ds) bucket of
           None \<Rightarrow> insertFree dbg bucket off ds
         | Some b \<Rightarrow>
             if 0 \<le> buddy \<and> nat buddy \<in> set b
             then addToFreelist dbg parent (min off (nat buddy))
                    (ds\<lparr>freelists := fl_erase bucket (nat buddy) (freelists ds)\<rparr>)
             else insertFree dbg bucket off ds))"
  by auto

termination
  by (relation "measure (\<lambda>(dbg, bucket, off, ds). fl_count (freelists ds))")
    (simp_all add: fl_count_erase)

declare addToFreelist.simps [simp del]

section \<open>The free-list file\<close>

text \<open>
  Opening the file truncates it. An error injected for testing strikes between that and
  the write; the result of \<^verbatim>\<open>fsync\<close> is ignored.
\<close>

definition invalidateFreelistFile :: "ds_env \<Rightarrow> datastore \<Rightarrow> (unit, datastore) outcome" where
  "invalidateFreelistFile env ds =
     (if fldirty ds then ret () ds
      else if \<not> open_fl_ok env then throw LE_CANT_OPEN_PATH ds
      else if full env Open_fl then throw Undefined_Behaviour (ds\<lparr>flfile := Some []\<rparr>)
      else if injected env then throw LE_INJECTED_ERROR (ds\<lparr>flfile := Some []\<rparr>)
      else
        (case andThen (fl_writeAll (le64 0) 0 ([], fl_room env, fl_calls env)) (\<lambda>_ c. fl_fsync c) of
           (Inl e, c) \<Rightarrow> throw e (ds\<lparr>flfile := Some (fst c)\<rparr>)
         | (Inr _, c) \<Rightarrow> ret () (schedule_flush (ds\<lparr>flfile := Some (fst c), fldirty := True\<rparr>))))"

definition persistFreelists :: "ds_env \<Rightarrow> datastore \<Rightarrow> (unit, datastore) outcome" where
  "persistFreelists env ds =
     (if \<not> open_fl_ok env then throw LE_CANT_OPEN_PATH ds
      else if full env Open_fl then throw Undefined_Behaviour (ds\<lparr>flfile := Some []\<rparr>)
      else
        (case persist_file (freelists ds) (fl_room env) (fl_calls env) of
           (Inl e, c) \<Rightarrow> throw e (ds\<lparr>flfile := Some (fst c)\<rparr>)
         | (Inr _, c) \<Rightarrow> ret () (ds\<lparr>flfile := Some (fst c), fldirty := False\<rparr>)))"

text \<open>
  \<open>fl_reading\<close> tells what happens to the calls of \<^verbatim>\<open>readAll\<close> on a file that is not empty: the
  one for the number of buckets fails, which nobody catches; one for a bucket fails, which
  the loop catches; one of them finds all open files pinned, which is not a system
  exception (the buckets read by then are lost with the object, whose constructor throws);
  or they give what is in the file.
\<close>

definition readFreelistFromFile :: "ds_env \<Rightarrow> datastore \<Rightarrow> (nat, datastore) outcome" where
  "readFreelistFromFile env ds =
     (case flfile ds of
        None \<Rightarrow> ret 0 ds
      | Some c \<Rightarrow>
          if \<not> open_fl_ok env then ret 0 ds
          else if full env Open_fl then throw Undefined_Behaviour ds
          else if full env Fl_fstat then throw LE_TOO_MANY_OPEN_FILES ds
          else if \<not> fstat_ok env \<or> c = [] then ret 0 ds
          else (case fl_reading env of
                  Fl_count_fails \<Rightarrow> throw LE_PREAD_ERROR ds
                | Fl_bucket_fails \<Rightarrow> ret 0 (ds\<lparr>freelists := []\<rparr>)
                | Fl_read_full \<Rightarrow> throw LE_TOO_MANY_OPEN_FILES ds
                | Fl_reads \<Rightarrow>
                    (case read_file (mem_limit env) c (freelists ds) of
                       (Inl e, fl) \<Rightarrow> throw e (ds\<lparr>freelists := fl\<rparr>)
                     | (Inr n, fl) \<Rightarrow> ret n (ds\<lparr>freelists := fl\<rparr>))))"

definition removeFreelistFile :: "datastore \<Rightarrow> datastore" where
  "removeFreelistFile ds = ds\<lparr>flfile := None\<rparr>"

section \<open>Construction\<close>

definition initializeFreelist :: "ds_env \<Rightarrow> datastore \<Rightarrow> (unit, datastore) outcome" where
  "initializeFreelist env ds =
     (if full env Fstat then throw LE_TOO_MANY_OPEN_FILES ds
      else if \<not> fstat_ok env then throw LE_SYSCALL_ERROR ds
      else
        (let sz = roundUp (length (dfile ds)) in
         if sz < minAllocSize env
         then
           (let sz' = roundUp (minAllocSize env);
                ds1 = ds\<lparr>allocatedSize := sz', freelists := fl_insert sz' 0 (freelists ds)\<rparr> in
            if full env (Ftruncate sz') then throw LE_TOO_MANY_OPEN_FILES ds1
            else if ftruncate_ok env sz'
            then ret () (calcLargestFreeChunk (ds1\<lparr>dfile := truncate_to sz' (dfile ds1)\<rparr>))
            else throw LE_SYSCALL_ERROR ds1)
         else
           andThen (readFreelistFromFile env (ds\<lparr>allocatedSize := sz\<rparr>))
             (\<lambda>_ ds1. ret () (calcLargestFreeChunk ds1))))"

text \<open>
  The constructor, on the two files as they are found; \<^verbatim>\<open>O_CREAT\<close> makes a missing data file
  an empty one.
\<close>

definition DataStore ::
  "ds_env \<Rightarrow> nat \<Rightarrow> byte list option \<Rightarrow> byte list option \<Rightarrow> flusher \<Rightarrow> (unit, datastore) outcome" where
  "DataStore env gid f flf flsh =
     (let ds = \<lparr>guid = gid, dfile = (case f of None \<Rightarrow> [] | Some bs \<Rightarrow> bs), flfile = flf, freelists = [],
                frees = 0, largestFreeChunk = 0, allocatedSize = 0, dirty = False, fldirty = False,
                dsm_flusher = flsh\<rparr> in
      if \<not> open_data_ok env then throw LE_CANT_OPEN_FILE ds
      else if full env Open_data then throw Undefined_Behaviour ds
      else initializeFreelist env ds)"

section \<open>Operations\<close>

definition requiredSize :: "ds_env \<Rightarrow> nat \<Rightarrow> nat" where
  "requiredSize env requestedSize =
     (let n = u64 (requestedSize + header_size) in
      roundUp (if n < minAllocSize env then minAllocSize env else n))"

text \<open>The result is the offset with the allocated size.\<close>

definition allocateSpace ::
  "ds_env \<Rightarrow> nat \<Rightarrow> datastore \<Rightarrow> (nat \<times> nat, datastore) outcome option" where
  "allocateSpace env requestedSize ds =
     bindO (Some (invalidateFreelistFile env ds)) (\<lambda>_ ds1.
       let req = requiredSize env requestedSize in
       bindO (if largestFreeChunk ds1 < req then makeMoreSpace env req ds1 else Some (ret () ds1)) (\<lambda>_ ds2.
         case searchFreelist req (freelists ds2) of
           None \<Rightarrow> None
         | Some (Inl e, fl) \<Rightarrow> Some (throw e (ds2\<lparr>freelists := fl\<rparr>))
         | Some (Inr off, fl) \<Rightarrow>
             Some (ret (off, req) (calcLargestFreeChunk (ds2\<lparr>freelists := fl\<rparr>)))))"

definition freeChunk :: "ds_env \<Rightarrow> nat \<Rightarrow> nat \<Rightarrow> datastore \<Rightarrow> (unit, datastore) outcome" where
  "freeChunk env off allocated ds =
     andThen (invalidateFreelistFile env ds) (\<lambda>_ ds1.
       andThen (addToFreelist (isDebug env) allocated off ds1) (\<lambda>_ ds2. ret () (calcLargestFreeChunk ds2)))"

definition writeData :: "ds_env \<Rightarrow> nat \<Rightarrow> byte list \<Rightarrow> nat \<Rightarrow> datastore \<Rightarrow> (unit, datastore) outcome" where
  "writeData env off buffer allocated ds =
     (let bs = DiskChunkHeader False allocated @ buffer in
      if full env Write_data then throw LE_TOO_MANY_OPEN_FILES ds
      else case write_cut env of
        Some k \<Rightarrow>
          throw LE_PWRITE_ERROR (ds\<lparr>dfile := pwrite (dfile ds) off (take (min k (length bs - 1)) bs)\<rparr>)
      | None \<Rightarrow>
          (let ds1 = ds\<lparr>dfile := pwrite (dfile ds) off bs\<rparr> in
           if \<not> dirty ds1 then ret () (schedule_flush (ds1\<lparr>dirty := True\<rparr>)) else ret () ds1))"

definition readData :: "ds_env \<Rightarrow> nat \<Rightarrow> nat \<Rightarrow> datastore \<Rightarrow> (byte list, datastore) outcome" where
  "readData env off len ds =
     (if full env Read_data then throw LE_TOO_MANY_OPEN_FILES ds
      else if \<not> read_ok env \<or> length (dfile ds) < off + header_size + len then throw LE_PREAD_ERROR ds
      else if \<not> hdr_isValid (pread (dfile ds) off header_size) then throw LE_DATASTORE_CHUNK_CORRUPTED ds
      else ret (pread (dfile ds) (off + header_size) len) ds)"

definition flush :: "ds_env \<Rightarrow> datastore \<Rightarrow> (unit, datastore) outcome" where
  "flush env ds =
     andThen
       (if dirty ds
        then (if full env Fsync then throw LE_TOO_MANY_OPEN_FILES ds
              else if \<not> fsync_ok env then throw LE_OPERATION_FAILED ds else ret () (ds\<lparr>dirty := False\<rparr>))
        else ret () ds)
       (\<lambda>_ ds1. if fldirty ds1 then persistFreelists env ds1 else ret () ds1)"

text \<open>The sizes: of the file, and the number of bytes in free blocks.\<close>

definition free_bytes :: "freelists \<Rightarrow> nat" where
  "free_bytes fl = sum_list (map (\<lambda>(sz, bucket). sum_list (map (\<lambda>_. sz) bucket)) fl)"

definition getSizes :: "ds_env \<Rightarrow> datastore \<Rightarrow> (nat \<times> nat, datastore) outcome" where
  "getSizes env ds =
     (if full env Fstat then throw LE_TOO_MANY_OPEN_FILES ds
      else if \<not> fstat_ok env then throw LE_SYSCALL_ERROR ds
      else if length (dfile ds) \<noteq> allocatedSize ds then throw LE_ASSERTION_FAILED ds
      else ret (allocatedSize ds, free_bytes (freelists ds)) ds)"

definition verifyFreelist :: "datastore \<Rightarrow> (unit, datastore) outcome" where
  "verifyFreelist ds = verifyFreelistInternal ds"

end
