(* ===== verification/Buddy_Space.thy ===== *)
theory Buddy_Space
  imports Data_Store
begin

text \<open>
  The geometry of the allocator of \<^verbatim>\<open>DataStore.cpp\<close>: rounding up to a power of two, the free
  lists as a set of blocks, free blocks and blocks in use as a partition of the file, and
  what taking a block out of the free lists and giving one back do to it.
\<close>

section \<open>Rounding up\<close>

text \<open>After the step with shift \<open>m\<close>, a bit is set if one of the next \<open>2 * m\<close> bits was.\<close>

definition smeared :: "nat \<Rightarrow> 64 word \<Rightarrow> 64 word \<Rightarrow> bool" where
  "smeared m x y \<longleftrightarrow> (\<forall>i. bit y i \<longleftrightarrow> (\<exists>j < m. bit x (i + j)))"

lemma smeared_1: "smeared 1 x x"
  by (simp add: smeared_def)

lemma smeared_double:
  assumes "smeared m x y"
  shows "smeared (2 * m) x (y OR drop_bit m y)"
proof -
  have "(\<exists>j < 2 * m. bit x (i + j)) \<longleftrightarrow> (\<exists>j < m. bit x (i + j)) \<or> (\<exists>j < m. bit x (m + i + j))" for i
  proof
    assume "\<exists>j < 2 * m. bit x (i + j)"
    then obtain j where j: "j < 2 * m" "bit x (i + j)" by blast
    show "(\<exists>j < m. bit x (i + j)) \<or> (\<exists>j < m. bit x (m + i + j))"
    proof (cases "j < m")
      case False
      then have "bit x (m + i + (j - m))" "j - m < m" using j by (simp_all add: algebra_simps)
      then show ?thesis by blast
    qed (use j in blast)
  next
    assume "(\<exists>j < m. bit x (i + j)) \<or> (\<exists>j < m. bit x (m + i + j))"
    then show "\<exists>j < 2 * m. bit x (i + j)"
    proof
      assume "\<exists>j < m. bit x (m + i + j)"
      then obtain j where "j < m" "bit x (m + i + j)" by blast
      then have "m + j < 2 * m" "bit x (i + (m + j))" by (simp_all add: algebra_simps)
      then show ?thesis by blast
    qed (use trans_less_add1 in fastforce)
  qed
  then show ?thesis
    using assms by (simp add: smeared_def bit_or_iff bit_drop_bit_eq)
qed

lemma smeared_all:
  "smeared 64 x y \<Longrightarrow> bit y i \<longleftrightarrow> (\<exists>j. bit x (i + j))"
proof -
  assume "smeared 64 x y"
  moreover have "j < 64" if "bit x (i + j)" for j using bit_imp_le_length [OF that] by simp
  ultimately show ?thesis by (auto simp: smeared_def)
qed

lemma roundUpPowerOf2_smeared: "\<exists>y. smeared 64 (x - 1) y \<and> roundUpPowerOf2 x = y + 1"
proof -
  note double = smeared_double
  have "smeared 64 (x - 1) (roundUpPowerOf2 x - 1)"
    unfolding roundUpPowerOf2_def Let_def add_diff_cancel_right'
    using double [OF double [OF double [OF double [OF double [OF double [OF smeared_1]]]]], of "x - 1"]
    by simp
  then show ?thesis by (intro exI [of _ "roundUpPowerOf2 x - 1"]) simp
qed

lemma roundUp_correct:
  assumes "1 \<le> n" "n \<le> 2 ^ 63"
  shows "pow2 (roundUp n) \<and> n \<le> roundUp n \<and> roundUp n < 2 * n"
proof (cases "n = 1")
  case True
  obtain y where y: "smeared 64 0 y" "roundUpPowerOf2 1 = y + 1" using roundUpPowerOf2_smeared [of 1] by auto
  have "y = 0" by (rule bit_word_eqI) (simp add: smeared_all [OF y(1)])
  then have "roundUp 1 = 1" using y(2) by (simp add: roundUp_def)
  then show ?thesis using True pow2_power [of 0] by simp
next
  case False
  define m where "m = n - 1"
  have m: "0 < m" "m < 2 ^ 63" using assms False by (auto simp: m_def)
  define x :: "64 word" where "x = word_of_nat m"
  have x: "unat x = m" using m by (simp add: x_def unat_of_nat take_bit_nat_eq_self)
  have "word_of_nat n - 1 = x" using assms(1) by (simp add: x_def m_def of_nat_diff)
  then obtain y where y: "smeared 64 x y" "roundUpPowerOf2 (word_of_nat n) = y + 1"
    using roundUpPowerOf2_smeared [of "word_of_nat n"] by auto
  obtain k where k: "2 ^ k \<le> m" "m < 2 ^ Suc k" using ex_power_ivl1 [of 2 m] m(1) by auto
  have k63: "k < 63"
  proof (rule ccontr)
    assume "\<not> k < 63"
    then have "(2::nat) ^ 63 \<le> 2 ^ k" by (intro power_increasing) simp_all
    then show False using k(1) m(2) by linarith
  qed
  have bx: "bit x i \<longleftrightarrow> bit m i" for i
    by (simp add: x [symmetric] bit_unsigned_iff)
  have "m div 2 ^ k = 1" using k by (intro div_nat_eqI) simp_all
  then have top: "bit m k" by (simp add: bit_iff_odd)
  have above: "\<not> bit m i" if "k < i" for i
  proof -
    have "(2::nat) ^ Suc k \<le> 2 ^ i" using that by (intro power_increasing) simp_all
    then have "m div 2 ^ i = 0" using k(2) by simp
    then show ?thesis by (simp add: bit_iff_odd)
  qed
  have "y = mask (Suc k)"
  proof (rule bit_word_eqI)
    fix i assume "i < LENGTH(64)"
    have "bit y i \<longleftrightarrow> (\<exists>j. bit m (i + j))" by (simp add: smeared_all [OF y(1)] bx)
    also have "\<dots> \<longleftrightarrow> i \<le> k"
    proof
      assume "\<exists>j. bit m (i + j)"
      then show "i \<le> k" using above by (metis le_add1 linorder_not_less order_less_le_trans)
    next
      assume "i \<le> k"
      then have "bit m (i + (k - i))" using top by simp
      then show "\<exists>j. bit m (i + j)" by blast
    qed
    finally show "bit y i = bit (mask (Suc k) :: 64 word) i"
      using \<open>i < LENGTH(64)\<close> by (simp add: bit_mask_iff less_Suc_eq_le)
  qed
  then have "roundUpPowerOf2 (word_of_nat n) = 2 ^ Suc k" using y(2) by (simp add: mask_eq_exp_minus_1)
  moreover have "(2::nat) ^ Suc k < 2 ^ 64" using k63 by (intro power_strict_increasing) simp_all
  then have "unat (word_of_nat (2 ^ Suc k) :: 64 word) = 2 ^ Suc k"
    by (simp only: unat_of_nat len_num1 len_bit0 len_bit1 take_bit_nat_eq_self) simp
  ultimately have "roundUp n = 2 ^ Suc k" by (simp add: roundUp_def)
  then show ?thesis using k by (auto simp: m_def)
qed

lemma roundUp_wraps:
  assumes "n = 0 \<or> 2 ^ 63 < n" "n < 2 ^ 64"
  shows "roundUp n = 0"
proof -
  define x :: "64 word" where "x = word_of_nat n - 1"
  obtain y where y: "smeared 64 x y" "roundUpPowerOf2 (word_of_nat n) = y + 1"
    using roundUpPowerOf2_smeared [of "word_of_nat n"] by (auto simp: x_def)
  have "unat x = (if n = 0 then 2 ^ 64 - 1 else n - 1)"
  proof (cases "n = 0")
    case False
    define m where "m = n - 1"
    have "x = word_of_nat m" using False by (simp add: x_def m_def of_nat_diff)
    moreover have "unat (word_of_nat m :: 64 word) = m"
      using assms(2) by (simp add: m_def unat_of_nat take_bit_nat_eq_self del: of_nat_diff)
    ultimately show ?thesis using False by (simp add: m_def del: of_nat_diff)
  qed (simp add: x_def unsigned_minus_1_eq_mask mask_eq_exp_minus_1)
  then have "unat x div 2 ^ 63 = 1" using assms by (intro div_nat_eqI) auto
  then have "bit (unat x) 63" by (simp add: bit_iff_odd)
  then have top: "bit x 63" by (simp add: bit_unsigned_iff)
  have "y = - 1"
  proof (rule bit_word_eqI)
    fix i assume i: "i < LENGTH(64)"
    then have "bit x (i + (63 - i))" using top by simp
    then have "bit y i" using smeared_all [OF y(1), of i] by blast
    then show "bit y i = bit (- 1 :: 64 word) i" using i by simp
  qed
  then show ?thesis using y(2) by (simp add: roundUp_def)
qed

lemma roundUp_pow2:
  assumes "pow2 n" "n \<le> 2 ^ 63"
  shows "roundUp n = n"
proof (rule ccontr)
  have n: "pow2 (roundUp n)" "n \<le> roundUp n" "roundUp n < 2 * n"
    using roundUp_correct [of n] assms pow2_pos [OF assms(1)] by simp_all
  assume "roundUp n \<noteq> n"
  then have "2 * n \<le> roundUp n" using n assms(1) by (intro pow2_double_le) simp_all
  then show False using n(3) by simp
qed

section \<open>The free blocks\<close>

definition fl_blocks :: "freelists \<Rightarrow> block set" where
  "fl_blocks fl = {(sz, off). off \<in> set (fl_bucket sz fl)}"

definition fl_ok :: "freelists \<Rightarrow> bool" where
  "fl_ok fl \<longleftrightarrow> smap_ok fl \<and> (\<forall>sz bucket. smap_find fl sz = Some bucket \<longrightarrow> bucket \<noteq> [] \<and> sset_ok bucket)"

lemma fl_ok_smap [simp]: "fl_ok fl \<Longrightarrow> smap_ok fl"
  by (simp add: fl_ok_def)

lemma fl_blocks_iff: "(sz, off) \<in> fl_blocks fl \<longleftrightarrow> (\<exists>bucket. smap_find fl sz = Some bucket \<and> off \<in> set bucket)"
  by (cases "smap_find fl sz") (auto simp: fl_blocks_def fl_bucket_def)

lemma fl_ok_Nil [simp]: "fl_ok []" and fl_blocks_Nil [simp]: "fl_blocks [] = {}"
  by (auto simp: fl_ok_def fl_blocks_def fl_bucket_def smap_find_def)

lemma fl_bucket_insert:
  "fl_bucket s (fl_insert sz off fl) = (if s = sz then sset_insert off (fl_bucket sz fl) else fl_bucket s fl)"
  by (simp add: fl_insert_def fl_bucket_def smap_find_put)

lemma fl_bucket_erase:
  "fl_bucket s (fl_erase sz off fl) = (if s = sz then sset_erase off (fl_bucket sz fl) else fl_bucket s fl)"
proof (cases "smap_find fl sz")
  case None
  then show ?thesis by (simp add: fl_erase_def fl_bucket_def sset_erase_def)
next
  case (Some bucket)
  then show ?thesis
    by (cases "sset_erase off bucket = []")
      (simp_all add: fl_erase_def fl_bucket_def Let_def smap_find_put smap_find_erase)
qed

lemma fl_blocks_insert [simp]: "fl_blocks (fl_insert sz off fl) = insert (sz, off) (fl_blocks fl)"
  by (auto simp: fl_blocks_def fl_bucket_insert split: if_splits)

lemma fl_ok_insert [simp]: "fl_ok fl \<Longrightarrow> fl_ok (fl_insert sz off fl)"
  by (auto simp: fl_ok_def fl_insert_def fl_bucket_def smap_find_put smap_ok_put split: option.splits)

lemma fl_ok_erase [simp]: "fl_ok fl \<Longrightarrow> fl_ok (fl_erase sz off fl)"
  by (auto simp: fl_ok_def fl_erase_def Let_def smap_find_put smap_find_erase smap_ok_put smap_ok_erase
      split: option.splits)

lemma fl_blocks_erase [simp]: "fl_blocks (fl_erase sz off fl) = fl_blocks fl - {(sz, off)}"
  by (auto simp: fl_blocks_def fl_bucket_erase split: if_splits)

lemma isParentBlockFree_iff:
  assumes "fl_ok fl"
  shows "isParentBlockFree off sz fl \<longleftrightarrow> (\<exists>s > sz. (s, off - off mod s) \<in> fl_blocks fl)"
proof
  assume "isParentBlockFree off sz fl"
  then obtain s b where "(s, b) \<in> set (smap_upper sz fl)" "off - off mod s \<in> set b"
    by (auto simp: isParentBlockFree_def list_ex_iff)
  then show "\<exists>s > sz. (s, off - off mod s) \<in> fl_blocks fl"
    using assms by (auto simp: smap_upper_iff fl_blocks_iff)
next
  assume "\<exists>s > sz. (s, off - off mod s) \<in> fl_blocks fl"
  then obtain s b where "(s, b) \<in> set (smap_upper sz fl)" "off - off mod s \<in> set b"
    using assms by (auto simp: smap_upper_iff fl_blocks_iff)
  then show "isParentBlockFree off sz fl" by (force simp: isParentBlockFree_def list_ex_iff)
qed

lemma fl_entry_iff: "fl_ok fl \<Longrightarrow> (sz, b) \<in> set fl \<longleftrightarrow> smap_find fl sz = Some b"
  using smap.mem_iter_iff [of fl sz b] by simp

lemma smap_last_key_None [simp]: "smap_last_key fl = None \<longleftrightarrow> fl = []"
  by (simp add: smap_last_key_def)

lemma fl_last_key:
  assumes "fl_ok fl" "smap_last_key fl = Some k"
  shows "\<exists>off. (k, off) \<in> fl_blocks fl" "(sz, off) \<in> fl_blocks fl \<Longrightarrow> sz \<le> k"
proof -
  have ne: "fl \<noteq> []" and k: "k = fst (last fl)" using assms(2) by (auto simp: smap_last_key_def split: if_splits)
  have "smap_find fl k = Some (snd (last fl))"
    using ne k fl_entry_iff [OF assms(1), of k "snd (last fl)"] by simp
  then show "\<exists>off. (k, off) \<in> fl_blocks fl"
    using assms(1) by (auto simp: fl_ok_def fl_blocks_iff) (metis list.set_sel(1))
  show "sz \<le> k" if "(sz, off) \<in> fl_blocks fl"
    using that smap.iter_last_key [of fl sz] assms(1) ne k by (auto simp: fl_blocks_iff)
qed

lemma fl_blocks_empty_iff: "fl_ok fl \<Longrightarrow> fl_blocks fl = {} \<longleftrightarrow> fl = []"
proof
  assume ok: "fl_ok fl" and e: "fl_blocks fl = {}"
  show "fl = []"
  proof (rule ccontr)
    assume "fl \<noteq> []"
    then show False using fl_last_key(1) [OF ok, of "fst (last fl)"] e by (simp add: smap_last_key_def)
  qed
qed simp

lemma fl_eqI: "fl_ok fl \<Longrightarrow> fl_ok fl' \<Longrightarrow> fl_blocks fl = fl_blocks fl' \<Longrightarrow> fl = fl'"
proof (rule smap_eqI)
  assume ok: "fl_ok fl" "fl_ok fl'" and eq: "fl_blocks fl = fl_blocks fl'"
  show "smap_find fl = smap_find fl'"
  proof
    fix sz
    have same: "set (fl_bucket sz fl) = set (fl_bucket sz fl')" using eq by (auto simp: fl_blocks_def)
    have "sset_ok (fl_bucket sz fl)" "sset_ok (fl_bucket sz fl')"
      using ok by (auto simp: fl_ok_def fl_bucket_def split: option.splits)
    then have "fl_bucket sz fl = fl_bucket sz fl'" using same sset_eqI by blast
    then show "smap_find fl sz = smap_find fl' sz"
      using ok by (auto simp: fl_ok_def fl_bucket_def split: option.splits)
  qed
qed simp_all

section \<open>Space\<close>

text \<open>
  \<open>space_ok A F L\<close>: the free blocks \<open>F\<close> and the blocks in use \<open>L\<close> are aligned blocks inside
  of the first \<open>A\<close> bytes, and no two of them overlap.
\<close>

definition blocks_wf :: "nat \<Rightarrow> block set \<Rightarrow> bool" where
  "blocks_wf A S \<longleftrightarrow>
     (\<forall>b \<in> S. aligned b \<and> extent b \<subseteq> {..<A}) \<and>
     (\<forall>b \<in> S. \<forall>c \<in> S. b \<noteq> c \<longrightarrow> extent b \<inter> extent c = {})"

definition space_ok :: "nat \<Rightarrow> block set \<Rightarrow> block set \<Rightarrow> bool" where
  "space_ok A F L \<longleftrightarrow> blocks_wf A (F \<union> L) \<and> F \<inter> L = {}"

definition cover :: "block set \<Rightarrow> nat set" where
  "cover S = (\<Union>b \<in> S. extent b)"

lemma cover_simps [simp]:
  "cover {} = {}" "cover (insert b S) = extent b \<union> cover S" "cover (S \<union> T) = cover S \<union> cover T"
  by (auto simp: cover_def)

lemma cover_Diff:
  assumes "blocks_wf A S" "b \<in> S"
  shows "cover (S - {b}) = cover S - extent b"
  using assms unfolding blocks_wf_def cover_def by blast

lemma aligned_pos [simp]: "aligned (sz, off) \<Longrightarrow> 0 < sz"
  by (simp add: aligned_def)

lemma blocks_wf_subset: "blocks_wf A S \<Longrightarrow> T \<subseteq> S \<Longrightarrow> blocks_wf A T"
  unfolding blocks_wf_def by blast

lemma blocks_wf_eq:
  assumes "blocks_wf A S" "b \<in> S" "c \<in> S" "x \<in> extent b" "x \<in> extent c"
  shows "b = c"
proof (rule ccontr)
  assume "b \<noteq> c"
  then have "extent b \<inter> extent c = {}" using assms(1-3) unfolding blocks_wf_def by simp
  then show False using assms(4,5) by blast
qed

lemma blocks_wf_mono: "blocks_wf A S \<Longrightarrow> A \<le> B \<Longrightarrow> blocks_wf B S"
  unfolding blocks_wf_def by (meson lessThan_subset_iff subset_trans)

lemma blocks_wf_block:
  assumes "blocks_wf A S" "(sz, off) \<in> S"
  shows "aligned (sz, off)" "off + sz \<le> A" "0 < sz"
proof -
  show al: "aligned (sz, off)" and "0 < sz" using assms unfolding blocks_wf_def by auto
  have "off + sz - 1 \<in> extent (sz, off)" using aligned_pos [OF al] by (simp add: mem_extent)
  then have "off + sz - 1 < A" using assms unfolding blocks_wf_def by blast
  then show "off + sz \<le> A" by simp
qed

lemma blocks_wf_insert:
  assumes "blocks_wf A S" "aligned b" "extent b \<subseteq> {..<A}" "extent b \<inter> cover S = {}"
  shows "blocks_wf A (insert b S)"
  using assms unfolding blocks_wf_def cover_def by blast

lemma extent_double: "extent (sz, off) \<subseteq> extent (2 * sz, off)" "extent (sz, off + sz) \<subseteq> extent (2 * sz, off)"
  by (auto simp: extent_def)

lemma blocks_wf_split:
  assumes wf: "blocks_wf A S" and b: "(2 * sz, off) \<in> S"
  shows "blocks_wf A (insert (sz, off) (insert (sz, off + sz) (S - {(2 * sz, off)})))"
proof -
  have al: "aligned (2 * sz, off)" and sub: "extent (2 * sz, off) \<subseteq> {..<A}"
    using wf b unfolding blocks_wf_def by auto
  have "pow2 sz"
  proof -
    obtain k where "2 * sz = 2 ^ k" using al by (auto simp: aligned_def pow2_def)
    then show ?thesis by (cases k) (auto simp: pow2_def)
  qed
  moreover have "2 * sz dvd off" using al by (simp add: aligned_def)
  ultimately have al2: "aligned (sz, off)" "aligned (sz, off + sz)"
    by (auto simp: aligned_def dvd_mult_right intro: dvd_add dvd_trans [of sz "2 * sz" off])
  have wf': "blocks_wf A (S - {(2 * sz, off)})" by (rule blocks_wf_subset [OF wf]) blast
  have dis: "extent (2 * sz, off) \<inter> cover (S - {(2 * sz, off)}) = {}"
    using cover_Diff [OF wf b] by blast
  have "blocks_wf A (insert (sz, off + sz) (S - {(2 * sz, off)}))"
    using wf' al2(2) by (rule blocks_wf_insert) (use sub dis extent_double [of sz off] in blast)+
  then show ?thesis
  proof (rule blocks_wf_insert [OF _ al2(1)])
    show "extent (sz, off) \<subseteq> {..<A}" using sub extent_double(1) [of sz off] by blast
    have "extent (sz, off) \<inter> cover (S - {(2 * sz, off)}) = {}" using dis extent_double(1) [of sz off] by blast
    then show "extent (sz, off) \<inter> cover (insert (sz, off + sz) (S - {(2 * sz, off)})) = {}"
      using extent_halves_disjoint [of sz off] by (simp add: Int_Un_distrib)
  qed
qed

lemma blocks_wf_join:
  assumes wf: "blocks_wf A S" and b: "(sz, off) \<in> S" "(sz, off + sz) \<in> S" and al: "2 * sz dvd off"
  shows "blocks_wf A (insert (2 * sz, off) (S - {(sz, off), (sz, off + sz)}))"
proof (rule blocks_wf_insert)
  show "blocks_wf A (S - {(sz, off), (sz, off + sz)})" by (rule blocks_wf_subset [OF wf]) blast
  show "aligned (2 * sz, off)" using wf b(1) al unfolding blocks_wf_def by (auto simp: aligned_def)
  show "extent (2 * sz, off) \<subseteq> {..<A}"
    using wf b unfolding blocks_wf_def extent_split by blast
  show "extent (2 * sz, off) \<inter> cover (S - {(sz, off), (sz, off + sz)}) = {}"
    using wf b unfolding blocks_wf_def extent_split cover_def by blast
qed

lemma blocks_wf_grow:
  assumes "blocks_wf A S" "pow2 A"
  shows "blocks_wf (2 * A) (insert (A, A) S)"
proof (rule blocks_wf_insert)
  show "blocks_wf (2 * A) S" using assms(1) by (rule blocks_wf_mono) simp
  show "aligned (A, A)" using assms(2) by (simp add: aligned_def)
  show "extent (A, A) \<subseteq> {..<2 * A}" by (auto simp: extent_def)
  have "cover S \<subseteq> {..<A}" using assms(1) unfolding blocks_wf_def cover_def by blast
  then show "extent (A, A) \<inter> cover S = {}" by (auto simp: extent_def)
qed

text \<open>The moves of the allocator.\<close>

lemma space_take:
  assumes "space_ok A F L" "b \<in> F"
  shows "space_ok A (F - {b}) (insert b L)" "b \<notin> L" "cover (F - {b}) \<union> extent b = cover F"
    "cover (F - {b}) \<inter> extent b = {}"
proof -
  have "F - {b} \<union> insert b L = F \<union> L" using assms(2) by blast
  then show "space_ok A (F - {b}) (insert b L)" using assms by (auto simp: space_ok_def)
  show "b \<notin> L" using assms by (auto simp: space_ok_def)
  have wf: "blocks_wf A F" using assms(1) blocks_wf_subset by (auto simp: space_ok_def)
  then show "cover (F - {b}) \<inter> extent b = {}" using cover_Diff [OF wf assms(2)] by blast
  show "cover (F - {b}) \<union> extent b = cover F" using assms(2) by (auto simp: cover_def)
qed

lemma space_put:
  assumes "space_ok A F (insert b L)" "b \<notin> L"
  shows "space_ok A (insert b F) L"
  using assms by (auto simp: space_ok_def)

lemma blocks_wf_notin:
  assumes "blocks_wf A S" "b \<in> S" "c \<noteq> b" "extent c \<subseteq> extent b" "extent c \<noteq> {}"
  shows "c \<notin> S"
  using assms unfolding blocks_wf_def by blast

lemma space_split:
  assumes ok: "space_ok A F (insert (2 * sz, off) L)" and new: "(2 * sz, off) \<notin> L"
  shows "space_ok A (insert (sz, off + sz) F) (insert (sz, off) L)" "(sz, off) \<notin> L"
proof -
  define S where "S = F \<union> insert (2 * sz, off) L"
  have wf: "blocks_wf A S" using ok by (simp add: space_ok_def S_def)
  have b: "(2 * sz, off) \<in> S" by (simp add: S_def)
  have pos: "0 < sz" using blocks_wf_block(3) [OF wf b] by simp
  have nin: "(sz, off) \<notin> S" "(sz, off + sz) \<notin> S"
    using blocks_wf_notin [OF wf b] extent_double [of sz off] pos by auto
  have F: "(2 * sz, off) \<notin> F" using ok by (auto simp: space_ok_def)
  have "insert (sz, off) (insert (sz, off + sz) (S - {(2 * sz, off)})) =
      insert (sz, off + sz) F \<union> insert (sz, off) L"
    using new F by (auto simp: S_def)
  moreover have "insert (sz, off + sz) F \<inter> insert (sz, off) L = {}"
    using nin ok pos by (auto simp: space_ok_def S_def)
  ultimately show "space_ok A (insert (sz, off + sz) F) (insert (sz, off) L)"
    using blocks_wf_split [OF wf b] by (simp add: space_ok_def)
  show "(sz, off) \<notin> L" using nin by (simp add: S_def)
qed

lemma space_join:
  assumes ok: "space_ok A F (insert b L)" and new: "b \<notin> L" and c: "c \<in> F"
    and bc: "{b, c} = {(sz, off), (sz, off + sz)}" "2 * sz dvd off"
  shows "space_ok A (F - {c}) (insert (2 * sz, off) L)" "(2 * sz, off) \<notin> L"
proof -
  define S where "S = F \<union> insert b L"
  have wf: "blocks_wf A S" using ok by (simp add: space_ok_def S_def)
  have in_S: "b \<in> S" "c \<in> S" using c by (auto simp: S_def)
  have "{b, c} \<subseteq> S" using in_S by simp
  then have halves: "(sz, off) \<in> S" "(sz, off + sz) \<in> S" unfolding bc(1) by simp_all
  have pos: "0 < sz" using blocks_wf_block(3) [OF wf halves(1)] .
  have nin: "(2 * sz, off) \<notin> S"
  proof
    assume "(2 * sz, off) \<in> S"
    then have "(sz, off) \<notin> S"
      using blocks_wf_notin [OF wf, of "(2 * sz, off)" "(sz, off)"] extent_double [of sz off] pos by simp
    then show False using halves by blast
  qed
  have bF: "b \<notin> F" "c \<notin> L" using ok c new by (auto simp: space_ok_def)
  have "S - {b, c} = (F - {c}) \<union> L" using bF new by (auto simp: S_def)
  then have "S - {(sz, off), (sz, off + sz)} = (F - {c}) \<union> L" unfolding bc(1) .
  then have "F - {c} \<union> insert (2 * sz, off) L = insert (2 * sz, off) (S - {(sz, off), (sz, off + sz)})" by simp
  moreover have "(F - {c}) \<inter> insert (2 * sz, off) L = {}"
    using nin ok by (auto simp: space_ok_def S_def)
  ultimately show "space_ok A (F - {c}) (insert (2 * sz, off) L)"
    using blocks_wf_join [OF wf halves bc(2)] by (simp add: space_ok_def)
  show "(2 * sz, off) \<notin> L" using nin by (simp add: S_def)
qed

lemma space_grow:
  assumes "space_ok A F L" "pow2 A"
  shows "space_ok (2 * A) (insert (A, A) F) L"
proof -
  have "(A, A) \<notin> F \<union> L"
    using assms(1) pow2_pos [OF assms(2)] blocks_wf_block(2) [of A "F \<union> L" A A]
    by (auto simp: space_ok_def)
  then show ?thesis
    using blocks_wf_grow [of A "F \<union> L"] assms by (simp add: space_ok_def)
qed

section \<open>The allocator on the free lists\<close>

lemma no_parent_block:
  assumes wf: "blocks_wf A S" and b: "(sz, off) \<in> S" and s: "sz < s"
  shows "(s, off - off mod s) \<notin> S"
proof
  assume p: "(s, off - off mod s) \<in> S"
  have "off \<in> extent (sz, off)" using blocks_wf_block(3) [OF wf b] by (simp add: mem_extent)
  moreover have "off mod s < s" "off mod s \<le> off" using s by simp_all
  then have "off \<in> extent (s, off - off mod s)" unfolding mem_extent by linarith
  ultimately have "(sz, off) = (s, off - off mod s)" using blocks_wf_eq [OF wf b p] by blast
  then show False using s by simp
qed

lemma verifyFreelist_ok:
  assumes "fl_ok (freelists ds)" "blocks_wf A (fl_blocks (freelists ds))"
  shows "verifyFreelistInternal ds = ret () ds"
proof -
  have "\<not> isParentBlockFree off sz (freelists ds)" if "(sz, bucket) \<in> set (freelists ds)" "off \<in> set bucket"
    for sz bucket off
  proof -
    have "(sz, off) \<in> fl_blocks (freelists ds)"
      using that fl_entry_iff [OF assms(1)] by (auto simp: fl_blocks_iff)
    then show ?thesis using no_parent_block [OF assms(2)] isParentBlockFree_iff [OF assms(1)] by blast
  qed
  then show ?thesis by (auto simp: verifyFreelistInternal_def list_ex_iff)
qed

lemma searchFreelist_found:
  assumes "fl_ok fl" "smap_find fl r = Some bucket"
  shows "searchFreelist r fl = Some (ret (hd bucket) (fl_erase r (hd bucket) fl))"
    "(r, hd bucket) \<in> fl_blocks fl"
proof -
  have "bucket \<noteq> []" using assms by (auto simp: fl_ok_def)
  then show "searchFreelist r fl = Some (ret (hd bucket) (fl_erase r (hd bucket) fl))"
    "(r, hd bucket) \<in> fl_blocks fl"
    using assms by (auto simp: searchFreelist.simps [of r] fl_blocks_iff)
qed

definition takes :: "nat \<Rightarrow> freelists \<Rightarrow> block set \<Rightarrow> block \<Rightarrow> freelists \<Rightarrow> bool" where
  "takes A fl L b fl' \<longleftrightarrow>
     fl_ok fl' \<and> space_ok A (fl_blocks fl') (insert b L) \<and> b \<notin> L \<and>
     cover (fl_blocks fl') \<union> extent b = cover (fl_blocks fl) \<and>
     (\<forall>c \<in> fl_blocks fl'. c \<in> fl_blocks fl \<or> fst b \<le> fst c)"

lemma takes_found:
  assumes "fl_ok fl" "space_ok A (fl_blocks fl) L" "b \<in> fl_blocks fl" "b = (r, off)"
  shows "takes A fl L b (fl_erase r off fl)"
  using assms space_take [OF assms(2,3)] by (simp add: takes_def)

lemma takes_split:
  assumes "takes A fl L (2 * r, off) fl'"
  shows "takes A fl L (r, off) (fl_insert r (off + r) fl')"
  using assms space_split [of A "fl_blocks fl'" r off L] extent_split [of r off]
  by (fastforce simp: takes_def)

lemma searchFreelist_takes:
  assumes "fl_ok fl" "space_ok A (fl_blocks fl) L" "A \<le> 2 ^ 62" "(r * 2 ^ n, x) \<in> fl_blocks fl"
  shows "\<exists>off fl'. searchFreelist r fl = Some (ret off fl') \<and> takes A fl L (r, off) fl'"
  using assms(4)
proof (induction n arbitrary: r)
  case 0
  then obtain bucket where "smap_find fl r = Some bucket" by (auto simp: fl_blocks_iff)
  then show ?case
    using searchFreelist_found [OF assms(1)] takes_found [OF assms(1,2)] by blast
next
  case (Suc n)
  show ?case
  proof (cases "smap_find fl r")
    case (Some bucket)
    then show ?thesis
      using searchFreelist_found [OF assms(1)] takes_found [OF assms(1,2)] by blast
  next
    case None
    have "blocks_wf A (fl_blocks fl)" using assms(2) blocks_wf_subset by (auto simp: space_ok_def)
    then have "x + r * 2 ^ Suc n \<le> A" using Suc.prems blocks_wf_block(2) by blast
    moreover have "2 * r \<le> r * 2 ^ Suc n" by simp
    ultimately have "2 * r \<le> 2 ^ 62" using assms(3) by linarith
    then have "u64 (r * 2) = 2 * r" by simp
    moreover have "(2 * r * 2 ^ n, x) \<in> fl_blocks fl" using Suc.prems by (simp add: mult_ac)
    then obtain off fl' where "searchFreelist (2 * r) fl = Some (ret off fl')" "takes A fl L (2 * r, off) fl'"
      using Suc.IH [of "2 * r"] by blast
    ultimately show ?thesis
      using None takes_split by (auto simp: searchFreelist.simps [of r])
  qed
qed

text \<open>Freeing a block: the lists cover what they covered before and the block.\<close>

definition gives :: "nat \<Rightarrow> freelists \<Rightarrow> block set \<Rightarrow> block \<Rightarrow> freelists \<Rightarrow> bool" where
  "gives A fl L b fl' \<longleftrightarrow>
     fl_ok fl' \<and> space_ok A (fl_blocks fl') L \<and> cover (fl_blocks fl') = cover (fl_blocks fl) \<union> extent b \<and>
     (\<forall>c \<in> fl_blocks fl'. c \<in> fl_blocks fl \<or> fst b \<le> fst c)"

lemma gives_insert:
  assumes "fl_ok fl" "space_ok A (fl_blocks fl) (insert (sz, off) L)" "(sz, off) \<notin> L"
  shows "gives A fl L (sz, off) (fl_insert sz off fl)"
  using assms space_put [OF assms(2,3)] by (auto simp: gives_def)

lemma insertFree_gives:
  assumes ok: "fl_ok (freelists ds)" and sp: "space_ok A (fl_blocks (freelists ds)) (insert (sz, off) L)"
    and new: "(sz, off) \<notin> L"
  shows "\<exists>fl' n. insertFree dbg sz off ds = ret () (ds\<lparr>freelists := fl', frees := n\<rparr>) \<and>
     gives A (freelists ds) L (sz, off) fl'"
proof -
  define fl' where "fl' = fl_insert sz off (freelists ds)"
  have g: "gives A (freelists ds) L (sz, off) fl'"
    unfolding fl'_def using ok sp new by (rule gives_insert)
  have wf: "blocks_wf A (fl_blocks fl')" using g blocks_wf_subset by (auto simp: gives_def space_ok_def)
  have "verifyFreelistInternal (ds\<lparr>freelists := fl', frees := n\<rparr>) = ret () (ds\<lparr>freelists := fl', frees := n\<rparr>)" for n
    using g wf by (intro verifyFreelist_ok) (simp_all add: gives_def)
  then have "\<exists>n. insertFree dbg sz off ds = ret () (ds\<lparr>freelists := fl', frees := n\<rparr>)"
    by (cases dbg) (auto simp: insertFree_def Let_def fl'_def [symmetric] intro: exI [of _ "frees ds"])
  then show ?thesis using g by blast
qed

lemma buddy_cases:
  assumes "sz dvd off" "0 < (sz :: nat)"
  obtains "off mod (2 * sz) = 0" "2 * sz dvd off"
  | "off mod (2 * sz) = sz" "sz \<le> off" "2 * sz dvd off - sz"
proof -
  obtain q where q: "off = sz * q" using assms(1) by blast
  show thesis
  proof (cases "even q")
    case True
    then show thesis using that(1) q by (auto elim!: evenE)
  next
    case False
    then obtain p where p: "q = 2 * p + 1" by (auto elim!: oddE)
    have "off = sz * 2 * p + sz" by (simp add: q p algebra_simps)
    then have "off mod (2 * sz) = sz" "off - sz = 2 * sz * p" "sz \<le> off"
      using assms(2) by (simp_all add: mult.commute)
    then show thesis using that(2) by simp
  qed
qed

lemma buddy_merge:
  assumes "sz dvd off" "0 < sz" "u64 (sz * 2) = 2 * sz"
  shows "{(sz, off), (sz, nat (buddy_of sz off))} =
      {(sz, min off (nat (buddy_of sz off))), (sz, min off (nat (buddy_of sz off)) + sz)}"
    and "2 * sz dvd min off (nat (buddy_of sz off))"
proof -
  consider "nat (buddy_of sz off) = off + sz" "2 * sz dvd off"
    | "nat (buddy_of sz off) = off - sz" "sz \<le> off" "2 * sz dvd off - sz"
    using assms(1,2)
    by (rule buddy_cases)
      (simp_all add: buddy_of_def assms(2,3) nat_add_distrib nat_diff_distrib)
  then show "{(sz, off), (sz, nat (buddy_of sz off))} =
      {(sz, min off (nat (buddy_of sz off))), (sz, min off (nat (buddy_of sz off)) + sz)}"
    "2 * sz dvd min off (nat (buddy_of sz off))"
    using assms(2) by (cases; auto simp: min_def)+
qed

lemma gives_join:
  assumes "gives A (fl_erase sz buddy fl) L (2 * sz, m) fl'" "(sz, buddy) \<in> fl_blocks fl" "blocks_wf A (fl_blocks fl)"
    and "extent (2 * sz, m) = extent (sz, off) \<union> extent (sz, buddy)"
  shows "gives A fl L (sz, off) fl'"
proof -
  have "extent (sz, buddy) \<subseteq> cover (fl_blocks fl)" using assms(2) by (auto simp: cover_def)
  then have "cover (fl_blocks fl') = cover (fl_blocks fl) \<union> extent (sz, off)"
    using assms cover_Diff [OF assms(3,2)] by (auto simp: gives_def)
  moreover have "\<forall>c \<in> fl_blocks fl'. c \<in> fl_blocks fl \<or> sz \<le> fst c"
    using assms(1) by (fastforce simp: gives_def)
  ultimately show ?thesis using assms(1) by (simp add: gives_def)
qed

lemma addToFreelist_gives:
  "fl_ok (freelists ds) \<Longrightarrow> space_ok A (fl_blocks (freelists ds)) (insert (sz, off) L) \<Longrightarrow> (sz, off) \<notin> L \<Longrightarrow>
   A \<le> 2 ^ 62 \<Longrightarrow>
   \<exists>fl' n. addToFreelist dbg sz off ds = ret () (ds\<lparr>freelists := fl', frees := n\<rparr>) \<and>
     gives A (freelists ds) L (sz, off) fl'"
proof (induction dbg sz off ds rule: addToFreelist.induct)
  case (1 dbg sz off ds)
  define fl where "fl = freelists ds"
  note ok = 1(2) [folded fl_def] and sp = 1(3) [folded fl_def]
  have wf: "blocks_wf A (fl_blocks fl \<union> insert (sz, off) L)" using sp by (simp add: space_ok_def)
  have b: "(sz, off) \<in> fl_blocks fl \<union> insert (sz, off) L" by simp
  have sz: "0 < sz" "sz dvd off" "sz \<le> 2 ^ 62"
    using blocks_wf_block [OF wf b] 1(5) by (auto simp: aligned_def)
  have par: "u64 (sz * 2) = 2 * sz" using sz(3) by simp
  have np: "\<not> isParentBlockFree off sz fl"
    using isParentBlockFree_iff [OF ok] no_parent_block [OF wf b] by blast
  have ins: "\<exists>fl' n. insertFree dbg sz off ds = ret () (ds\<lparr>freelists := fl', frees := n\<rparr>) \<and>
      gives A fl L (sz, off) fl'"
    using insertFree_gives 1(2,3,4) unfolding fl_def by blast
  define buddy where "buddy = buddy_of sz off"
  show ?case
  proof (cases "0 \<le> buddy \<and> (sz, nat buddy) \<in> fl_blocks fl")
    case False
    then have "addToFreelist dbg sz off ds = insertFree dbg sz off ds"
      using np sz(1) par
      by (auto simp: addToFreelist.simps [of dbg sz off] fl_def [symmetric] buddy_def fl_blocks_iff Let_def
          split: option.split)
    then show ?thesis using ins by (simp add: fl_def)
  next
    case True
    then obtain bucket where bucket: "smap_find fl sz = Some bucket" "nat buddy \<in> set bucket"
      by (auto simp: fl_blocks_iff)
    define m where "m = min off (nat buddy)"
    define ds' where "ds' = ds\<lparr>freelists := fl_erase sz (nat buddy) fl\<rparr>"
    have m: "{(sz, off), (sz, nat buddy)} = {(sz, m), (sz, m + sz)}" "2 * sz dvd m"
      using buddy_merge [OF sz(2,1) par] by (simp_all add: m_def buddy_def)
    have ext: "extent (2 * sz, m) = extent (sz, off) \<union> extent (sz, nat buddy)"
      using arg_cong [OF m(1), of cover] extent_split [of sz m] by simp
    have wfF: "blocks_wf A (fl_blocks fl)" using wf by (rule blocks_wf_subset) blast
    note join = space_join [OF sp 1(4) conjunct2 [OF True] m]
    have "\<exists>fl' n. addToFreelist dbg (2 * sz) m ds' = ret () (ds'\<lparr>freelists := fl', frees := n\<rparr>) \<and>
        gives A (freelists ds') L (2 * sz, m) fl'"
      unfolding par [symmetric] m_def ds'_def buddy_def fl_def
    proof (rule 1(1) [OF _ _ refl refl bucket(1) [unfolded fl_def]])
      show "\<not> isParentBlockFree off sz (freelists ds)" using np by (simp add: fl_def)
      show "u64 (sz * 2) \<noteq> 0" using par sz(1) by simp
      show "0 \<le> buddy_of sz off \<and> nat (buddy_of sz off) \<in> set bucket" using True bucket by (simp add: buddy_def)
      show "fl_ok (freelists (ds\<lparr>freelists := fl_erase sz (nat (buddy_of sz off)) (freelists ds)\<rparr>))"
        using ok by (simp add: fl_def)
      show "space_ok A (fl_blocks (freelists (ds\<lparr>freelists := fl_erase sz (nat (buddy_of sz off)) (freelists ds)\<rparr>)))
          (insert (u64 (sz * 2), min off (nat (buddy_of sz off))) L)"
        using join(1) by (simp add: par fl_def buddy_def m_def)
      show "(u64 (sz * 2), min off (nat (buddy_of sz off))) \<notin> L"
        using join(2) by (simp add: par buddy_def m_def)
    qed (rule 1(5))
    moreover have "addToFreelist dbg sz off ds = addToFreelist dbg (2 * sz) m ds'"
      using np sz(1) par bucket True
      by (simp add: addToFreelist.simps [of dbg sz off] fl_def [symmetric] buddy_def [symmetric] Let_def
          m_def [symmetric] ds'_def)
    ultimately show ?thesis
      using gives_join [OF _ conjunct2 [OF True] wfF ext] by (auto simp: fl_def [symmetric] ds'_def)
  qed
qed

end
