(* ===== verification/Data_Store_Inv.thy ===== *)
theory Data_Store_Inv
  imports Buddy_Space
begin

text \<open>
  The invariant of a data store, \<open>ds_inv ds L\<close> for the set \<open>L\<close> of the blocks in use, and that
  every operation keeps it: growing, allocating, freeing, flushing, opening.
\<close>

section \<open>The invariant of a data store\<close>

text \<open>
  \<open>disk_ok\<close>: the free-list file is missing, or what it holds is a part of a well-formed
  file; when it is complete it lists nothing, or it has not been invalidated and lists
  blocks none of which is in use.
\<close>

definition disk_ok :: "datastore \<Rightarrow> block set \<Rightarrow> bool" where
  "disk_ok ds L \<longleftrightarrow>
     flfile ds = None \<or>
     (\<exists>fl j. flfile ds = Some (take j (file_bytes fl)) \<and> freelists_ok fl \<and>
             (length (file_bytes fl) \<le> j \<longrightarrow>
                fl = [] \<or>
                (\<not> fldirty ds \<and> fl_ok fl \<and> space_ok (allocatedSize ds) (fl_blocks fl) L \<and>
                 (\<forall>b \<in> fl_blocks fl. 16 \<le> fst b))))"

definition largest_ok :: "datastore \<Rightarrow> bool" where
  "largest_ok ds \<longleftrightarrow> largestFreeChunk ds = (case smap_last_key (freelists ds) of None \<Rightarrow> 0 | Some k \<Rightarrow> k)"

definition ds_inv :: "datastore \<Rightarrow> block set \<Rightarrow> bool" where
  "ds_inv ds L \<longleftrightarrow>
     fl_ok (freelists ds) \<and> pow2 (allocatedSize ds) \<and> 16 \<le> allocatedSize ds \<and> allocatedSize ds \<le> 2 ^ 62 \<and>
     space_ok (allocatedSize ds) (fl_blocks (freelists ds)) L \<and>
     (\<forall>b \<in> fl_blocks (freelists ds) \<union> L. 16 \<le> fst b) \<and> largest_ok ds \<and> disk_ok ds L"

lemma ds_invD:
  assumes "ds_inv ds L"
  shows "fl_ok (freelists ds)" "pow2 (allocatedSize ds)" "16 \<le> allocatedSize ds" "allocatedSize ds \<le> 2 ^ 62"
    "space_ok (allocatedSize ds) (fl_blocks (freelists ds)) L" "blocks_wf (allocatedSize ds) (fl_blocks (freelists ds))"
    "largest_ok ds" "disk_ok ds L" "\<And>b. b \<in> fl_blocks (freelists ds) \<or> b \<in> L \<Longrightarrow> 16 \<le> fst b"
  using assms blocks_wf_subset by (auto simp: ds_inv_def space_ok_def)

lemma largest_iff:
  assumes "fl_ok (freelists ds)" "largest_ok ds" "0 < r"
  shows "r \<le> largestFreeChunk ds \<longleftrightarrow> (\<exists>s x. r \<le> s \<and> (s, x) \<in> fl_blocks (freelists ds))"
proof (cases "smap_last_key (freelists ds)")
  case None
  then have "freelists ds = []" by simp
  then show ?thesis using assms by (simp add: largest_ok_def smap_last_key_def)
next
  case (Some k)
  then show ?thesis
    using assms(2) fl_last_key [OF assms(1) Some] by (auto simp: largest_ok_def intro: order_trans)
qed

lemma largest_ok_calc [simp]: "largest_ok (calcLargestFreeChunk ds)"
  by (simp add: largest_ok_def calcLargestFreeChunk_def)

lemma calcLargest_simps [simp]:
  "freelists (calcLargestFreeChunk ds) = freelists ds" "allocatedSize (calcLargestFreeChunk ds) = allocatedSize ds"
  "flfile (calcLargestFreeChunk ds) = flfile ds" "fldirty (calcLargestFreeChunk ds) = fldirty ds"
  "dfile (calcLargestFreeChunk ds) = dfile ds" "dirty (calcLargestFreeChunk ds) = dirty ds"
  "guid (calcLargestFreeChunk ds) = guid ds" "dsm_flusher (calcLargestFreeChunk ds) = dsm_flusher ds"
  by (simp_all add: calcLargestFreeChunk_def)

lemma disk_ok_dirty:
  assumes "disk_ok ds L" "fldirty ds" "flfile ds' = flfile ds"
  shows "disk_ok ds' L'"
  using assms unfolding disk_ok_def by metis

text \<open>The free lists of a consistent store can be written.\<close>

lemma bucket_length:
  assumes wf: "blocks_wf A (fl_blocks fl)" and A: "A \<le> 2 ^ 62" and f: "smap_find fl sz = Some bucket"
    and ok: "fl_ok fl" and big: "16 \<le> sz"
  shows "16 * length bucket \<le> 2 ^ 62"
proof -
  have blk: "sz dvd x" "x + sz \<le> A" if "x \<in> set bucket" for x
    using blocks_wf_block(1,2) [OF wf, of sz x] that f by (auto simp: fl_blocks_iff aligned_def)
  have inj: "inj_on (\<lambda>x. x div sz) (set bucket)"
    by (rule inj_onI) (metis blk(1) dvd_div_mult_self)
  have "(\<lambda>x. x div sz) ` set bucket \<subseteq> {..<A div 16}"
  proof
    fix q assume "q \<in> (\<lambda>x. x div sz) ` set bucket"
    then obtain x where x: "x \<in> set bucket" "q = x div sz" by blast
    then have "q * sz + sz \<le> A" using blk [OF x(1)] by simp
    moreover have "(q + 1) * 16 \<le> (q + 1) * sz" using big by (intro mult_le_mono2)
    ultimately have "(q + 1) * 16 \<le> A" by simp
    then show "q \<in> {..<A div 16}" by (simp add: less_eq_div_iff_mult_less_eq Suc_le_eq [symmetric])
  qed
  then have "card ((\<lambda>x. x div sz) ` set bucket) \<le> A div 16"
    using card_mono [of "{..<A div 16}" "(\<lambda>x. x div sz) ` set bucket"] by simp
  then have "card (set bucket) \<le> A div 16" using card_image [OF inj] by simp
  moreover have "card (set bucket) = length bucket"
    using ok f by (intro distinct_card sset_ok_distinct) (auto simp: fl_ok_def)
  ultimately show ?thesis using A by (simp add: less_eq_div_iff_mult_less_eq)
qed

lemma ds_inv_freelists_ok:
  assumes inv: "ds_inv ds L"
  shows "freelists_ok (freelists ds)"
proof -
  note d = ds_invD [OF inv]
  have "bucket_ok sz bucket" if "(sz, bucket) \<in> set (freelists ds)" for sz bucket
  proof -
    have f: "smap_find (freelists ds) sz = Some bucket" using that fl_entry_iff [OF d(1)] by simp
    then have ne: "bucket \<noteq> []" "sset_ok bucket" using d(1) by (auto simp: fl_ok_def)
    have in_F: "(sz, x) \<in> fl_blocks (freelists ds)" if "x \<in> set bucket" for x
      using that f by (auto simp: fl_blocks_iff)
    have le: "x + sz \<le> 2 ^ 62" if "x \<in> set bucket" for x
      using blocks_wf_block(2) [OF d(6) in_F [OF that]] d(4) by simp
    have big: "16 \<le> sz" using d(9) [of "(sz, hd bucket)"] in_F ne(1) by simp
    have "16 * length bucket \<le> 2 ^ 62" by (rule bucket_length [OF d(6,4) f d(1) big])
    moreover have "sz < 2 ^ 64" using le [of "hd bucket"] ne(1) by simp
    moreover have "x < 2 ^ 64" if "x \<in> set bucket" for x using le [OF that] by simp
    ultimately show ?thesis using ne by (simp add: bucket_ok_def)
  qed
  moreover have "length (freelists ds) < 2 ^ 64"
  proof -
    have "sz < 2 ^ 63" if "(sz, bucket) \<in> set (freelists ds)" for sz bucket
    proof -
      have f: "smap_find (freelists ds) sz = Some bucket" using that fl_entry_iff [OF d(1)] by simp
      then have "(sz, hd bucket) \<in> fl_blocks (freelists ds)" using d(1) by (auto simp: fl_ok_def fl_blocks_iff)
      from blocks_wf_block(2) [OF d(6) this] show ?thesis using d(4) by simp
    qed
    then have "fst ` set (freelists ds) \<subseteq> {..<2 ^ 63}" by auto
    then have "card (fst ` set (freelists ds)) \<le> 2 ^ 63" using card_mono [of "{..<2 ^ 63::nat}"] by simp
    moreover have "card (fst ` set (freelists ds)) = length (freelists ds)"
      using distinct_card [OF smap_ok_distinct] d(1) by (metis fl_ok_smap length_map set_map)
    ultimately show ?thesis by simp
  qed
  ultimately show ?thesis using d(1) by (auto simp: freelists_ok_def)
qed

section \<open>The operations keep the invariant\<close>

text \<open>What an operation leaves of the other fields, when the lists are already marked dirty.\<close>

definition same_disk :: "datastore \<Rightarrow> datastore \<Rightarrow> bool" where
  "same_disk ds ds' \<longleftrightarrow>
     guid ds' = guid ds \<and> flfile ds' = flfile ds \<and> fldirty ds' = fldirty ds \<and> dirty ds' = dirty ds \<and>
     dsm_flusher ds' = dsm_flusher ds"

lemma same_disk_refl [simp]: "same_disk ds ds"
  by (simp add: same_disk_def)

lemma same_disk_trans: "same_disk ds ds' \<Longrightarrow> same_disk ds' ds'' \<Longrightarrow> same_disk ds ds''"
  by (simp add: same_disk_def)

text \<open>No byte of the file is lost: every one is in a free block or in one in use.\<close>

definition ds_full :: "datastore \<Rightarrow> block set \<Rightarrow> bool" where
  "ds_full ds L \<longleftrightarrow> cover (fl_blocks (freelists ds)) \<union> cover L = {..<allocatedSize ds}"

definition sized :: "datastore \<Rightarrow> bool" where
  "sized ds \<longleftrightarrow> length (dfile ds) = allocatedSize ds"

lemma grow_step:
  assumes inv: "ds_inv ds L" and A: "allocatedSize ds \<le> 2 ^ 61" and fd: "fldirty ds"
  defines "sz \<equiv> allocatedSize ds"
  defines "ds1 \<equiv> ds\<lparr>freelists := fl_insert sz sz (freelists ds), largestFreeChunk := sz,
                      allocatedSize := u64 (sz * 2)\<rparr>"
  shows "ds_inv ds1 L" "allocatedSize ds1 = 2 * sz" "same_disk ds ds1" "ds_full ds L \<Longrightarrow> ds_full ds1 L"
proof -
  note d = ds_invD [OF inv]
  show A1: "allocatedSize ds1 = 2 * sz" using A by (simp add: ds1_def sz_def)
  have fl: "freelists ds1 = fl_insert sz sz (freelists ds)" by (simp add: ds1_def)
  have "s \<le> sz" if "(s, x) \<in> fl_blocks (freelists ds)" for s x
    using blocks_wf_block(2) [OF d(6) that] by (simp add: sz_def)
  moreover obtain k where "smap_last_key (freelists ds1) = Some k"
    using fl_blocks_empty_iff [of "freelists ds1"] d(1) by (auto simp: fl smap_last_key_def)
  then have "\<exists>off. (k, off) \<in> fl_blocks (freelists ds1)" "sz \<le> k" and k: "smap_last_key (freelists ds1) = Some k"
    using fl_last_key [of "freelists ds1" k] d(1) by (auto simp: fl)
  ultimately have "k = sz" by (auto simp: fl intro: antisym)
  then have "largest_ok ds1" using k by (simp add: largest_ok_def) (simp add: ds1_def)
  moreover have "disk_ok ds1 L" using d(8) fd by (rule disk_ok_dirty) (simp add: ds1_def)
  moreover have "pow2 (2 * sz)" "16 \<le> 2 * sz" "2 * sz \<le> 2 ^ 62" using d(2,3) A by (auto simp: sz_def)
  moreover have "space_ok (2 * sz) (insert (sz, sz) (fl_blocks (freelists ds))) L"
    using space_grow [OF d(5,2)] by (simp add: sz_def)
  ultimately show "ds_inv ds1 L" using d(1,3,9) by (auto simp: ds_inv_def A1 fl sz_def)
  show "same_disk ds ds1" by (simp add: same_disk_def ds1_def)
  have "{..<2 * sz} = extent (sz, sz) \<union> {..<sz}" by (auto simp: extent_def)
  then show "ds_full ds1 L" if "ds_full ds L"
    using that unfolding ds_full_def A1 fl fl_blocks_insert cover_simps Un_assoc sz_def by simp
qed

text \<open>Growing appends to the data file, as long as that is not longer than the store.\<close>

definition appended :: "datastore \<Rightarrow> datastore \<Rightarrow> bool" where
  "appended ds ds' \<longleftrightarrow>
     (length (dfile ds) \<le> allocatedSize ds \<longrightarrow>
        (\<exists>zs. dfile ds' = dfile ds @ zs) \<and> length (dfile ds') \<le> allocatedSize ds')"

lemma appended_trans: "appended ds ds' \<Longrightarrow> appended ds' ds'' \<Longrightarrow> appended ds ds''"
  by (auto simp: appended_def)

definition grown :: "datastore \<Rightarrow> block set \<Rightarrow> datastore \<Rightarrow> bool" where
  "grown ds L ds' \<longleftrightarrow> ds_inv ds' L \<and> same_disk ds ds' \<and> (ds_full ds L \<longrightarrow> ds_full ds' L) \<and> appended ds ds'"

lemma truncate_length [simp]: "length (truncate_to n f) = n"
  by (simp add: truncate_to_def)

lemma ds_inv_dfile [simp]:
  "ds_inv (ds\<lparr>dfile := f\<rparr>) L = ds_inv ds L" "ds_full (ds\<lparr>dfile := f\<rparr>) L = ds_full ds L"
  "same_disk ds (ds'\<lparr>dfile := f\<rparr>) = same_disk ds ds'"
  by (simp_all add: ds_inv_def largest_ok_def disk_ok_def ds_full_def same_disk_def)

text \<open>
  What a growth that fails leaves: the free lists and the size have grown once more than
  the file, which has half of the size that the store now claims to have.
\<close>

definition half_grown :: "datastore \<Rightarrow> datastore \<Rightarrow> bool" where
  "half_grown ds ds' \<longleftrightarrow>
     (\<exists>k. allocatedSize ds' = 2 ^ Suc k * allocatedSize ds \<and>
        fl_blocks (freelists ds') = fl_blocks (freelists ds) \<union>
          (\<lambda>i. (2 ^ i * allocatedSize ds, 2 ^ i * allocatedSize ds)) ` {..k}) \<and>
     (sized ds \<longrightarrow> 2 * length (dfile ds') = allocatedSize ds')"

lemma half_grown_step:
  assumes "half_grown ds1 ds'" "allocatedSize ds1 = 2 * A" "sized ds1" "allocatedSize ds = A"
    and "fl_blocks (freelists ds1) = insert (A, A) (fl_blocks (freelists ds))"
  shows "half_grown ds ds'"
proof -
  obtain k where k: "allocatedSize ds' = 2 ^ Suc k * (2 * A)"
    "fl_blocks (freelists ds') = insert (A, A) (fl_blocks (freelists ds)) \<union> (\<lambda>i. (2 ^ i * (2 * A), 2 ^ i * (2 * A))) ` {..k}"
    using assms unfolding half_grown_def by auto
  have "(\<lambda>i. (2 ^ i * A, 2 ^ i * A)) ` {..Suc k} = insert (A, A) ((\<lambda>i. (2 ^ i * (2 * A), 2 ^ i * (2 * A))) ` {..k})"
    by (simp add: atMost_Suc_eq_insert_0 image_image mult.assoc mult.left_commute)
  then have "allocatedSize ds' = 2 ^ Suc (Suc k) * allocatedSize ds \<and>
      fl_blocks (freelists ds') = fl_blocks (freelists ds) \<union>
        (\<lambda>i. (2 ^ i * allocatedSize ds, 2 ^ i * allocatedSize ds)) ` {..Suc k}"
    using k assms(4) by (simp add: ac_simps)
  moreover have "2 * length (dfile ds') = allocatedSize ds'" using assms(1,3) by (simp add: half_grown_def)
  ultimately show ?thesis unfolding half_grown_def by blast
qed

definition can_grow :: "ds_env \<Rightarrow> bool" where
  "can_grow env \<longleftrightarrow> (\<forall>n. ftruncate_ok env n \<and> \<not> full env (Ftruncate n))"

lemma makeMoreSpace_result:
  assumes "ds_inv ds L" "fldirty ds" "allocatedSize ds \<le> 2 ^ 61" "pow2 request" "request \<le> 2 ^ 61"
    "largestFreeChunk ds < request"
  shows "(\<exists>ds'. makeMoreSpace env request ds = Some (ret () ds') \<and> grown ds L ds' \<and> sized ds' \<and>
                request \<le> largestFreeChunk ds') \<or>
         (\<exists>e ds'. makeMoreSpace env request ds = Some (throw e ds') \<and> grown ds L ds' \<and> half_grown ds ds' \<and>
                e \<in> {LE_SYSCALL_ERROR, LE_TOO_MANY_OPEN_FILES} \<and> \<not> can_grow env)"
  using assms
proof (induction "request - allocatedSize ds" arbitrary: ds rule: less_induct)
  case less
  define sz where "sz = allocatedSize ds"
  define ds1 where "ds1 = ds\<lparr>freelists := fl_insert sz sz (freelists ds), largestFreeChunk := sz,
      allocatedSize := u64 (sz * 2)\<rparr>"
  note g = grow_step [OF less.prems(1,3,2), folded sz_def, folded ds1_def]
  have df: "dfile ds1 = dfile ds" by (simp add: ds1_def)
  have gr: "grown ds L ds1" using g df by (auto simp: grown_def appended_def sz_def)
  have un: "makeMoreSpace env request ds =
      (if full env (Ftruncate (allocatedSize ds1)) then Some (throw LE_TOO_MANY_OPEN_FILES ds1)
       else if ftruncate_ok env (allocatedSize ds1)
       then makeMoreSpace env request (ds1\<lparr>dfile := truncate_to (allocatedSize ds1) (dfile ds1)\<rparr>)
       else Some (throw LE_SYSCALL_ERROR ds1))"
    using less.prems(6) by (subst makeMoreSpace.simps) (simp add: Let_def sz_def ds1_def)
  have bl: "fl_blocks (freelists ds1) = insert (sz, sz) (fl_blocks (freelists ds))" by (simp add: ds1_def)
  have hg: "half_grown ds ds1"
    unfolding half_grown_def using g(2) bl df by (auto intro!: exI [of _ 0] simp: sized_def sz_def)
  show ?case
  proof (cases "ftruncate_ok env (allocatedSize ds1) \<and> \<not> full env (Ftruncate (allocatedSize ds1))")
    case False
    then show ?thesis using un gr hg by (auto simp: can_grow_def)
  next
    case True
    define ds2 where "ds2 = ds1\<lparr>dfile := truncate_to (allocatedSize ds1) (dfile ds1)\<rparr>"
    have ds2: "makeMoreSpace env request ds = makeMoreSpace env request ds2"
      "ds_inv ds2 L" "sized ds2" "largestFreeChunk ds2 = sz" "allocatedSize ds2 = 2 * sz"
      using un True g by (simp_all add: ds2_def sized_def) (simp_all add: ds1_def)
    have "appended ds ds2" using g(2) df by (auto simp: appended_def ds2_def truncate_to_def sz_def)
    then have gr2: "grown ds L ds2" using g gr by (simp add: grown_def ds2_def)
    show ?thesis
    proof (cases "sz < request")
      case False
      then show ?thesis
        using ds2 gr2 by (subst (asm) makeMoreSpace.simps [of env request ds2]) auto
    next
      case lt: True
      have le: "2 * sz \<le> request"
        using ds_invD(2) [OF less.prems(1)] less.prems(4) lt by (intro pow2_double_le) (simp_all add: sz_def)
      have "0 < sz" using ds_invD(3) [OF less.prems(1)] by (simp add: sz_def)
      then have dec: "request - allocatedSize ds2 < request - allocatedSize ds"
        using le lt ds2(5) by (simp add: sz_def [symmetric])
      have fd2: "fldirty ds2" using g(3) less.prems(2) by (simp add: ds2_def same_disk_def)
      have A2: "allocatedSize ds2 \<le> 2 ^ 61" using le ds2(5) less.prems(5) by linarith
      have lt2: "largestFreeChunk ds2 < request" using lt ds2(4) by simp
      have "grown ds L ds'" if "grown ds2 L ds'" for ds'
        using that gr2 same_disk_trans appended_trans unfolding grown_def by blast
      moreover have "half_grown ds ds'" if "half_grown ds2 ds'" for ds'
        using that ds2(5,3) by (rule half_grown_step) (simp_all add: bl ds2_def sz_def)
      ultimately show ?thesis
        using less.hyps [OF dec ds2(2) fd2 A2 less.prems(4,5) lt2] unfolding ds2(1) by blast
    qed
  qed
qed

definition lists_kept :: "datastore \<Rightarrow> datastore \<Rightarrow> bool" where
  "lists_kept ds ds' \<longleftrightarrow>
     guid ds' = guid ds \<and> dfile ds' = dfile ds \<and> freelists ds' = freelists ds \<and> frees ds' = frees ds \<and>
     largestFreeChunk ds' = largestFreeChunk ds \<and> allocatedSize ds' = allocatedSize ds"

lemma ds_inv_kept: "lists_kept ds ds' \<Longrightarrow> ds_inv ds L \<Longrightarrow> disk_ok ds' L \<Longrightarrow> ds_inv ds' L"
  unfolding lists_kept_def ds_inv_def largest_ok_def by simp

lemma schedule_flush_simps [simp]:
  "guid (schedule_flush ds) = guid ds" "dfile (schedule_flush ds) = dfile ds"
  "flfile (schedule_flush ds) = flfile ds" "freelists (schedule_flush ds) = freelists ds"
  "frees (schedule_flush ds) = frees ds" "largestFreeChunk (schedule_flush ds) = largestFreeChunk ds"
  "allocatedSize (schedule_flush ds) = allocatedSize ds" "dirty (schedule_flush ds) = dirty ds"
  "fldirty (schedule_flush ds) = fldirty ds"
  by (simp_all add: schedule_flush_def)

lemma file_bytes_Nil: "file_bytes [] = le64 0"
  by (simp add: file_bytes_def)

lemma freelists_ok_Nil [simp]: "freelists_ok []"
  by (simp add: freelists_ok_def)

lemma disk_ok_cut: "flfile ds = Some (take j (le64 0)) \<Longrightarrow> disk_ok ds L"
  unfolding disk_ok_def file_bytes_Nil [symmetric] using freelists_ok_Nil by blast

text \<open>When the free-list file can be invalidated, and the exceptions when it cannot.\<close>

definition can_invalidate :: "ds_env \<Rightarrow> bool" where
  "can_invalidate env \<longleftrightarrow>
     open_fl_ok env \<and> \<not> full env Open_fl \<and> \<not> injected env \<and> 8 \<le> fl_room env \<and> 2 \<le> fl_calls env"

definition invalidate_error :: "ds_env \<Rightarrow> error \<Rightarrow> bool" where
  "invalidate_error env e \<longleftrightarrow>
     e \<in> {LE_CANT_OPEN_PATH, LE_INJECTED_ERROR, LE_PWRITE_ERROR, LE_TOO_MANY_OPEN_FILES} \<or>
     (e = Undefined_Behaviour \<and> full env Open_fl)"

lemma invalidate_result:
  assumes inv: "ds_inv ds L"
  obtains (ok) ds' where "invalidateFreelistFile env ds = ret () ds'" "ds_inv ds' L" "lists_kept ds ds'" "fldirty ds'"
      "dirty ds' = dirty ds"
  | (fail) e ds' where "invalidateFreelistFile env ds = throw e ds'" "ds_inv ds' L" "lists_kept ds ds'"
      "invalidate_error env e" "\<not> can_invalidate env"
proof -
  have [simp]: "pwrite [] 0 bs = bs" for bs :: "byte list" using pwrite_end [of "[]"] by simp
  have cut: "ds_inv ds' L" if "lists_kept ds ds'" "flfile ds' = Some (take j (le64 0))" for ds' j
    using ds_inv_kept [OF that(1) inv disk_ok_cut [OF that(2)]] .
  have thrown: thesis if "\<not> fldirty ds" "invalidateFreelistFile env ds = throw e (ds\<lparr>flfile := Some (take j (le64 0))\<rparr>)"
    "invalidate_error env e" "\<not> can_invalidate env" for e j
    using that(2) _ _ that(3,4) by (rule fail) (auto simp: lists_kept_def intro!: cut)
  note defs = invalidateFreelistFile_def can_invalidate_def invalidate_error_def
  consider "fldirty ds" | "\<not> fldirty ds" "\<not> open_fl_ok env" | "\<not> fldirty ds" "open_fl_ok env" "full env Open_fl"
    | "\<not> fldirty ds" "open_fl_ok env" "\<not> full env Open_fl" "injected env"
    | "\<not> fldirty ds" "open_fl_ok env" "\<not> full env Open_fl" "\<not> injected env" "fl_calls env = 0"
    | "\<not> fldirty ds" "open_fl_ok env" "\<not> full env Open_fl" "\<not> injected env" "fl_calls env \<noteq> 0" "fl_room env < 8"
    | "\<not> fldirty ds" "open_fl_ok env" "\<not> full env Open_fl" "\<not> injected env" "fl_calls env = 1" "8 \<le> fl_room env"
    | "\<not> fldirty ds" "open_fl_ok env" "\<not> full env Open_fl" "\<not> injected env" "2 \<le> fl_calls env" "8 \<le> fl_room env"
    by linarith
  then show thesis
  proof cases
    case 1
    then show thesis using ok [of ds] inv by (simp add: invalidateFreelistFile_def lists_kept_def)
  next
    case 2
    then show thesis using fail [of LE_CANT_OPEN_PATH ds] inv by (simp add: defs lists_kept_def)
  next
    case 3
    then show thesis using thrown [of Undefined_Behaviour 0] by (simp add: defs)
  next
    case 4
    then show thesis using thrown [of LE_INJECTED_ERROR 0] by (simp add: defs)
  next
    case 5
    then show thesis using thrown [of LE_TOO_MANY_OPEN_FILES 0] by (simp add: defs throw_def ret_def andThen_def)
  next
    case 6
    then show thesis using thrown [of LE_PWRITE_ERROR "fl_room env"] by (simp add: defs throw_def ret_def andThen_def)
  next
    case 7
    then show thesis using thrown [of LE_TOO_MANY_OPEN_FILES 8] by (simp add: defs throw_def ret_def andThen_def)
  next
    case 8
    define ds' where "ds' = schedule_flush (ds\<lparr>flfile := Some (le64 0), fldirty := True\<rparr>)"
    have "invalidateFreelistFile env ds = ret () ds'"
      using 8 by (simp add: invalidateFreelistFile_def ds'_def ret_def andThen_def)
    moreover have "lists_kept ds ds'" by (simp add: lists_kept_def ds'_def)
    ultimately show thesis using ok [of ds'] cut [of ds' 8] by (simp add: ds'_def)
  qed
qed

definition env_sane :: "ds_env \<Rightarrow> bool" where
  "env_sane env \<longleftrightarrow> 1 \<le> minAllocSize env \<and> minAllocSize env \<le> 2 ^ 61"

lemma requiredSize_ok:
  assumes "env_sane env" "n + 16 \<le> 2 ^ 61"
  shows "pow2 (requiredSize env n)" "n + 16 \<le> requiredSize env n" "requiredSize env n \<le> 2 ^ 61"
    "minAllocSize env \<le> requiredSize env n"
proof -
  define m where "m = max (n + 16) (minAllocSize env)"
  have m: "1 \<le> m" "m \<le> 2 ^ 61" "n + 16 \<le> m" "minAllocSize env \<le> m" using assms by (auto simp: m_def env_sane_def)
  have "u64 (n + 16) = n + 16" using assms(2) by simp
  then have req: "requiredSize env n = roundUp m"
    by (auto simp: requiredSize_def header_size_def m_def max_def Let_def)
  have r: "pow2 (roundUp m)" "m \<le> roundUp m" "roundUp m < 2 * m"
    using roundUp_correct [of m] m by simp_all
  show "pow2 (requiredSize env n)" "n + 16 \<le> requiredSize env n" "minAllocSize env \<le> requiredSize env n"
    using r m by (simp_all add: req)
  show "requiredSize env n \<le> 2 ^ 61"
  proof (rule ccontr)
    assume "\<not> requiredSize env n \<le> 2 ^ 61"
    then have "2 * 2 ^ 61 \<le> roundUp m" using r(1) pow2_power [of 61] by (intro pow2_double_le) (simp_all only: req not_le)
    then show False using r(3) m(2) by simp
  qed
qed

lemma ds_inv_takes:
  assumes inv: "ds_inv ds L" and fd: "fldirty ds" and r: "16 \<le> r"
    and t: "takes (allocatedSize ds) (freelists ds) L (r, off) fl'"
  shows "ds_inv (calcLargestFreeChunk (ds\<lparr>freelists := fl'\<rparr>)) (insert (r, off) L)"
    "ds_full ds L \<Longrightarrow> ds_full (calcLargestFreeChunk (ds\<lparr>freelists := fl'\<rparr>)) (insert (r, off) L)"
proof -
  note d = ds_invD [OF inv]
  have "disk_ok (calcLargestFreeChunk (ds\<lparr>freelists := fl'\<rparr>)) (insert (r, off) L)" using d(8) fd by (rule disk_ok_dirty) simp
  moreover have "\<forall>b \<in> fl_blocks fl' \<union> insert (r, off) L. 16 \<le> fst b"
    using t d(9) r unfolding takes_def by (metis Un_iff fst_conv insert_iff le_trans)
  ultimately show "ds_inv (calcLargestFreeChunk (ds\<lparr>freelists := fl'\<rparr>)) (insert (r, off) L)"
    using t d(2-4) unfolding ds_inv_def takes_def by simp
  show "ds_full (calcLargestFreeChunk (ds\<lparr>freelists := fl'\<rparr>)) (insert (r, off) L)" if "ds_full ds L"
    using that t unfolding ds_full_def takes_def by (simp add: Un_assoc [symmetric])
qed

definition alloc_result :: "ds_env \<Rightarrow> nat \<Rightarrow> datastore \<Rightarrow> block set \<Rightarrow> (nat \<times> nat, datastore) outcome \<Rightarrow> bool" where
  "alloc_result env n ds L r \<longleftrightarrow>
     (\<exists>off sz ds'. r = ret (off, sz) ds' \<and> ds_inv ds' (insert (sz, off) L) \<and> (sz, off) \<notin> L \<and> n + 16 \<le> sz \<and>
        sz = requiredSize env n \<and> fldirty ds' \<and> dirty ds' = dirty ds \<and>
        (ds_full ds L \<longrightarrow> ds_full ds' (insert (sz, off) L)) \<and> (sized ds \<longrightarrow> sized ds') \<and> appended ds ds') \<or>
     (\<exists>e ds'. r = throw e ds' \<and> ds_inv ds' L \<and> (ds_full ds L \<longrightarrow> ds_full ds' L) \<and> appended ds ds' \<and>
        ((invalidate_error env e \<and> \<not> can_invalidate env \<and> lists_kept ds ds') \<or>
         (e \<in> {LE_SYSCALL_ERROR, LE_TOO_MANY_OPEN_FILES} \<and> \<not> can_grow env \<and> half_grown ds ds')))"

lemma allocateSpace_search:
  assumes inv: "ds_inv ds L" and fd: "fldirty ds" and r: "pow2 r" "16 \<le> r" "r \<le> largestFreeChunk ds"
  obtains off fl' where "searchFreelist r (freelists ds) = Some (ret off fl')"
    "takes (allocatedSize ds) (freelists ds) L (r, off) fl'"
proof -
  note d = ds_invD [OF inv]
  obtain s x where s: "r \<le> s" "(s, x) \<in> fl_blocks (freelists ds)"
    using largest_iff [OF d(1,7), of r] r by auto
  have "pow2 s" using blocks_wf_block(1) [OF d(6) s(2)] by (simp add: aligned_def)
  then obtain k where "s = r * 2 ^ k"
    using r(1) s(1) by (auto simp: pow2_def) (metis le_add_diff_inverse power_add)
  then show thesis using searchFreelist_takes [OF d(1,5,4), of r k x] s(2) that by blast
qed

lemma allocateSpace_result:
  assumes inv: "ds_inv ds L" and A: "allocatedSize ds \<le> 2 ^ 61" and env: "env_sane env" and n: "n + 16 \<le> 2 ^ 61"
  shows "\<exists>r. allocateSpace env n ds = Some r \<and> alloc_result env n ds L r"
  using inv
proof (cases rule: invalidate_result [of ds L env])
  case (fail e ds')
  then show ?thesis
    by (intro exI [of _ "throw e ds'"])
      (auto simp: allocateSpace_def alloc_result_def lists_kept_def ds_full_def appended_def)
next
  case (ok ds1)
  define r where "r = requiredSize env n"
  have r: "pow2 r" "n + 16 \<le> r" "r \<le> 2 ^ 61" using requiredSize_ok [OF env n] by (simp_all add: r_def)
  have A1: "allocatedSize ds1 \<le> 2 ^ 61" using ok(3) A by (simp add: lists_kept_def)
  have k1: "ds_full ds L \<Longrightarrow> ds_full ds1 L" "sized ds \<Longrightarrow> sized ds1" "appended ds ds1"
    using ok(3) by (simp_all add: ds_full_def sized_def appended_def lists_kept_def)
  define more where "more = (if largestFreeChunk ds1 < r then makeMoreSpace env r ds1 else Some (ret () ds1))"
  consider ds2 where "more = Some (ret () ds2)" "grown ds1 L ds2" "r \<le> largestFreeChunk ds2" "sized ds1 \<Longrightarrow> sized ds2"
    | e ds2 where "more = Some (throw e ds2)" "grown ds1 L ds2" "half_grown ds1 ds2" "\<not> can_grow env"
        "e \<in> {LE_SYSCALL_ERROR, LE_TOO_MANY_OPEN_FILES}"
  proof (cases "largestFreeChunk ds1 < r")
    case True
    then show thesis
      using makeMoreSpace_result [OF ok(2,4) A1 r(1,3) True, of env] that by (auto simp: more_def)
  next
    case False
    then show thesis using that(1) [of ds1] ok(2) by (simp add: more_def grown_def appended_def)
  qed
  then show ?thesis
  proof cases
    case (2 e ds2)
    then have "allocateSpace env n ds = Some (throw e ds2)"
      unfolding allocateSpace_def ok(1) by (simp add: Let_def r_def [symmetric] more_def [symmetric])
    moreover have "half_grown ds ds2" using 2(3) ok(3) by (simp add: half_grown_def lists_kept_def sized_def)
    moreover have "ds_inv ds2 L" "ds_full ds L \<Longrightarrow> ds_full ds2 L" "appended ds ds2"
      using 2(2) k1 appended_trans unfolding grown_def by blast+
    ultimately show ?thesis using 2(4,5) unfolding alloc_result_def by blast
  next
    case (1 ds2)
    have fd2: "fldirty ds2" "dirty ds2 = dirty ds" and inv2: "ds_inv ds2 L"
      using 1(2) ok(4,5) by (simp_all add: grown_def same_disk_def)
    obtain off fl' where s: "searchFreelist r (freelists ds2) = Some (ret off fl')"
      "takes (allocatedSize ds2) (freelists ds2) L (r, off) fl'"
      using allocateSpace_search [OF inv2 fd2(1) r(1) _ 1(3)] r(2) by auto
    define ds3 where "ds3 = calcLargestFreeChunk (ds2\<lparr>freelists := fl'\<rparr>)"
    have "allocateSpace env n ds = Some (ret (off, r) ds3)"
      unfolding allocateSpace_def ok(1) using 1(1) s(1)
      by (simp add: Let_def r_def [symmetric] more_def [symmetric] ds3_def) (simp add: ret_def)
    moreover have "alloc_result env n ds L (ret (off, r) ds3)"
    proof -
      have "ds_inv ds3 (insert (r, off) L)" "ds_full ds2 L \<Longrightarrow> ds_full ds3 (insert (r, off) L)"
        using ds_inv_takes [OF inv2 fd2(1) _ s(2)] r(2) by (simp_all add: ds3_def)
      moreover have "(r, off) \<notin> L" using s(2) by (simp add: takes_def)
      moreover have "appended ds ds3" "sized ds \<Longrightarrow> sized ds3" "fldirty ds3" "dirty ds3 = dirty ds"
        using 1(2,4) k1 fd2 appended_trans [of ds ds1 ds2]
        by (simp_all add: grown_def ds3_def) (simp_all add: appended_def sized_def)
      ultimately show ?thesis
        using r(2) k1(1) 1(2) unfolding alloc_result_def grown_def r_def by blast
    qed
    ultimately show ?thesis by blast
  qed
qed

section \<open>Freeing\<close>

lemma ds_inv_gives:
  assumes inv: "ds_inv ds (insert (sz, off) L)" and fd: "fldirty ds"
    and g: "gives (allocatedSize ds) (freelists ds) L (sz, off) fl'"
  shows "ds_inv (calcLargestFreeChunk (ds\<lparr>freelists := fl', frees := k\<rparr>)) L"
    "ds_full ds (insert (sz, off) L) \<Longrightarrow> ds_full (calcLargestFreeChunk (ds\<lparr>freelists := fl', frees := k\<rparr>)) L"
proof -
  note d = ds_invD [OF inv]
  have "disk_ok (calcLargestFreeChunk (ds\<lparr>freelists := fl', frees := k\<rparr>)) L" using d(8) fd by (rule disk_ok_dirty) simp
  moreover have "16 \<le> sz" using d(9) [of "(sz, off)"] by simp
  then have "\<forall>b \<in> fl_blocks fl' \<union> L. 16 \<le> fst b"
    using g d(9) unfolding gives_def by (metis Un_iff fst_conv insert_iff le_trans)
  ultimately show "ds_inv (calcLargestFreeChunk (ds\<lparr>freelists := fl', frees := k\<rparr>)) L"
    using g d(2-4) unfolding ds_inv_def gives_def by simp
  show "ds_full (calcLargestFreeChunk (ds\<lparr>freelists := fl', frees := k\<rparr>)) L" if "ds_full ds (insert (sz, off) L)"
    using that g unfolding ds_full_def gives_def by (simp add: Un_assoc)
qed

definition free_result :: "ds_env \<Rightarrow> datastore \<Rightarrow> block set \<Rightarrow> block \<Rightarrow> (unit, datastore) outcome \<Rightarrow> bool" where
  "free_result env ds L b r \<longleftrightarrow>
     (\<exists>ds'. r = ret () ds' \<and> ds_inv ds' (L - {b}) \<and> (ds_full ds L \<longrightarrow> ds_full ds' (L - {b})) \<and>
            dfile ds' = dfile ds \<and> allocatedSize ds' = allocatedSize ds) \<or>
     (\<exists>e ds'. r = throw e ds' \<and> ds_inv ds' L \<and> (ds_full ds L \<longrightarrow> ds_full ds' L) \<and>
            dfile ds' = dfile ds \<and> allocatedSize ds' = allocatedSize ds \<and> freelists ds' = freelists ds \<and>
            invalidate_error env e \<and> \<not> can_invalidate env)"

lemma freeChunk_result:
  assumes inv: "ds_inv ds L" and b: "(sz, off) \<in> L"
  shows "free_result env ds L (sz, off) (freeChunk env off sz ds)"
  using inv
proof (cases rule: invalidate_result [of ds L env])
  case (fail e ds')
  then show ?thesis
    by (auto simp: freeChunk_def free_result_def lists_kept_def ds_full_def)
next
  case (ok ds1)
  define L' where "L' = L - {(sz, off)}"
  have L: "L = insert (sz, off) L'" "(sz, off) \<notin> L'" using b by (auto simp: L'_def)
  note d = ds_invD [OF ok(2)]
  obtain fl' k where a: "addToFreelist (isDebug env) sz off ds1 = ret () (ds1\<lparr>freelists := fl', frees := k\<rparr>)"
    "gives (allocatedSize ds1) (freelists ds1) L' (sz, off) fl'"
    using addToFreelist_gives [OF d(1) d(5) [unfolded L(1)] L(2) d(4)] by blast
  define ds2 where "ds2 = calcLargestFreeChunk (ds1\<lparr>freelists := fl', frees := k\<rparr>)"
  have "freeChunk env off sz ds = ret () ds2" by (simp add: freeChunk_def ok(1) a(1) ds2_def)
  moreover have "ds_inv ds2 L'" "ds_full ds1 L \<Longrightarrow> ds_full ds2 L'"
    using ds_inv_gives [OF ok(2) [unfolded L(1)] ok(4) a(2)] by (simp_all add: ds2_def L(1))
  moreover have "ds_full ds L \<Longrightarrow> ds_full ds1 L" "dfile ds2 = dfile ds" "allocatedSize ds2 = allocatedSize ds"
    using ok(3) by (simp_all add: ds_full_def lists_kept_def ds2_def)
  ultimately show ?thesis by (auto simp: free_result_def L'_def)
qed

section \<open>Flushing\<close>

text \<open>
  The one failure of a flush that does not keep the invariant: the last call of
  \<^verbatim>\<open>persistFreelists\<close> throws after the lists were written. The file on disk is then
  complete and counts as valid after a restart, and the store, which still takes it for
  invalidated, will not invalidate it before the next change.
\<close>

definition half_flushed :: "datastore \<Rightarrow> bool" where
  "half_flushed ds \<longleftrightarrow> fldirty ds \<and> freelists ds \<noteq> [] \<and> flfile ds = Some (file_bytes (freelists ds))"

definition can_persist :: "ds_env \<Rightarrow> freelists \<Rightarrow> bool" where
  "can_persist env fl \<longleftrightarrow>
     open_fl_ok env \<and> \<not> full env Open_fl \<and> length (file_bytes fl) \<le> fl_room env \<and> length fl + 2 \<le> fl_calls env"

lemma persist_result:
  assumes inv: "ds_inv ds L"
  obtains (ok) ds' where "persistFreelists env ds = ret () ds'" "ds_inv ds' L" "lists_kept ds ds'"
      "dirty ds' = dirty ds" "\<not> fldirty ds'" "flfile ds' = Some (file_bytes (freelists ds))"
  | (fail) e ds' where "persistFreelists env ds = throw e ds'" "\<not> half_flushed ds' \<Longrightarrow> ds_inv ds' L" "lists_kept ds ds'"
      "dirty ds' = dirty ds" "fldirty ds' = fldirty ds" "\<not> can_persist env (freelists ds)"
proof -
  have flok: "freelists_ok (freelists ds)" by (rule ds_inv_freelists_ok [OF inv])
  then have ne: "\<forall>(k, b) \<in> set (freelists ds). b \<noteq> []" by (auto simp: freelists_ok_def bucket_ok_def)
  have good: "disk_ok (ds\<lparr>flfile := Some (file_bytes (freelists ds)), fldirty := False\<rparr>) L" unfolding disk_ok_def
    by (rule disjI2, rule exI [of _ "freelists ds"], rule exI [of _ "length (file_bytes (freelists ds))"])
      (use ds_invD [OF inv] in \<open>simp add: flok\<close>)
  have part: "disk_ok (ds\<lparr>flfile := Some (take j (file_bytes (freelists ds)))\<rparr>) L"
    if "\<not> half_flushed (ds\<lparr>flfile := Some (take j (file_bytes (freelists ds)))\<rparr>)" for j unfolding disk_ok_def
    by (rule disjI2, rule exI [of _ "freelists ds"], rule exI [of _ j])
      (use that ds_invD [OF inv] flok in \<open>auto simp: half_flushed_def\<close>)
  have kept: "lists_kept ds (ds\<lparr>flfile := f\<rparr>)" "lists_kept ds (ds\<lparr>flfile := f, fldirty := b\<rparr>)" for f b
    by (simp_all add: lists_kept_def)
  have thrown: thesis if "persistFreelists env ds = throw e (ds\<lparr>flfile := Some (take j (file_bytes (freelists ds)))\<rparr>)"
    "\<not> can_persist env (freelists ds)" for e j
    using that(1) ds_inv_kept [OF kept(1) inv part] kept(1) _ _ that(2) by (rule fail) simp_all
  consider "\<not> open_fl_ok env" | "open_fl_ok env" "full env Open_fl" | "open_fl_ok env" "\<not> full env Open_fl" by blast
  then show thesis
  proof cases
    case 1
    then show thesis
      using fail [of LE_CANT_OPEN_PATH ds] inv by (simp add: persistFreelists_def lists_kept_def can_persist_def)
  next
    case 2
    then show thesis using thrown [of Undefined_Behaviour 0] by (simp add: persistFreelists_def can_persist_def)
  next
    case 3
    from persist_file_result [OF ne, of "fl_room env" "fl_calls env"] consider
      c where "persist_file (freelists ds) (fl_room env) (fl_calls env) = ret () (file_bytes (freelists ds), c)"
      | e j c where "persist_file (freelists ds) (fl_room env) (fl_calls env) = throw e (take j (file_bytes (freelists ds)), c)"
        "\<not> can_persist env (freelists ds)"
      unfolding persisted_def can_persist_def by fastforce
    then show thesis
    proof cases
      case (1 c)
      then show thesis
        using 3 ok [of "ds\<lparr>flfile := Some (file_bytes (freelists ds)), fldirty := False\<rparr>"] kept(2)
          ds_inv_kept [OF kept(2) inv good] by (simp add: persistFreelists_def ret_def)
    next
      case (2 e j c)
      then show thesis using 3 thrown [of e j] by (simp add: persistFreelists_def throw_def)
    qed
  qed
qed

lemma ds_inv_dirty [simp]: "ds_inv (ds\<lparr>dirty := b\<rparr>) L = ds_inv ds L" "lists_kept (ds\<lparr>dirty := b\<rparr>) = lists_kept ds"
  by (simp_all add: ds_inv_def largest_ok_def disk_ok_def lists_kept_def fun_eq_iff)

lemma flush_result:
  assumes inv: "ds_inv ds L"
  shows "\<not> half_flushed (snd (flush env ds)) \<Longrightarrow> ds_inv (snd (flush env ds)) L" "lists_kept ds (snd (flush env ds))"
    "fst (flush env ds) = Inr () \<Longrightarrow> fldirty ds \<Longrightarrow>
       flfile (snd (flush env ds)) = Some (file_bytes (freelists ds))"
    "fst (flush env ds) = Inr () \<Longrightarrow> \<not> dirty (snd (flush env ds)) \<and> \<not> fldirty (snd (flush env ds))"
proof -
  have kept: "lists_kept ds ds" by (simp add: lists_kept_def)
  define ds1 where "ds1 = (if dirty ds then ds\<lparr>dirty := False\<rparr> else ds)"
  have ds1: "ds_inv ds1 L" "lists_kept ds1 = lists_kept ds" "\<not> dirty ds1" "freelists ds1 = freelists ds"
    "fldirty ds1 = fldirty ds"
    using inv by (simp_all add: ds1_def)
  have fl: "flush env ds = (if dirty ds \<and> full env Fsync then throw LE_TOO_MANY_OPEN_FILES ds
      else if dirty ds \<and> \<not> fsync_ok env then throw LE_OPERATION_FAILED ds
      else if fldirty ds1 then persistFreelists env ds1 else ret () ds1)"
    by (simp add: flush_def ds1_def)
  define good where "good r \<longleftrightarrow> (\<not> half_flushed (snd r) \<longrightarrow> ds_inv (snd r) L) \<and> lists_kept ds (snd r) \<and>
      (fst r = Inr () \<longrightarrow> fldirty ds \<longrightarrow> flfile (snd r) = Some (file_bytes (freelists ds))) \<and>
      (fst r = Inr () \<longrightarrow> \<not> dirty (snd r) \<and> \<not> fldirty (snd r))" for r :: "(unit, datastore) outcome"
  have "good (persistFreelists env ds1)" using ds1(1)
  proof (cases rule: persist_result [of ds1 L env])
    case (ok ds')
    then show ?thesis using ds1 by (simp add: good_def)
  next
    case (fail e ds')
    then show ?thesis using ds1 by (simp add: good_def)
  qed
  moreover have "good (throw e ds)" for e using inv kept by (simp add: good_def)
  moreover have "good (ret () ds1)" if "\<not> fldirty ds1"
    using that ds1 by (simp add: good_def) (simp add: lists_kept_def ds1_def)
  ultimately have "good (flush env ds)" unfolding fl by simp
  then show "\<not> half_flushed (snd (flush env ds)) \<Longrightarrow> ds_inv (snd (flush env ds)) L" "lists_kept ds (snd (flush env ds))"
    "fst (flush env ds) = Inr () \<Longrightarrow> fldirty ds \<Longrightarrow>
       flfile (snd (flush env ds)) = Some (file_bytes (freelists ds))"
    "fst (flush env ds) = Inr () \<Longrightarrow> \<not> dirty (snd (flush env ds)) \<and> \<not> fldirty (snd (flush env ds))"
    unfolding good_def by blast+
qed

section \<open>Opening a store\<close>

text \<open>With less memory the reader does the same or fails to allocate.\<close>

lemma FreelistBucket_read_mem:
  "mem \<le> mem' \<Longrightarrow> FreelistBucket_read mem f off = Inl Bad_Alloc \<or>
     FreelistBucket_read mem f off = FreelistBucket_read mem' f off"
  by (simp add: FreelistBucket_read_def Let_def)

lemma read_buckets_mem:
  assumes "mem \<le> mem'"
  shows "read_buckets mem f n off fl = Inl Bad_Alloc \<or> read_buckets mem f n off fl = read_buckets mem' f n off fl"
proof (induction n arbitrary: off fl)
  case (Suc n)
  show ?case
  proof (cases "FreelistBucket_read mem f off = Inl Bad_Alloc")
    case False
    then have "FreelistBucket_read mem' f off = FreelistBucket_read mem f off"
      using FreelistBucket_read_mem [OF assms, of f off] by auto
    then show ?thesis using Suc.IH by (simp split: sum.split)
  qed simp
qed simp

lemma read_file_mem:
  assumes "mem \<le> mem'"
  shows "read_file mem f fl = throw Bad_Alloc fl \<or> read_file mem f fl = read_file mem' f fl"
proof (cases "read_buckets mem f (le_val (pread f 0 8)) 8 fl = Inl Bad_Alloc")
  case False
  then have "read_buckets mem' f (le_val (pread f 0 8)) 8 fl = read_buckets mem f (le_val (pread f 0 8)) 8 fl"
    using read_buckets_mem [OF assms] by metis
  then show ?thesis by (simp add: read_file_def Let_def)
qed (auto simp: read_file_def Let_def is_SystemException_def)

lemma freelists_fit: "freelists_ok fl \<Longrightarrow> fits (max mem (2 ^ 64)) fl"
  by (auto simp: freelists_ok_def fits_def bucket_ok_def le_max_iff_disj)

lemma read_file_take:
  assumes "freelists_ok fl" "read_file mem (take j (file_bytes fl)) [] = ret n fl'"
  shows "fl' = [] \<or> (fl' = fl \<and> length (file_bytes fl) \<le> j)"
proof -
  define mem' where "mem' = max mem (2 ^ 64)"
  have eq: "read_file mem' (take j (file_bytes fl)) [] = ret n fl'"
    using read_file_mem [of mem mem' "take j (file_bytes fl)" "[]"] assms(2) by (auto simp: mem'_def)
  have fit: "fits mem' fl" unfolding mem'_def using assms(1) by (rule freelists_fit)
  have len: "8 \<le> length (file_bytes fl)" by (simp add: file_bytes_def)
  consider "j < 8" | "8 \<le> j" "j < length (file_bytes fl)" | "length (file_bytes fl) \<le> j" by linarith
  then show ?thesis
  proof cases
    case 1
    then show ?thesis using eq len by (auto simp: read_file_def split: if_splits)
  next
    case 2
    then show ?thesis using eq read_file_cut [OF assms(1) fit] by simp
  next
    case 3
    then show ?thesis using eq read_file_ok [OF assms(1) fit] by simp
  qed
qed

definition opened :: "ds_env \<Rightarrow> bool" where
  "opened env \<longleftrightarrow> 16 \<le> minAllocSize env \<and> minAllocSize env \<le> 2 ^ 61"

text \<open>A new store is one free block.\<close>

lemma DataStore_new:
  assumes "opened env" "f = None \<or> f = Some []" "DataStore env gid f flf flsh = ret () ds"
    and "flf = None"
  shows "ds_inv ds {}" "ds_full ds {}" "sized ds" "length (dfile ds) \<le> allocatedSize ds"
    "minAllocSize env \<le> allocatedSize ds"
proof -
  define A where "A = roundUp (minAllocSize env)"
  have m: "1 \<le> minAllocSize env" "minAllocSize env \<le> 2 ^ 61" "16 \<le> minAllocSize env"
    using assms(1) by (simp_all add: opened_def)
  have A: "pow2 A" "minAllocSize env \<le> A" "A < 2 * minAllocSize env"
    using roundUp_correct [of "minAllocSize env"] m by (simp_all add: A_def)
  have A62: "A \<le> 2 ^ 62" "16 \<le> A" using A(2,3) m by simp_all
  have zero: "roundUp 0 = 0" by (rule roundUp_wraps) simp_all
  have fempty: "(case f of None \<Rightarrow> [] | Some bs \<Rightarrow> bs) = []" using assms(2) by auto
  have ds: "ds = calcLargestFreeChunk \<lparr>guid = gid, dfile = truncate_to A [], flfile = flf,
      freelists = fl_insert A 0 [], frees = 0, largestFreeChunk = 0, allocatedSize = A, dirty = False,
      fldirty = False, dsm_flusher = flsh\<rparr>"
    using assms(3) m(1)
    by (auto simp: DataStore_def initializeFreelist_def Let_def zero fempty A_def [symmetric] split: if_splits)
  have fl: "freelists ds = fl_insert A 0 []" "allocatedSize ds = A" "flfile ds = None" "dfile ds = truncate_to A []"
    using ds assms(4) by simp_all
  have "aligned (A, 0)" using A(1) by (simp add: aligned_def)
  then have "space_ok A {(A, 0)} {}" by (simp add: space_ok_def blocks_wf_def extent_def atLeast0LessThan)
  moreover have "largest_ok ds" using ds by simp
  moreover have "disk_ok ds L" for L by (simp add: disk_ok_def fl)
  ultimately show "ds_inv ds {}" using A A62 by (simp add: ds_inv_def fl)
  show "ds_full ds {}" by (simp add: ds_full_def fl extent_def atLeast0LessThan)
  show "sized ds" "length (dfile ds) \<le> allocatedSize ds" "minAllocSize env \<le> allocatedSize ds"
    using A(2) by (simp_all add: sized_def fl)
qed

text \<open>A store found on disk: the live chunks stay, the free list is the old one or empty.\<close>

lemma DataStore_reopen:
  assumes inv: "ds_inv ds L" and sz: "roundUp (length (dfile ds)) = allocatedSize ds"
    and min: "minAllocSize env \<le> allocatedSize ds"
    and run: "DataStore env gid (Some (dfile ds)) (flfile ds) flsh = ret () ds'"
  shows "ds_inv ds' L" "dfile ds' = dfile ds" "allocatedSize ds' = allocatedSize ds" "flfile ds' = flfile ds"
proof -
  note d = ds_invD [OF inv]
  define ds0 where "ds0 = \<lparr>guid = gid, dfile = dfile ds, flfile = flfile ds, freelists = [], frees = 0,
      largestFreeChunk = 0, allocatedSize = allocatedSize ds, dirty = False, fldirty = False, dsm_flusher = flsh\<rparr>"
  have run': "andThen (readFreelistFromFile env ds0) (\<lambda>_ ds1. ret () (calcLargestFreeChunk ds1)) = ret () ds'"
    using sz run min by (auto simp: DataStore_def initializeFreelist_def Let_def ds0_def split: if_splits)
  then obtain n ds1 where r: "readFreelistFromFile env ds0 = ret n ds1" and ds': "ds' = calcLargestFreeChunk ds1"
    by (auto simp: andThen_eq_ret)
  obtain fl where fl: "ds1 = ds0\<lparr>freelists := fl\<rparr>" "fl_ok fl" "space_ok (allocatedSize ds) (fl_blocks fl) L"
    "\<forall>b \<in> fl_blocks fl. 16 \<le> fst b"
  proof -
    note found = that
    have sp0: "space_ok (allocatedSize ds) (fl_blocks []) L"
      using d(5) blocks_wf_subset by (auto simp: space_ok_def)
    have triv: thesis if "ds1 = ds0" using found [of "[]"] sp0 that by (simp add: ds0_def)
    show thesis
    proof (cases "flfile ds = None \<or> \<not> open_fl_ok env \<or> \<not> fstat_ok env \<or> flfile ds = Some [] \<or> fl_reading env \<noteq> Fl_reads")
      case True
      then have "ds1 = ds0"
        using r by (cases "fl_reading env") (auto simp: readFreelistFromFile_def ds0_def split: option.splits if_splits)
      then show thesis by (rule triv)
    next
      case False
      then obtain g j where g: "flfile ds = Some (take j (file_bytes g))" "freelists_ok g"
        "length (file_bytes g) \<le> j \<Longrightarrow> g = [] \<or> (fl_ok g \<and> space_ok (allocatedSize ds) (fl_blocks g) L \<and>
           (\<forall>b \<in> fl_blocks g. 16 \<le> fst b))"
        using d(8) unfolding disk_ok_def by blast
      obtain fl where rf: "read_file (mem_limit env) (take j (file_bytes g)) [] = ret n fl"
        and ds1: "ds1 = ds0\<lparr>freelists := fl\<rparr>"
        using r False g(1)
        by (cases "read_file (mem_limit env) (take j (file_bytes g)) []" rule: outcome_cases)
          (auto simp: readFreelistFromFile_def ds0_def throw_def ret_def split: if_splits)
      from read_file_take [OF g(2) rf] show thesis
      proof
        assume "fl = []"
        then show thesis using triv ds1 by (simp add: ds0_def)
      next
        assume "fl = g \<and> length (file_bytes g) \<le> j"
        then show thesis using found [OF ds1] g(3) triv ds1 by (auto simp: ds0_def)
      qed
    qed
  qed
  show "dfile ds' = dfile ds" "allocatedSize ds' = allocatedSize ds" "flfile ds' = flfile ds"
    using fl(1) ds' by (simp_all add: ds0_def)
  have "disk_ok ds' L" using d(8) fl(1) ds' unfolding disk_ok_def by (auto simp: ds0_def)
  moreover have "freelists ds' = fl" using fl(1) ds' by simp
  ultimately show "ds_inv ds' L"
    using fl d(2-4,9) ds' by (simp add: ds_inv_def) (auto simp: ds0_def)
qed

text \<open>After a flush the lists are read back as they were.\<close>

definition opens :: "ds_env \<Rightarrow> bool" where
  "opens env \<longleftrightarrow> open_data_ok env \<and> open_fl_ok env \<and> fstat_ok env \<and> fl_reading env = Fl_reads \<and> (\<forall>c. \<not> full env c)"

lemma DataStore_reopen_flushed:
  assumes inv: "ds_inv ds L" and sz: "roundUp (length (dfile ds)) = allocatedSize ds" and min: "minAllocSize env \<le> allocatedSize ds"
    and fl: "flfile ds = Some (file_bytes (freelists ds))" "fits (mem_limit env) (freelists ds)"
    and ok: "opens env"
  shows "\<exists>ds'. DataStore env gid (Some (dfile ds)) (flfile ds) flsh = ret () ds' \<and> freelists ds' = freelists ds \<and>
     largestFreeChunk ds' = largestFreeChunk ds \<and> allocatedSize ds' = allocatedSize ds \<and> dfile ds' = dfile ds"
proof -
  note d = ds_invD [OF inv]
  have "length (file_bytes (freelists ds)) \<noteq> 0" unfolding file_bytes_def by simp
  then have "file_bytes (freelists ds) \<noteq> []" by blast
  moreover have "read_file (mem_limit env) (file_bytes (freelists ds)) [] = ret (length (freelists ds)) (freelists ds)"
    by (rule read_file_ok [OF ds_inv_freelists_ok [OF inv] fl(2)])
  ultimately show ?thesis
    using sz min ok fl(1) d(7) unfolding opens_def
    by (simp add: DataStore_def initializeFreelist_def Let_def readFreelistFromFile_def)
      (simp add: ret_def andThen_def calcLargestFreeChunk_def largest_ok_def)
qed

end
