(* ===== verification/Data_Store_Run.thy ===== *)
theory Data_Store_Run
  imports Data_Store_Inv
begin

text \<open>
  Runs of a data store over failing calls, crashes and restarts; the contents of the chunks;
  the accounting of the space; the properties of the data store and of its free-list file.
\<close>

section \<open>Chunks are read back\<close>

lemma pread_pwrite_other:
  assumes "off' + n \<le> off \<or> off + length bs \<le> off'" "off' + n \<le> length f"
  shows "pread (pwrite f off bs) off' n = pread f off' n"
  by (cases "bs = []", simp) (rule nth_equalityI; use assms in \<open>auto simp: pread_def length_pwrite nth_pwrite\<close>)

lemma pread_append: "off + n \<le> length f \<Longrightarrow> pread (f @ zs) off n = pread f off n"
  by (simp add: pread_def)

lemma length_hdr [simp]: "length (DiskChunkHeader b n) = 16"
  by (simp add: DiskChunkHeader_def)

lemma hdr_valid [simp]: "hdr_isValid (DiskChunkHeader b n)"
  by (cases b) (simp_all add: hdr_isValid_def DiskChunkHeader_def usedValue_def freeValue_def)

text \<open>The chunk in a block was written with these bytes.\<close>

definition stored :: "byte list \<Rightarrow> block \<Rightarrow> byte list \<Rightarrow> bool" where
  "stored f b buf \<longleftrightarrow> snd b + 16 + length buf \<le> length f \<and>
     pread f (snd b) (16 + length buf) = DiskChunkHeader False (fst b) @ buf"

lemma stored_read:
  assumes "stored (dfile ds) (sz, off) buf" "read_ok env" "\<not> full env Read_data" "n \<le> length buf"
  shows "readData env off n ds = ret (take n buf) ds"
proof -
  have p: "pread (dfile ds) off (16 + length buf) = DiskChunkHeader False sz @ buf"
    using assms(1) by (simp add: stored_def)
  have "pread (dfile ds) off 16 = take 16 (pread (dfile ds) off (16 + length buf))"
    "pread (dfile ds) (off + 16) n = take n (drop 16 (pread (dfile ds) off (16 + length buf)))"
    using assms(4) by (simp_all add: pread_def drop_take add.commute)
  then have "pread (dfile ds) off 16 = DiskChunkHeader False sz" "pread (dfile ds) (off + 16) n = take n buf"
    unfolding p by simp_all
  then show ?thesis using assms by (simp add: readData_def header_size_def stored_def)
qed

lemma stored_append: "stored f b buf \<Longrightarrow> stored (f @ zs) b buf"
  using pread_append [of "snd b" "16 + length buf" f zs] by (simp add: stored_def)

lemma stored_pwrite_other:
  assumes "stored f b buf" "length buf + 16 \<le> fst b" "length bs \<le> fst b'" "extent b \<inter> extent b' = {}"
  shows "stored (pwrite f (snd b') bs) b buf"
proof (cases "bs = []")
  case False
  then have "0 < length bs" by simp
  have "snd b + (16 + length buf) \<le> snd b' \<or> snd b' + length bs \<le> snd b"
  proof (rule ccontr)
    assume "\<not> ?thesis"
    then have "max (snd b) (snd b') \<in> extent b \<inter> extent b'"
      using assms(2,3) less_le_trans [OF \<open>0 < length bs\<close> assms(3)] by (auto simp: extent_def)
    then show False using assms(4) by blast
  qed
  then show ?thesis
    using assms(1) pread_pwrite_other [of "snd b" "16 + length buf" "snd b'" bs f] False
    by (auto simp: stored_def length_pwrite)
qed (use assms in simp)

lemma stored_pwrite: "stored (pwrite f off (DiskChunkHeader False sz @ buf)) (sz, off) buf"
proof -
  have "DiskChunkHeader False sz \<noteq> []" using length_hdr [of False sz] by (metis length_0_conv zero_neq_numeral)
  then show ?thesis
    using pread_pwrite [of "DiskChunkHeader False sz @ buf" f off] by (simp add: stored_def length_pwrite)
qed

section \<open>Runs of a store\<close>

type_synonym store = "datastore \<times> block set \<times> (block \<rightharpoonup> byte list)"

text \<open>
  A run of a store with what its clients know: the blocks they hold, and what they have
  written to them. They free and write only blocks they hold and write no more than fits
  into the block. Every call may fail, and after any step the process may stop and the store
  be opened again from its two files, whatever these hold. The events of a run record what
  the properties need to speak about it.
\<close>

datatype store_event =
  Ev_alloc ds_env nat datastore
| Ev_call
| Ev_flush datastore
| Ev_reopen ds_env datastore

inductive store_step :: "store \<Rightarrow> store_event \<Rightarrow> store \<Rightarrow> bool" where
  st_alloc: "allocateSpace env n ds = Some (ret (off, sz) ds') \<Longrightarrow>
     store_step (ds, L, C) (Ev_alloc env n ds) (ds', insert (sz, off) L, C((sz, off) := None))"
| st_alloc_fail: "allocateSpace env n ds = Some (throw e ds') \<Longrightarrow> store_step (ds, L, C) (Ev_alloc env n ds) (ds', L, C)"
| st_free: "freeChunk env off sz ds = ret () ds' \<Longrightarrow> (sz, off) \<in> L \<Longrightarrow>
     store_step (ds, L, C) Ev_call (ds', L - {(sz, off)}, C((sz, off) := None))"
| st_free_fail: "freeChunk env off sz ds = throw e ds' \<Longrightarrow> (sz, off) \<in> L \<Longrightarrow> store_step (ds, L, C) Ev_call (ds', L, C)"
| st_write: "writeData env off buf sz ds = ret () ds' \<Longrightarrow> (sz, off) \<in> L \<Longrightarrow> length buf + 16 \<le> sz \<Longrightarrow>
     store_step (ds, L, C) Ev_call (ds', L, C((sz, off) \<mapsto> buf))"
| st_write_fail: "writeData env off buf sz ds = throw e ds' \<Longrightarrow> (sz, off) \<in> L \<Longrightarrow> length buf + 16 \<le> sz \<Longrightarrow>
     store_step (ds, L, C) Ev_call (ds', L, C((sz, off) := None))"
| st_flush: "flush env ds = (r, ds') \<Longrightarrow> store_step (ds, L, C) (Ev_flush ds') (ds', L, C)"
| st_reopen: "DataStore env gid (Some (dfile ds)) (flfile ds) flsh = ret () ds' \<Longrightarrow>
     store_step (ds, L, C) (Ev_reopen env ds) (ds', L, C)"

inductive store_run :: "store \<Rightarrow> store_event list \<Rightarrow> store \<Rightarrow> bool" where
  run_none: "store_run s [] s"
| run_step: "store_run s tr s1 \<Longrightarrow> store_step s1 ev s2 \<Longrightarrow> store_run s (tr @ [ev]) s2"

inductive_cases store_runE: "store_run s tr s'"

text \<open>
  The events after which the code keeps its promises. Allocations are of at most
  \<open>2 ^ 61\<close> bytes in a store of at most that size. No flush fails in its last call, after it
  wrote the free lists. A store is opened again when its file has the size of the store,
  rounded up, and this is not below the minimum: it is not opened between a failed growth
  and the next successful one, nor with a larger minimum.
\<close>

definition orderly :: "store_event \<Rightarrow> bool" where
  "orderly ev \<longleftrightarrow>
     (case ev of
        Ev_alloc env n ds \<Rightarrow> env_sane env \<and> n + 16 \<le> 2 ^ 61 \<and> allocatedSize ds \<le> 2 ^ 61
      | Ev_call \<Rightarrow> True
      | Ev_flush ds' \<Rightarrow> \<not> half_flushed ds'
      | Ev_reopen env ds \<Rightarrow> roundUp (length (dfile ds)) = allocatedSize ds \<and> minAllocSize env \<le> allocatedSize ds)"

lemma orderly_simps [simp]:
  "orderly (Ev_alloc env n ds) \<longleftrightarrow> env_sane env \<and> n + 16 \<le> 2 ^ 61 \<and> allocatedSize ds \<le> 2 ^ 61"
  "orderly Ev_call" "orderly (Ev_flush ds) \<longleftrightarrow> \<not> half_flushed ds"
  "orderly (Ev_reopen env ds) \<longleftrightarrow> roundUp (length (dfile ds)) = allocatedSize ds \<and> minAllocSize env \<le> allocatedSize ds"
  by (simp_all add: orderly_def)

definition store_inv :: "store \<Rightarrow> bool" where
  "store_inv s \<longleftrightarrow> (case s of (ds, L, C) \<Rightarrow>
     ds_inv ds L \<and> length (dfile ds) \<le> allocatedSize ds \<and>
     (\<forall>b buf. C b = Some buf \<longrightarrow> b \<in> L \<and> length buf + 16 \<le> fst b \<and> stored (dfile ds) b buf))"

lemma store_invI:
  assumes "ds_inv ds L" "length (dfile ds) \<le> allocatedSize ds"
    "\<And>b buf. C b = Some buf \<Longrightarrow> b \<in> L \<and> length buf + 16 \<le> fst b \<and> stored (dfile ds) b buf"
  shows "store_inv (ds, L, C)"
  using assms unfolding store_inv_def by blast

lemma store_invD:
  assumes "store_inv (ds, L, C)"
  shows "ds_inv ds L" "length (dfile ds) \<le> allocatedSize ds"
    "C b = Some buf \<Longrightarrow> b \<in> L" "C b = Some buf \<Longrightarrow> length buf + 16 \<le> fst b"
    "C b = Some buf \<Longrightarrow> stored (dfile ds) b buf"
  using assms unfolding store_inv_def prod.case by blast+

lemma live_disjoint:
  assumes "ds_inv ds L" "b \<in> L" "b' \<in> L" "b \<noteq> b'"
  shows "extent b \<inter> extent b' = {}"
  using ds_invD(5) [OF assms(1)] assms(2-4) unfolding space_ok_def blocks_wf_def by blast

lemma live_inside:
  assumes "ds_inv ds L" "(sz, off) \<in> L"
  shows "aligned (sz, off)" "off + sz \<le> allocatedSize ds"
proof -
  have "blocks_wf (allocatedSize ds) L" using ds_invD(5) [OF assms(1)] blocks_wf_subset by (auto simp: space_ok_def)
  then show "aligned (sz, off)" "off + sz \<le> allocatedSize ds" using blocks_wf_block(1,2) assms(2) by blast+
qed

lemma store_inv_write:
  assumes inv: "store_inv (ds, L, C)" and b: "(sz, off) \<in> L" and bs: "length bs \<le> sz"
    and k: "ds_inv ds' L" "dfile ds' = pwrite (dfile ds) off bs" "allocatedSize ds' = allocatedSize ds"
    and c: "c = None \<or> (\<exists>buf. c = Some buf \<and> length buf + 16 \<le> sz \<and> bs = DiskChunkHeader False sz @ buf)"
  shows "store_inv (ds', L, C((sz, off) := c))"
proof (rule store_invI)
  note v = store_invD [OF inv]
  show "length (dfile ds') \<le> allocatedSize ds'"
    using v(2) live_inside(2) [OF v(1) b] bs unfolding k by (cases "bs = []") (auto simp: length_pwrite)
  fix b' buf assume s: "(C((sz, off) := c)) b' = Some buf"
  show "b' \<in> L \<and> length buf + 16 \<le> fst b' \<and> stored (dfile ds') b' buf"
  proof (cases "b' = (sz, off)")
    case True
    then show ?thesis using s c b stored_pwrite [of "dfile ds" off sz buf] by (auto simp: k)
  next
    case False
    then have C: "C b' = Some buf" using s by simp
    show ?thesis
      using stored_pwrite_other [OF v(5) [OF C] v(4) [OF C], of bs "(sz, off)"] v(3,4) [OF C] bs
        live_disjoint [OF v(1) v(3) [OF C] b False]
      by (simp add: k)
  qed
qed (rule k)

lemma writeData_result:
  obtains (ok) ds' where "writeData env off buf sz ds = ret () ds'" "flfile ds' = flfile ds" "fldirty ds' = fldirty ds"
      "lists_kept (ds\<lparr>dfile := pwrite (dfile ds) off (DiskChunkHeader False sz @ buf)\<rparr>) ds'"
  | (fail) e j ds' where "writeData env off buf sz ds = throw e ds'" "flfile ds' = flfile ds" "fldirty ds' = fldirty ds"
      "lists_kept (ds\<lparr>dfile := pwrite (dfile ds) off (take j (DiskChunkHeader False sz @ buf))\<rparr>) ds'"
proof -
  consider "full env Write_data" | "\<not> full env Write_data" "write_cut env = None"
    | k where "\<not> full env Write_data" "write_cut env = Some k" by (cases "write_cut env") auto
  then show thesis
  proof cases
    case 1
    then show thesis by (intro fail [of LE_TOO_MANY_OPEN_FILES ds 0])
        (simp_all add: writeData_def lists_kept_def pwrite_def)
  next
    case 2
    then show thesis by (intro ok [of "snd (writeData env off buf sz ds)"])
        (simp_all add: writeData_def Let_def lists_kept_def)
  next
    case (3 k)
    then show thesis
      by (intro fail [of LE_PWRITE_ERROR "snd (writeData env off buf sz ds)" "min k (length (DiskChunkHeader False sz @ buf) - 1)"])
        (simp_all add: writeData_def Let_def lists_kept_def)
  qed
qed

lemma ds_inv_written:
  assumes "ds_inv ds L" "lists_kept (ds\<lparr>dfile := f\<rparr>) ds'" "flfile ds' = flfile ds" "fldirty ds' = fldirty ds"
  shows "ds_inv ds' L"
  using assms unfolding ds_inv_def largest_ok_def disk_ok_def lists_kept_def by simp

lemma store_inv_file:
  assumes "store_inv (ds, L, C)" "ds_inv ds' L'" "appended ds ds'" "\<And>b buf. C' b = Some buf \<Longrightarrow> C b = Some buf \<and> b \<in> L'"
  shows "store_inv (ds', L', C')"
proof -
  note v = store_invD [OF assms(1)]
  obtain zs where "dfile ds' = dfile ds @ zs" "length (dfile ds') \<le> allocatedSize ds'"
    using assms(3) v(2) by (auto simp: appended_def)
  then show ?thesis
    using assms(2,4) v(4,5) stored_append by (intro store_invI) metis+
qed

lemma appended_same: "dfile ds' = dfile ds \<Longrightarrow> allocatedSize ds' = allocatedSize ds \<Longrightarrow> appended ds ds'"
  by (simp add: appended_def)

lemma store_step_inv:
  assumes "store_step s ev s'" "store_inv s" "orderly ev"
  shows "store_inv s'"
  using assms
proof (induction rule: store_step.induct)
  case (st_alloc env n ds off sz ds' L C)
  then show ?case
    using allocateSpace_result [of ds L env n] store_invD(1,3) [OF st_alloc(2)]
    by (intro store_inv_file [OF st_alloc(2)]) (auto simp: alloc_result_def split: if_splits)
next
  case (st_alloc_fail env n ds e ds' L C)
  then show ?case
    using allocateSpace_result [of ds L env n] store_invD(1,3) [OF st_alloc_fail(2)]
    by (intro store_inv_file [OF st_alloc_fail(2)]) (auto simp: alloc_result_def)
next
  case (st_free env off sz ds ds' L C)
  then show ?case
    using freeChunk_result [of ds L sz off env] store_invD(1,3) [OF st_free(3)]
    by (intro store_inv_file [OF st_free(3)] appended_same) (auto simp: free_result_def split: if_splits)
next
  case (st_free_fail env off sz ds e ds' L C)
  then show ?case
    using freeChunk_result [of ds L sz off env] store_invD(1,3) [OF st_free_fail(3)]
    by (intro store_inv_file [OF st_free_fail(3)] appended_same) (auto simp: free_result_def)
next
  case (st_write env off buf sz ds ds' L C)
  show ?case
  proof (cases rule: writeData_result [of env off buf sz ds])
    case (ok ds2)
    then have [simp]: "ds2 = ds'" using st_write(1) by simp
    show ?thesis
      using ds_inv_written [OF store_invD(1) [OF st_write(4)] ok(4,2,3)] ok(4) st_write(3)
      by (intro store_inv_write [OF st_write(4,2), of "DiskChunkHeader False sz @ buf"]) (auto simp: lists_kept_def)
  qed (use st_write(1) in simp)
next
  case (st_write_fail env off buf sz ds e ds' L C)
  show ?case
  proof (cases rule: writeData_result [of env off buf sz ds])
    case (fail x j ds2)
    then have [simp]: "ds2 = ds'" using st_write_fail(1) by simp
    show ?thesis
      using ds_inv_written [OF store_invD(1) [OF st_write_fail(4)] fail(4,2,3)] fail(4) st_write_fail(3)
      by (intro store_inv_write [OF st_write_fail(4,2), of "take j (DiskChunkHeader False sz @ buf)"]) (auto simp: lists_kept_def)
  qed (use st_write_fail(1) in simp)
next
  case (st_flush env ds r ds' L C)
  then show ?case
    using flush_result(1,2) [OF store_invD(1) [OF st_flush(2)], of env] store_invD(3) [OF st_flush(2)]
    by (intro store_inv_file [OF st_flush(2)] appended_same) (auto simp: lists_kept_def)
next
  case (st_reopen env gid ds flsh ds' L C)
  then show ?case
    using DataStore_reopen [OF store_invD(1) [OF st_reopen(2)] _ _ st_reopen(1)] store_invD(3) [OF st_reopen(2)]
    by (intro store_inv_file [OF st_reopen(2)] appended_same) auto
qed

lemma store_run_inv:
  assumes "store_run s tr s'" "store_inv s" "\<forall>ev \<in> set tr. orderly ev"
  shows "store_inv s'"
  using assms by (induction rule: store_run.induct) (auto intro: store_step_inv)

definition store_start :: "store \<Rightarrow> bool" where
  "store_start s \<longleftrightarrow>
     (\<exists>env gid f flsh ds. (f = None \<or> f = Some []) \<and> opened env \<and> DataStore env gid f None flsh = ret () ds \<and>
        s = (ds, {}, Map.empty))"

lemma store_start_run_inv:
  assumes "store_start s0" "store_run s0 tr s" "\<forall>ev \<in> set tr. orderly ev"
  shows "store_inv s"
proof -
  have "store_inv s0"
    using assms(1) by (auto simp: store_start_def intro!: store_invI dest: DataStore_new)
  then show ?thesis using store_run_inv [OF assms(2)] assms(3) by simp
qed

section \<open>Accounting\<close>

text \<open>What holds of every set of blocks that lie apart inside a space of a given size.\<close>

locale block_space =
  fixes space :: "'s \<Rightarrow> nat" and holds :: "'s \<Rightarrow> block set \<Rightarrow> bool"
  assumes inside: "holds s B \<Longrightarrow> b \<in> B \<Longrightarrow> snd b + fst b \<le> space s"
    and nonempty: "holds s B \<Longrightarrow> b \<in> B \<Longrightarrow> 0 < fst b"
    and apart: "holds s B \<Longrightarrow> b \<in> B \<Longrightarrow> c \<in> B \<Longrightarrow> b \<noteq> c \<Longrightarrow> extent b \<inter> extent c = {}"
begin

lemma finite_blocks:
  assumes "holds s B"
  shows "finite B"
proof (rule finite_subset)
  show "B \<subseteq> {..space s} \<times> {..space s}"
    using inside [OF assms] by (fastforce dest: add_leD1 add_leD2)
qed simp

lemma card_cover:
  assumes "holds s B"
  shows "card (cover B) = (\<Sum>b \<in> B. fst b)"
proof -
  have "card (\<Union>b \<in> B. extent b) = (\<Sum>b \<in> B. card (extent b))"
    using finite_blocks [OF assms] apart [OF assms] by (intro card_UN_disjoint) (auto simp: extent_def)
  then show ?thesis by (simp add: cover_def extent_def)
qed

lemma sum_le_space:
  assumes "holds s B"
  shows "(\<Sum>b \<in> B. fst b) \<le> space s"
proof -
  have "cover B \<subseteq> {..<space s}" using inside [OF assms] by (fastforce simp: cover_def extent_def)
  then show ?thesis using card_mono [of "{..<space s}" "cover B"] by (simp add: card_cover [OF assms])
qed

end

lemma ds_inv_wf: "ds_inv ds L \<Longrightarrow> blocks_wf (allocatedSize ds) (fl_blocks (freelists ds) \<union> L)"
  using ds_invD(5) by (auto simp: space_ok_def)

interpretation dsp: block_space allocatedSize "\<lambda>ds B. \<exists>L. ds_inv ds L \<and> B \<subseteq> fl_blocks (freelists ds) \<union> L"
proof
  fix ds :: datastore and B :: "block set" and b c :: block
  assume h: "\<exists>L. ds_inv ds L \<and> B \<subseteq> fl_blocks (freelists ds) \<union> L"
  then obtain L where "ds_inv ds L" "B \<subseteq> fl_blocks (freelists ds) \<union> L" by blast
  then have wf: "blocks_wf (allocatedSize ds) B" using ds_inv_wf blocks_wf_subset by blast
  show "snd b + fst b \<le> allocatedSize ds" if "b \<in> B"
    using blocks_wf_block(2) [OF wf, of "fst b" "snd b"] that by simp
  show "0 < fst b" if "b \<in> B"
    using blocks_wf_block(1) [OF wf, of "fst b" "snd b"] that by (auto simp: aligned_def)
  show "extent b \<inter> extent c = {}" if "b \<in> B" "c \<in> B" "b \<noteq> c"
    using wf that unfolding blocks_wf_def by blast
qed

definition block_list :: "freelists \<Rightarrow> block list" where
  "block_list fl = concat (map (\<lambda>(sz, bucket). map (Pair sz) bucket) fl)"

lemma free_bytes_block_list: "free_bytes fl = sum_list (map fst (block_list fl))"
  by (induction fl) (auto simp: free_bytes_def block_list_def comp_def)

lemma block_list_fl_blocks:
  assumes "fl_ok fl"
  shows "set (block_list fl) = fl_blocks fl" "distinct (block_list fl)"
proof -
  have mem: "(sz, bucket) \<in> set fl \<longleftrightarrow> smap_find fl sz = Some bucket" for sz bucket
    using assms by (simp add: smap.mem_iter_iff)
  have "b \<in> set (block_list fl) \<longleftrightarrow> (\<exists>sz bucket. (sz, bucket) \<in> set fl \<and> fst b = sz \<and> snd b \<in> set bucket)" for b
    by (cases b) (fastforce simp: block_list_def)
  then show "set (block_list fl) = fl_blocks fl" by (auto simp: fl_blocks_iff mem)
  have "distinct (map fst fl)" using assms by (simp add: smap_ok_distinct)
  moreover have "\<forall>(sz, bucket) \<in> set fl. distinct bucket"
    using assms by (auto simp: mem fl_ok_def intro: sset_ok_distinct)
  ultimately show "distinct (block_list fl)"
    by (induction fl) (auto simp: block_list_def distinct_map inj_on_def image_iff)
qed

lemma free_bytes_sum: "fl_ok fl \<Longrightarrow> free_bytes fl = (\<Sum>b \<in> fl_blocks fl. fst b)"
  by (simp add: free_bytes_block_list block_list_fl_blocks(1) [symmetric] block_list_fl_blocks(2)
      sum.distinct_set_conv_list)

lemma space_accounted:
  assumes inv: "ds_inv ds L" and full: "ds_full ds L"
  shows "free_bytes (freelists ds) + (\<Sum>b \<in> L. fst b) = allocatedSize ds"
proof -
  let ?F = "fl_blocks (freelists ds)"
  have h: "\<exists>L. ds_inv ds L \<and> ?F \<subseteq> fl_blocks (freelists ds) \<union> L" "\<exists>L. ds_inv ds L \<and> ?F \<union> L' \<subseteq> fl_blocks (freelists ds) \<union> L"
    if "L' = L" for L' using inv that by blast+
  have "finite (?F \<union> L)" using dsp.finite_blocks [OF h(2) [OF refl]] .
  then have "(\<Sum>b \<in> ?F \<union> L. fst b) = (\<Sum>b \<in> ?F. fst b) + (\<Sum>b \<in> L. fst b)"
    using ds_invD(5) [OF inv] by (intro sum.union_disjoint) (auto simp: space_ok_def)
  moreover have "(\<Sum>b \<in> ?F \<union> L. fst b) = allocatedSize ds"
    using dsp.card_cover [OF h(2) [OF refl]] full by (simp add: ds_full_def)
  ultimately show ?thesis using free_bytes_sum [OF ds_invD(1) [OF inv]] by simp
qed

section \<open>A run\<close>

text \<open>
  A store is created, a chunk allocated and written, the store flushed, an allocation fails
  and the store is opened again: the concrete run at which the properties below are
  evaluated.
\<close>

definition run_env :: ds_env where
  "run_env = \<lparr>minAllocSize = 32, isDebug = True, mem_limit = 1000, open_data_ok = True, open_fl_ok = True,
     fstat_ok = True, ftruncate_ok = (\<lambda>_. True), fsync_ok = True, injected = False, fl_room = 1000,
     fl_calls = 100, fl_reading = Fl_reads, write_cut = None, read_ok = True, full = (\<lambda>_. False)\<rparr>"

definition run_new :: datastore where
  "run_new = \<lparr>guid = 7, dfile = replicate 64 0, flfile = None, freelists = [(64, [0])], frees = 0,
     largestFreeChunk = 64, allocatedSize = 64, dirty = False, fldirty = False,
     dsm_flusher = \<lparr>running = True, queued = []\<rparr>\<rparr>"

definition run_alloc :: datastore where
  "run_alloc = run_new\<lparr>flfile := Some (le64 0), freelists := [(32, [32])], largestFreeChunk := 32, fldirty := True,
     dsm_flusher := \<lparr>running = True, queued = [7]\<rparr>\<rparr>"

definition run_file :: "byte list" where
  "run_file = DiskChunkHeader False 32 @ [1, 2, 3] @ replicate 45 0"

definition run_write :: datastore where
  "run_write = run_alloc\<lparr>dfile := run_file, dirty := True\<rparr>"

definition run_flush :: datastore where
  "run_flush = run_write\<lparr>flfile := Some (file_bytes [(32, [32])]), dirty := False, fldirty := False\<rparr>"

definition run_open :: datastore where
  "run_open = \<lparr>guid = 7, dfile = run_file, flfile = Some (file_bytes [(32, [32])]), freelists = [(32, [32])], frees = 0,
     largestFreeChunk = 32, allocatedSize = 64, dirty = False, fldirty = False,
     dsm_flusher = \<lparr>running = True, queued = []\<rparr>\<rparr>"

lemmas run_defs = run_flush_def run_write_def run_alloc_def run_new_def

lemma roundUp_run [simp]: "roundUp 64 = 64" "roundUp 32 = 32"
  using roundUp_pow2 [of 64] roundUp_pow2 [of 32] pow2_power [of 6] pow2_power [of 5] by simp_all

lemma run_new: "DataStore (run_env\<lparr>minAllocSize := 64\<rparr>) 7 None None \<lparr>running = True, queued = []\<rparr> = ret () run_new"
proof -
  have "roundUp 0 = 0" by (rule roundUp_wraps) simp_all
  then show ?thesis
    by (simp add: DataStore_def initializeFreelist_def run_env_def run_new_def Let_def fl_insert_def smap_put_def
        fl_bucket_def smap_find_def sset_insert_def calcLargestFreeChunk_def smap_last_key_def truncate_to_def)
qed

lemma run_alloc: "allocateSpace run_env 8 run_new = Some (ret (0, 32) run_alloc)"
proof -
  have "searchFreelist 32 [(64, [0])] = Some (ret 0 [(32, [32])])"
    by (simp add: searchFreelist.simps [of 32] searchFreelist.simps [of 64] smap_find_def fl_erase_def fl_insert_def
        fl_bucket_def smap_put_def smap_erase_def sset_insert_def sset_erase_def)
  moreover have "invalidateFreelistFile run_env run_new =
      ret () (run_new\<lparr>flfile := Some (le64 0), fldirty := True, dsm_flusher := \<lparr>running = True, queued = [7]\<rparr>\<rparr>)"
    using pwrite_end [of "[]" "le64 0"]
    by (simp add: invalidateFreelistFile_def run_env_def run_new_def)
      (simp add: ret_def schedule_flush_def flusher_add_def sset_insert_def)
  ultimately show ?thesis
    by (simp add: allocateSpace_def run_new_def run_alloc_def requiredSize_def header_size_def run_env_def
        calcLargestFreeChunk_def)
      (simp add: ret_def calcLargestFreeChunk_def smap_last_key_def)
qed

lemma run_write: "writeData run_env 0 [1, 2, 3] 32 run_alloc = ret () run_write"
proof -
  have "pwrite (replicate 64 0) 0 (DiskChunkHeader False 32 @ [1, 2, 3]) = run_file"
    by (simp add: pwrite_def run_file_def)
  then show ?thesis
    by (simp add: writeData_def run_env_def run_alloc_def run_new_def run_write_def schedule_flush_def flusher_add_def
        sset_insert_def Let_def)
qed

lemma persist_run: "persist_file [(32, [32])] 1000 100 = ret () (file_bytes [(32, [32])], 956, 97)"
proof -
  have "pwrite [] 0 bs = bs" for bs :: "byte list" using pwrite_end [of "[]"] by simp
  moreover have "pwrite (le64 1) 8 bs = le64 1 @ bs" for bs using pwrite_end [of "le64 1" bs] by simp
  ultimately show ?thesis by (simp add: persist_file_def file_bytes_def)
qed

lemma run_flush: "flush run_env run_write = ret () run_flush"
  using persist_run
  by (simp add: flush_def run_env_def run_defs persistFreelists_def) (simp add: ret_def)

lemma freelists_run: "freelists_ok [(32, [32])]" "fits 1000 [(32, [32])]"
  by (simp_all add: freelists_ok_def bucket_ok_def smap_ok_def fits_def)

lemma length_run_file [simp]: "length run_file = 64"
  by (simp add: run_file_def)

lemma read_run: "read_file 1000 (file_bytes [(32, [32])]) [] = ret 1 [(32, [32])]"
  "file_bytes [(32, [32])] \<noteq> []"
proof -
  show "read_file 1000 (file_bytes [(32, [32])]) [] = ret 1 [(32, [32])]"
    using read_file_ok [OF freelists_run] by simp
  have "length (file_bytes [(32, [32])]) \<noteq> 0" unfolding file_bytes_def by simp
  then show "file_bytes [(32, [32])] \<noteq> []" by blast
qed

lemma run_open: "DataStore run_env 7 (Some (dfile run_flush)) (flfile run_flush) \<lparr>running = True, queued = []\<rparr> = ret () run_open"
  using read_run
  by (simp add: DataStore_def initializeFreelist_def readFreelistFromFile_def run_env_def run_defs Let_def)
    (simp add: ret_def andThen_def calcLargestFreeChunk_def smap_last_key_def run_open_def)

definition run_chunks :: "block \<rightharpoonup> byte list" where
  "run_chunks = [(32, 0) \<mapsto> [1, 2, 3]]"

definition run_trace :: "store_event list" where
  "run_trace = [Ev_alloc run_env 8 run_new, Ev_call, Ev_flush run_flush,
     Ev_alloc (run_env\<lparr>open_fl_ok := False\<rparr>) 8 run_flush, Ev_reopen run_env run_flush]"

lemma run_start: "store_start (run_new, {}, Map.empty)"
  unfolding store_start_def
  by (intro exI [of _ "run_env\<lparr>minAllocSize := 64\<rparr>"] exI [of _ 7] exI [of _ None] exI [of _ "\<lparr>running = True, queued = []\<rparr>"]
      exI [of _ run_new] conjI run_new) (simp_all add: opened_def run_env_def)

lemma run_run:
  "store_run (run_new, {}, Map.empty) (take 2 run_trace) (run_write, {(32, 0)}, run_chunks)"
  "store_run (run_new, {}, Map.empty) (take 3 run_trace) (run_flush, {(32, 0)}, run_chunks)"
  "store_run (run_new, {}, Map.empty) run_trace (run_open, {(32, 0)}, run_chunks)"
proof -
  have "store_step (run_new, {}, Map.empty) (Ev_alloc run_env 8 run_new)
      (run_alloc, {(32, 0)}, Map.empty((32, 0) := None))" by (rule st_alloc [OF run_alloc])
  from run_step [OF run_none this] have 1:
    "store_run (run_new, {}, Map.empty) [Ev_alloc run_env 8 run_new] (run_alloc, {(32, 0)}, Map.empty((32, 0) := None))" by simp
  have "store_step (run_alloc, {(32, 0)}, Map.empty((32, 0) := None)) Ev_call (run_write, {(32, 0)}, run_chunks)"
    using st_write [OF run_write, of "{(32, 0)}" "Map.empty((32, 0) := None)"] by (simp add: run_chunks_def)
  from run_step [OF 1 this] show 2: "store_run (run_new, {}, Map.empty) (take 2 run_trace) (run_write, {(32, 0)}, run_chunks)"
    by (simp add: run_trace_def)
  have "store_step (run_write, {(32, 0)}, run_chunks) (Ev_flush run_flush) (run_flush, {(32, 0)}, run_chunks)"
    by (rule st_flush [of run_env _ "Inr ()"]) (simp add: run_flush ret_def [symmetric])
  from run_step [OF 2 this] show 3: "store_run (run_new, {}, Map.empty) (take 3 run_trace) (run_flush, {(32, 0)}, run_chunks)"
    by (simp add: run_trace_def)
  have "allocateSpace (run_env\<lparr>open_fl_ok := False\<rparr>) 8 run_flush = Some (throw LE_CANT_OPEN_PATH run_flush)"
    by (simp add: allocateSpace_def invalidateFreelistFile_def run_defs)
  from run_step [OF 3 st_alloc_fail [OF this]] have 4:
    "store_run (run_new, {}, Map.empty) (take 4 run_trace) (run_flush, {(32, 0)}, run_chunks)" by (simp add: run_trace_def)
  from run_step [OF 4 st_reopen [OF run_open]]
  show "store_run (run_new, {}, Map.empty) run_trace (run_open, {(32, 0)}, run_chunks)" by (simp add: run_trace_def)
qed

lemma run_orderly: "\<forall>ev \<in> set run_trace. orderly ev"
  by (simp add: run_trace_def half_flushed_def env_sane_def run_env_def run_defs)

lemma run_inv: "ds_inv run_flush {(32, 0)}" "ds_inv run_write {(32, 0)}" "sized run_flush"
proof -
  have "\<forall>ev \<in> set (take n run_trace). orderly ev" for n using run_orderly in_set_takeD by metis
  then show "ds_inv run_flush {(32, 0)}" "ds_inv run_write {(32, 0)}"
    using store_start_run_inv [OF run_start run_run(2)] store_start_run_inv [OF run_start run_run(1)] store_invD(1) by blast+
  show "sized run_flush" by (simp add: sized_def run_defs)
qed

section \<open>Properties\<close>

text \<open>C1. After every orderly run of a store, over failing calls, crashes and restarts, a chunk that was
  written and not freed is read back with the bytes written last. In an orderly run requests and the
  store stay below \<open>2 ^ 61\<close> bytes, no flush throws after it has written all of the free-list file, and
  the store is not opened again with a minimum size above its size or while its file is smaller than
  that, which it is between a growth that failed and the next one. Clients free and write only blocks
  that they hold.\<close>

theorem chunk_read_back:
  assumes "store_start s" "store_run s tr (ds, L, C)" "\<forall>ev \<in> set tr. orderly ev"
    and "C (sz, off) = Some buf" "n \<le> length buf" "read_ok env" "\<not> full env Read_data"
  shows "readData env off n ds = ret (take n buf) ds"
  using stored_read [OF store_invD(5) [OF store_start_run_inv [OF assms(1-3)] assms(4)] assms(6,7,5)] .

theorem chunk_read_back_witness:
  "store_run (run_new, {}, Map.empty) run_trace (run_open, {(32, 0)}, run_chunks) \<and>
   readData run_env 0 2 run_open = ret [1, 2] run_open"
  using chunk_read_back [OF run_start run_run(3) run_orderly, of 32 0 "[1, 2, 3]" 2 run_env] run_run(3)
  by (simp add: run_env_def run_chunks_def)

text \<open>C2. After every orderly run, with failures, crashes and restarts as before, the chunks in use are
  aligned blocks inside of the store that do not overlap each other or a free block, and the check of
  the free lists passes.\<close>

theorem live_chunks_apart:
  assumes "store_start s" "store_run s tr (ds, L, C)" "\<forall>ev \<in> set tr. orderly ev" "b \<in> L"
  shows "aligned b \<and> snd b + fst b \<le> allocatedSize ds \<and>
    (\<forall>c \<in> (L - {b}) \<union> fl_blocks (freelists ds). extent b \<inter> extent c = {}) \<and> verifyFreelist ds = ret () ds"
proof -
  note inv = store_invD(1) [OF store_start_run_inv [OF assms(1-3)]]
  have "b \<notin> fl_blocks (freelists ds)" using ds_invD(5) [OF inv] assms(4) by (auto simp: space_ok_def)
  then have "\<forall>c \<in> (L - {b}) \<union> fl_blocks (freelists ds). extent b \<inter> extent c = {}"
    using dsp.apart [of ds "fl_blocks (freelists ds) \<union> L" b] inv assms(4) by auto
  then show ?thesis
    using live_inside [OF inv, of "fst b" "snd b"] assms(4) verifyFreelist_ok [OF ds_invD(1,6) [OF inv]]
    by (simp add: verifyFreelist_def)
qed

theorem live_chunks_apart_witness:
  "store_run (run_new, {}, Map.empty) run_trace (run_open, {(32, 0)}, run_chunks) \<and>
   extent (32, 0) \<inter> extent (32, 32) = {} \<and> verifyFreelist run_open = ret () run_open"
proof -
  have "(32, 32) \<in> fl_blocks (freelists run_open)"
    by (simp add: run_open_def fl_blocks_iff smap_find_def)
  then show ?thesis using live_chunks_apart [OF run_start run_run(3) run_orderly, of "(32, 0)"] run_run(3) by blast
qed



text \<open>C5. Freeing a chunk gives its space back, merged with its free buddies, and leaves the other chunks;
  when the free-list file cannot be invalidated it throws and the chunk stays in use.\<close>

theorem freeChunk_correct:
  assumes "ds_inv ds L" "(sz, off) \<in> L"
  shows "(\<exists>ds'. freeChunk env off sz ds = ret () ds' \<and> ds_inv ds' (L - {(sz, off)}) \<and>
            (ds_full ds L \<longrightarrow> ds_full ds' (L - {(sz, off)})) \<and> dfile ds' = dfile ds) \<or>
         (\<exists>e ds'. freeChunk env off sz ds = throw e ds' \<and> ds_inv ds' L \<and> dfile ds' = dfile ds \<and>
            freelists ds' = freelists ds \<and> invalidate_error env e \<and> \<not> can_invalidate env)"
  using freeChunk_result [OF assms, of env] unfolding free_result_def by blast

theorem freeChunk_correct_witness:
  "ds_inv run_flush {(32, 0)} \<and>
   (\<exists>ds'. freeChunk run_env 0 32 run_flush = ret () ds' \<and> ds_inv ds' {} \<and> dfile ds' = run_file)"
  using freeChunk_correct [OF run_inv(1), of 32 0 run_env] run_inv(1)
  by (auto simp: run_flush_def run_write_def run_env_def can_invalidate_def)

text \<open>The sizes reported add up: the free bytes and the sizes of the chunks in use are the size of
  the store.\<close>

theorem getSizes_accounts:
  assumes "ds_inv ds L" "ds_full ds L" "sized ds" "fstat_ok env" "\<not> full env Fstat"
  shows "\<exists>free. getSizes env ds = ret (allocatedSize ds, free) ds \<and> free + (\<Sum>b \<in> L. fst b) = allocatedSize ds"
  using space_accounted [OF assms(1,2)] assms(3-5) by (simp add: getSizes_def sized_def)

theorem getSizes_accounts_witness:
  "ds_inv run_flush {(32, 0)} \<and> getSizes run_env run_flush = ret (64, 32) run_flush"
proof -
  have "fl_blocks [(32, [32])] = {(32, 32)}" by (auto simp: fl_blocks_iff smap_find_def split: if_splits)
  then have "ds_full run_flush {(32, 0)}"
    by (auto simp: ds_full_def run_defs extent_def)
  then show ?thesis
    using getSizes_accounts [OF run_inv(1) _ run_inv(3), of run_env] run_inv(1)
    by (simp add: run_env_def run_defs)
qed

lemma flush_then_open:
  assumes "ds_inv ds L" "roundUp (length (dfile ds)) = allocatedSize ds"
    and "fldirty ds \<or> flfile ds = Some (file_bytes (freelists ds))" "flush env ds = ret () ds1"
    and "minAllocSize env' \<le> allocatedSize ds" "fits (mem_limit env') (freelists ds)" "opens env'"
  shows "\<exists>ds2. DataStore env' gid (Some (dfile ds1)) (flfile ds1) flsh = ret () ds2 \<and>
     freelists ds2 = freelists ds \<and> largestFreeChunk ds2 = largestFreeChunk ds \<and>
     allocatedSize ds2 = allocatedSize ds \<and> dfile ds2 = dfile ds \<and> ds_inv ds2 L"
proof -
  note f = flush_result [OF assms(1), of env]
  have nd: "\<not> half_flushed ds1" using f(4) assms(4) by (simp add: half_flushed_def ret_def)
  have "flfile ds1 = flfile ds" if "\<not> fldirty ds"
    using that assms(4) by (cases "dirty ds") (auto simp: flush_def split: if_splits)
  then have k: "ds_inv ds1 L" "lists_kept ds ds1" "flfile ds1 = Some (file_bytes (freelists ds))"
    using f(1-3) nd assms(3,4) by (cases "fldirty ds"; auto simp: ret_def)+
  have s1: "roundUp (length (dfile ds1)) = allocatedSize ds1" "minAllocSize env' \<le> allocatedSize ds1"
    using k(2) assms(2,5) by (simp_all add: lists_kept_def)
  obtain ds2 where d: "DataStore env' gid (Some (dfile ds1)) (flfile ds1) flsh = ret () ds2"
    "freelists ds2 = freelists ds1" "largestFreeChunk ds2 = largestFreeChunk ds1"
    "allocatedSize ds2 = allocatedSize ds1" "dfile ds2 = dfile ds1"
    using DataStore_reopen_flushed [OF k(1) s1, where gid = gid and flsh = flsh] k(2,3) assms(6,7)
    by (auto simp: lists_kept_def)
  then show ?thesis
    using DataStore_reopen(1) [OF k(1) s1 d(1)] k(2) by (auto simp: lists_kept_def)
qed

text \<open>C4. Flushing a store without an exception and opening it again without a failing call gives the same
  free lists, largest free block, size and contents, on four conditions: the free lists have changed
  since they were last written, or are those in their file (a new store that nothing was allocated from
  is neither: its flush writes nothing); the file has the size of the store, rounded up; the minimum
  size is not above it; and there is memory for the largest bucket.\<close>

theorem flush_reopen:
  assumes "ds_inv ds L" "roundUp (length (dfile ds)) = allocatedSize ds"
    and "fldirty ds \<or> flfile ds = Some (file_bytes (freelists ds))" "flush env ds = ret () ds1"
    and "minAllocSize env' \<le> allocatedSize ds" "fits (mem_limit env') (freelists ds)" "opens env'"
  shows "\<exists>ds2. DataStore env' gid (Some (dfile ds1)) (flfile ds1) flsh = ret () ds2 \<and>
     freelists ds2 = freelists ds \<and> largestFreeChunk ds2 = largestFreeChunk ds \<and>
     allocatedSize ds2 = allocatedSize ds \<and> dfile ds2 = dfile ds \<and> ds_inv ds2 L"
  using flush_then_open [OF assms] .

theorem flush_reopen_witness:
  "fldirty run_write \<and> freelists run_write = [(32, [32])] \<and>
   (\<exists>ds2. DataStore run_env 9 (Some run_file) (Some (file_bytes [(32, [32])])) \<lparr>running = True, queued = []\<rparr> =
      ret () ds2 \<and> freelists ds2 = [(32, [32])] \<and> largestFreeChunk ds2 = 32)"
proof -
  have "opens run_env" by (simp add: opens_def run_env_def)
  then show ?thesis
    using flush_reopen [OF run_inv(2) _ _ run_flush, of run_env 9 "\<lparr>running = True, queued = []\<rparr>"] freelists_run(2)
    by (simp add: run_defs run_env_def) metis
qed

text \<open>C24. Rounding up a 64-bit size gives the least power of two that is not smaller, and 0 where that
  power is not a 64-bit number.\<close>

theorem roundUp_least:
  assumes "n < 2 ^ 64"
  shows "roundUp n = (if n = 0 \<or> 2 ^ 63 < n then 0 else LEAST p. pow2 p \<and> n \<le> p)"
proof (cases "n = 0 \<or> 2 ^ 63 < n")
  case False
  then have r: "pow2 (roundUp n)" "n \<le> roundUp n" "roundUp n < 2 * n" using roundUp_correct [of n] by auto
  have "(LEAST p. pow2 p \<and> n \<le> p) = roundUp n"
  proof (rule Least_equality)
    fix p assume p: "pow2 p \<and> n \<le> p"
    show "roundUp n \<le> p"
    proof (rule ccontr)
      assume "\<not> roundUp n \<le> p"
      then have "2 * p \<le> roundUp n" using p r(1) by (intro pow2_double_le) simp_all
      then show False using p r(3) by simp
    qed
  qed (use r in simp)
  then show ?thesis using False by simp
qed (use assms roundUp_wraps [of n] in simp)

theorem roundUp_least_witness: "roundUp (2 ^ 63 + 1) = 0 \<and> roundUp 0 = 0"
  using roundUp_least [of "2 ^ 63 + 1"] roundUp_least [of 0] by simp

text \<open>Free lists written to their file are read back unchanged.\<close>

theorem freelist_file_round_trip:
  assumes "freelists_ok fl" "fits mem fl" "length (file_bytes fl) \<le> room" "length fl + 2 \<le> calls"
  shows "\<exists>c. persist_file fl room calls = ret () c \<and> read_file mem (fst c) [] = ret (length fl) fl"
proof -
  have "\<forall>(k, b) \<in> set fl. b \<noteq> []" using assms(1) by (auto simp: freelists_ok_def bucket_ok_def)
  then show ?thesis
    using persist_file_result [of fl room calls] assms(3,4) read_file_ok [OF assms(1,2)] by (auto simp: persisted_def)
qed

theorem freelist_file_round_trip_witness:
  "freelists_ok [(32, [0, 64]), (128, [128])] \<and>
   (\<exists>c. persist_file [(32, [0, 64]), (128, [128])] 200 4 = ret () c \<and>
        read_file 100 (fst c) [] = ret 2 [(32, [0, 64]), (128, [128])])"
proof -
  have "freelists_ok [(32, [0, 64]), (128, [128])]"
    by (simp add: freelists_ok_def bucket_ok_def smap_ok_def sset_ok_def)
  moreover have "fits 100 [(32, [0, 64]), (128, [128])]" "length (file_bytes [(32, [0, 64]), (128, [128])]) \<le> 200"
    by (simp_all add: fits_def FreelistBucket_def file_bytes_def)
  ultimately show ?thesis
    using freelist_file_round_trip [of "[(32, [0, 64]), (128, [128])]" 100 200 4]
    by (simp add: numeral_2_eq_2)
qed

text \<open>C6. Whatever part of the free-list file reached the disk, reading it gives all of the lists, or none
  of them, or an exception; with the leading count on the disk and memory for the buckets there is no
  exception.\<close>

theorem freelist_file_crash:
  assumes "freelists_ok fl"
  shows "(\<exists>n. read_file mem (take j (file_bytes fl)) [] = ret n fl \<and> length (file_bytes fl) \<le> j) \<or>
         (\<exists>n. read_file mem (take j (file_bytes fl)) [] = ret n []) \<or>
         (\<exists>e fl'. read_file mem (take j (file_bytes fl)) [] = throw e fl' \<and> (j < 8 \<or> \<not> fits mem fl))"
proof (cases "read_file mem (take j (file_bytes fl)) []" rule: outcome_cases)
  case (ret n fl')
  then show ?thesis using read_file_take [OF assms ret] by auto
next
  case (throw e fl')
  have "j < 8 \<or> \<not> fits mem fl"
  proof (rule ccontr)
    assume "\<not> ?thesis"
    then have "8 \<le> j" "fits mem fl" by simp_all
    then show False
      using throw read_file_ok [OF assms, of mem] read_file_cut [OF assms, of mem j]
      by (cases "j < length (file_bytes fl)") simp_all
  qed
  then show ?thesis using throw by blast
qed

theorem freelist_file_crash_witness:
  "freelists_ok [(32, [0])] \<and> (\<exists>n. read_file 100 (take 20 (file_bytes [(32, [0])])) [] = ret n [])"
proof -
  have "freelists_ok [(32, [0])]" by (simp add: freelists_ok_def bucket_ok_def smap_ok_def)
  moreover have "fits 100 [(32, [0])]" "\<not> length (file_bytes [(32, [0])]) \<le> 20"
    by (simp_all add: fits_def FreelistBucket_def file_bytes_def)
  ultimately show ?thesis using freelist_file_crash [of "[(32, [0])]" 100 20] by simp
qed

text \<open>C7. A bucket of which up to four consecutive bytes of the key or of the offsets were changed, with the
  size, the element count and the checksum as written, is rejected by its checksum.\<close>

theorem freelist_bucket_corrupt:
  assumes "bucket_ok key bucket" "length (FreelistBucket key bucket) \<le> mem"
    and "bucket_body key bucket = p @ ys @ q" "length ys' = length ys" "length ys \<le> 4" "ys' \<noteq> ys"
    and "take 8 (drop 8 (p @ ys' @ q)) = take 8 (drop 8 (bucket_body key bucket))"
  shows "FreelistBucket_read mem
      (xs @ le64 (20 + 8 * length bucket) @ (p @ ys' @ q) @
       le32 (unat (calculateCRC32 (bucket_body key bucket))) @ zs) (length xs) = Inl LE_DATASTORE_CORRUPT_FREELIST"
  using FreelistBucket_read_corrupt [OF assms refl] .

lemma le_bytes_numeral:
  "le_bytes (numeral k) n = word_of_nat (n mod 256) # le_bytes (pred_numeral k) (n div 256)"
  by (simp only: numeral_eq_Suc [of k] le_bytes.simps)

theorem freelist_bucket_corrupt_witness:
  "bucket_ok 32 [0] \<and>
   FreelistBucket_read 100 (le64 28 @ (le64 33 @ le64 1 @ le64 0) @ le32 (unat (calculateCRC32 (bucket_body 32 [0]))))
     0 = Inl LE_DATASTORE_CORRUPT_FREELIST"
proof -
  have "le64 32 = [32] @ [0, 0, 0, 0, 0, 0, 0]" "le64 33 = [33] @ [0, 0, 0, 0, 0, 0, 0]"
    by (simp_all add: le64_def le_bytes_numeral)
  then show ?thesis
    using freelist_bucket_corrupt [of 32 "[0]" 100 "[]" "[32]" "[0, 0, 0, 0, 0, 0, 0] @ le64 1 @ le64 0" "[33]" "[]" "[]"]
    by (simp add: bucket_ok_def FreelistBucket_def bucket_body_def)
qed

text \<open>
  The element count of a bucket is used before the checksum is compared: a count that does
  not fit the bucket makes the reader leave its buffer.
\<close>

lemma freelist_bucket_count_unchecked:
  assumes "offset + 8 + s \<le> length f" "le_val (pread f offset 8) = s" "s + 8 < 2 ^ 64" "s + 8 \<le> mem"
    and "le_val (take 8 (drop 8 (pread f (offset + 8) s))) = n" "8 * n < 2 ^ 64" "s < 20 + 8 * n"
  shows "FreelistBucket_read mem f offset = Inl Undefined_Behaviour"
  using FreelistBucket_read_count [OF assms] .

text \<open>C40. A store opened with a minimum allocation size above its file size is taken for an empty one: the
  block that holds its chunks becomes free.\<close>

theorem reopen_larger_minimum:
  assumes "ds_inv ds L" "sized ds" "allocatedSize ds < minAllocSize env" "minAllocSize env \<le> 2 ^ 61"
    and "open_data_ok env" "fstat_ok env" "can_grow env" "\<not> full env Open_data" "\<not> full env Fstat" "b \<in> L"
  shows "\<exists>ds' c. DataStore env gid (Some (dfile ds)) (flfile ds) flsh = ret () ds' \<and>
     c \<in> fl_blocks (freelists ds') \<and> extent b \<subseteq> extent c"
proof -
  note d = ds_invD [OF assms(1)]
  define A where "A = roundUp (minAllocSize env)"
  have A: "minAllocSize env \<le> A" using roundUp_correct [of "minAllocSize env"] assms(3,4) by (simp add: A_def)
  have r: "roundUp (length (dfile ds)) = allocatedSize ds"
    using assms(2) roundUp_pow2 [OF d(2)] d(4) by (simp add: sized_def)
  have "extent b \<subseteq> extent (A, 0)"
    using live_inside(2) [OF assms(1), of "fst b" "snd b"] assms(3,10) A by (auto simp: extent_def)
  then show ?thesis
    using assms(3,5-9) by (intro exI [of _ "(A, 0)"] exI conjI)
      (auto simp: DataStore_def initializeFreelist_def Let_def r A_def can_grow_def)
qed

theorem reopen_larger_minimum_witness:
  "\<exists>ds' c. DataStore (run_env\<lparr>minAllocSize := 100\<rparr>) 7 (Some run_file) (flfile run_flush) \<lparr>running = True, queued = []\<rparr> =
     ret () ds' \<and> c \<in> fl_blocks (freelists ds') \<and> extent (32, 0) \<subseteq> extent c"
  using reopen_larger_minimum [OF run_inv(1,3), of "run_env\<lparr>minAllocSize := 100\<rparr>" "(32, 0)" 7]
  by (simp add: run_env_def can_grow_def run_defs)

section \<open>Runs that are not orderly\<close>

text \<open>
  The conditions on orderly runs are needed. A growth fails, its free block is written to the
  free-list file, and the store, opened again with the size of its file, knows a free block beyond
  its end. Once the block is in use, the next growth adds it to the free lists again.
\<close>

definition gr_env :: ds_env where
  "gr_env = run_env\<lparr>ftruncate_ok := (\<lambda>n. n \<noteq> 64)\<rparr>"

definition gr_flusher :: "nat list \<Rightarrow> flusher" where
  "gr_flusher q = \<lparr>running = True, queued = q\<rparr>"

definition gr_store :: "byte list \<Rightarrow> byte list option \<Rightarrow> freelists \<Rightarrow> nat \<Rightarrow> nat \<Rightarrow> bool \<Rightarrow> bool \<Rightarrow> nat list \<Rightarrow> datastore" where
  "gr_store f flf fl lfc sz d fd q = \<lparr>guid = 7, dfile = f, flfile = flf, freelists = fl, frees = 0,
     largestFreeChunk = lfc, allocatedSize = sz, dirty = d, fldirty = fd, dsm_flusher = gr_flusher q\<rparr>"

lemmas gr_defs = gr_store_def gr_flusher_def gr_env_def run_env_def

lemma gr_new: "DataStore run_env 7 None None (gr_flusher []) = ret () (gr_store (replicate 32 0) None [(32, [0])] 32 32 False False [])"
proof -
  have "roundUp 0 = 0" by (rule roundUp_wraps) simp_all
  then show ?thesis
    by (simp add: DataStore_def initializeFreelist_def gr_defs Let_def fl_insert_def smap_put_def
        fl_bucket_def smap_find_def sset_insert_def calcLargestFreeChunk_def smap_last_key_def truncate_to_def)
qed

lemma gr_search: "searchFreelist 32 [(32, [x])] = Some (ret x [])"
  by (simp add: searchFreelist.simps [of 32] smap_find_def fl_erase_def smap_erase_def sset_erase_def)

text \<open>An allocation that takes the only free block; the free-list file is invalidated unless it is already.\<close>

lemma gr_take:
  assumes "q = (if fd then [7] else [])"
  shows "allocateSpace run_env 8 (gr_store f flf [(32, [x])] 32 sz d fd q) =
     Some (ret (x, 32) (gr_store f (if fd then flf else Some (le64 0)) [] 0 sz d True [7]))"
proof -
  have "invalidateFreelistFile run_env (gr_store f flf [(32, [x])] 32 sz d fd q) =
      ret () (gr_store f (if fd then flf else Some (le64 0)) [(32, [x])] 32 sz d True [7])"
    using assms pwrite_end [of "[]" "le64 0"]
    by (cases fd) (simp_all add: invalidateFreelistFile_def gr_defs,
        simp add: ret_def andThen_def schedule_flush_def flusher_add_def sset_insert_def)
  then show ?thesis
    using gr_search [of x]
    by (simp add: allocateSpace_def requiredSize_def header_size_def run_env_def)
      (simp add: ret_def calcLargestFreeChunk_def smap_last_key_def gr_store_def)
qed

lemma gr_insert: "fl_insert 32 32 [] = [(32, [32])]"
  by (simp add: fl_insert_def fl_bucket_def smap_find_def sset_insert_def smap_put_def)

text \<open>An allocation that has to grow a store of 32 bytes, with a failing and with a successful \<^verbatim>\<open>ftruncate\<close>.\<close>

lemma gr_grow:
  "allocateSpace gr_env 8 (gr_store f flf [] 0 32 d True q) =
     Some (throw LE_SYSCALL_ERROR (gr_store f flf [(32, [32])] 32 64 d True q))"
  "allocateSpace run_env 8 (gr_store f flf [] 0 32 d True q) =
     Some (ret (32, 32) (gr_store (truncate_to 64 f) flf [] 0 64 d True q))"
proof -
  have "makeMoreSpace gr_env 32 (gr_store f flf [] 0 32 d True q) =
      Some (throw LE_SYSCALL_ERROR (gr_store f flf [(32, [32])] 32 64 d True q))"
    by (subst makeMoreSpace.simps) (simp add: gr_defs Let_def gr_insert)
  then show "allocateSpace gr_env 8 (gr_store f flf [] 0 32 d True q) =
      Some (throw LE_SYSCALL_ERROR (gr_store f flf [(32, [32])] 32 64 d True q))"
    by (simp add: allocateSpace_def invalidateFreelistFile_def requiredSize_def header_size_def gr_defs)
  have "makeMoreSpace run_env 32 (gr_store f flf [] 0 32 d True q) =
      Some (ret () (gr_store (truncate_to 64 f) flf [(32, [32])] 32 64 d True q))"
    by (subst makeMoreSpace.simps, subst makeMoreSpace.simps) (simp add: gr_defs Let_def gr_insert)
  then show "allocateSpace run_env 8 (gr_store f flf [] 0 32 d True q) =
      Some (ret (32, 32) (gr_store (truncate_to 64 f) flf [] 0 64 d True q))"
    using gr_search [of 32]
    by (simp add: allocateSpace_def invalidateFreelistFile_def requiredSize_def header_size_def gr_defs)
      (simp add: ret_def calcLargestFreeChunk_def smap_last_key_def)
qed

lemma gr_flush:
  "flush run_env (gr_store f flf [(32, [32])] 32 sz False True q) =
     (Inr (), gr_store f (Some (file_bytes [(32, [32])])) [(32, [32])] 32 sz False False q)"
  using persist_run by (simp add: flush_def persistFreelists_def gr_defs) (simp add: ret_def)

lemma gr_flush_fails:
  "flush (run_env\<lparr>fl_calls := 2\<rparr>) (gr_store f flf [(32, [32])] 32 sz True True q) =
     (Inl LE_TOO_MANY_OPEN_FILES, gr_store f (Some (file_bytes [(32, [32])])) [(32, [32])] 32 sz False True q)"
proof -
  have "pwrite [] 0 bs = bs" for bs :: "byte list" using pwrite_end [of "[]"] by simp
  moreover have "pwrite (le64 1) 8 bs = le64 1 @ bs" for bs using pwrite_end [of "le64 1" bs] by simp
  ultimately have "persist_file [(32, [32])] 1000 2 = throw LE_TOO_MANY_OPEN_FILES (file_bytes [(32, [32])], 956, 0)"
    by (simp add: persist_file_def file_bytes_def)
  then show ?thesis by (simp add: flush_def persistFreelists_def gr_defs) (simp add: throw_def)
qed

lemma gr_reopen:
  assumes "roundUp (length f) = sz" "32 \<le> sz"
  shows "DataStore run_env 7 (Some f) (Some (file_bytes [(32, [32])])) (gr_flusher []) =
     ret () (gr_store f (Some (file_bytes [(32, [32])])) [(32, [32])] 32 sz False False [])"
  using assms read_run
  by (simp add: DataStore_def initializeFreelist_def readFreelistFromFile_def gr_defs Let_def)
    (simp add: ret_def andThen_def calcLargestFreeChunk_def smap_last_key_def)

lemma gr_write:
  "writeData run_env 32 buf 32 (gr_store f flf [] 0 sz False True [7]) =
     ret () (gr_store (pwrite f 32 (DiskChunkHeader False 32 @ buf)) flf [] 0 sz True True [7])"
  by (simp add: writeData_def gr_defs schedule_flush_def flusher_add_def sset_insert_def Let_def)

lemma gr_sel [simp]: "dfile (gr_store f flf fl lfc sz d fd q) = f" "flfile (gr_store f flf fl lfc sz d fd q) = flf"
  by (simp_all add: gr_store_def)

lemma gr_size [simp]: "allocatedSize (gr_store f flf fl lfc sz d fd q) = sz"
  by (simp add: gr_store_def)

text \<open>A run with the events in it that are not orderly.\<close>

definition breaks_order :: "store_event list \<Rightarrow> store_event list" where
  "breaks_order tr = filter (\<lambda>ev. \<not> orderly ev) tr"

definition reaches :: "store \<Rightarrow> store_event list \<Rightarrow> store \<Rightarrow> bool" where
  "reaches s bad s' \<longleftrightarrow> (\<exists>tr. store_run s tr s' \<and> breaks_order tr = bad)"

lemma reaches_step: "reaches s bad s1 \<Longrightarrow> store_step s1 ev s2 \<Longrightarrow> reaches s (bad @ breaks_order [ev]) s2"
  unfolding reaches_def breaks_order_def using run_step filter_append by blast

lemmas reaches_alloc = reaches_step [OF _ st_alloc]
lemmas reaches_alloc_fail = reaches_step [OF _ st_alloc_fail]
lemmas reaches_write = reaches_step [OF _ st_write]
lemmas reaches_flush = reaches_step [OF _ st_flush]
lemmas reaches_reopen = reaches_step [OF _ st_reopen]

lemma gr_orderly [simp]:
  "sz \<le> 2 ^ 61 \<Longrightarrow> breaks_order [Ev_alloc run_env 8 (gr_store f flf fl lfc sz d fd q)] = []"
  "sz \<le> 2 ^ 61 \<Longrightarrow> breaks_order [Ev_alloc gr_env 8 (gr_store f flf fl lfc sz d fd q)] = []"
  "breaks_order [Ev_call] = []"
  "breaks_order [Ev_flush (gr_store f flf fl lfc sz d False q)] = []"
  by (simp_all add: breaks_order_def env_sane_def half_flushed_def gr_defs)

definition gr_short :: datastore where
  "gr_short = gr_store (replicate 32 0) (Some (file_bytes [(32, [32])])) [(32, [32])] 32 64 False False [7]"

lemma gr_growth_run:
  defines "z \<equiv> replicate 32 0"
  shows "reaches (gr_store z None [(32, [0])] 32 32 False False [], {}, Map.empty) [Ev_reopen run_env gr_short]
    (gr_store (pwrite z 32 (DiskChunkHeader False 32 @ [1, 2, 3])) (Some (le64 0)) [] 0 32 True True [7],
     {(32, 32), (32, 0)}, [(32, 32) \<mapsto> [1, 2, 3]])"
proof -
  define s0 :: store where "s0 = (gr_store z None [(32, [0])] 32 32 False False [], {}, Map.empty)"
  have rz: "roundUp (length z) = 32" by (simp add: z_def)
  have b: "breaks_order [Ev_reopen run_env gr_short] = [Ev_reopen run_env gr_short]"
    by (simp add: breaks_order_def gr_short_def)
  have 0: "reaches s0 [] (gr_store z None [(32, [0])] 32 32 False False [], {}, Map.empty)"
    unfolding reaches_def s0_def breaks_order_def using run_none by fastforce
  have 1: "reaches s0 [] (gr_store z (Some (le64 0)) [] 0 32 False True [7], {(32, 0)}, Map.empty)"
    using reaches_alloc [OF 0 gr_take] by simp
  have 2: "reaches s0 [] (gr_store z (Some (le64 0)) [(32, [32])] 32 64 False True [7], {(32, 0)}, Map.empty)"
    using reaches_alloc_fail [OF 1 gr_grow(1)] by simp
  have 3: "reaches s0 [] (gr_short, {(32, 0)}, Map.empty)"
    using reaches_flush [OF 2 gr_flush] by (simp add: gr_short_def z_def)
  have "DataStore run_env 7 (Some (dfile gr_short)) (flfile gr_short) (gr_flusher []) =
      ret () (gr_store z (Some (file_bytes [(32, [32])])) [(32, [32])] 32 32 False False [])"
    using gr_reopen [OF rz] by (simp add: gr_short_def z_def)
  from reaches_reopen [OF 3 this] have 4: "reaches s0 [Ev_reopen run_env gr_short]
      (gr_store z (Some (file_bytes [(32, [32])])) [(32, [32])] 32 32 False False [], {(32, 0)}, Map.empty)"
    by (simp add: b)
  have 5: "reaches s0 [Ev_reopen run_env gr_short]
      (gr_store z (Some (le64 0)) [] 0 32 False True [7], {(32, 32), (32, 0)}, Map.empty)"
    using reaches_alloc [OF 4 gr_take] by simp
  show ?thesis using reaches_write [OF 5 gr_write [of "[1, 2, 3]"]] by (simp add: s0_def)
qed

definition gr_flushed :: datastore where
  "gr_flushed = gr_store run_file (Some (file_bytes [(32, [32])])) [(32, [32])] 32 64 False True [7]"

lemma gr_flush_run:
  defines "f \<equiv> pwrite run_file 32 (DiskChunkHeader False 32 @ [4])"
  shows "reaches (run_new, {}, Map.empty) [Ev_flush gr_flushed]
    (gr_store f (Some (file_bytes [(32, [32])])) [(32, [32])] 32 64 False False [], {(32, 32), (32, 0)},
     run_chunks((32, 32) \<mapsto> [4]))"
proof -
  define s0 :: store where "s0 = (run_new, {}, Map.empty)"
  define fb where "fb = file_bytes [(32, [32])]"
  have rf: "roundUp (length f) = 64" by (simp add: f_def length_pwrite)
  have b: "breaks_order [Ev_flush gr_flushed] = [Ev_flush gr_flushed]"
    "breaks_order [Ev_reopen run_env (gr_store f flf fl lfc 64 d fd q)] = []" for flf fl lfc d fd q
    using rf by (simp_all add: breaks_order_def gr_flushed_def half_flushed_def gr_defs)
  have w: "run_write = gr_store run_file (Some (le64 0)) [(32, [32])] 32 64 True True [7]"
    by (simp add: run_defs gr_defs)
  have "breaks_order (take 2 run_trace) = []"
    using run_orderly by (auto simp: breaks_order_def filter_empty_conv dest: in_set_takeD)
  then have 0: "reaches s0 [] (gr_store run_file (Some (le64 0)) [(32, [32])] 32 64 True True [7], {(32, 0)}, run_chunks)"
    unfolding reaches_def s0_def using run_run(1) [unfolded w] by blast
  have 1: "reaches s0 [Ev_flush gr_flushed] (gr_store run_file (Some fb) [(32, [32])] 32 64 False True [7], {(32, 0)}, run_chunks)"
    using reaches_flush [OF 0 gr_flush_fails, folded gr_flushed_def] by (simp add: b) (simp add: gr_flushed_def fb_def)
  have "run_chunks((32, 32) := None) = run_chunks" by (simp add: run_chunks_def fun_eq_iff)
  then have 2: "reaches s0 [Ev_flush gr_flushed] (gr_store run_file (Some fb) [] 0 64 False True [7], {(32, 32), (32, 0)}, run_chunks)"
    using reaches_alloc [OF 1 gr_take] by simp
  have 3: "reaches s0 [Ev_flush gr_flushed]
      (gr_store f (Some fb) [] 0 64 True True [7], {(32, 32), (32, 0)}, run_chunks((32, 32) \<mapsto> [4]))"
    using reaches_write [OF 2 gr_write [of "[4]"]] by (simp add: f_def)
  show ?thesis using reaches_reopen [OF 3, unfolded gr_sel fb_def, OF gr_reopen [OF rf]] by (simp add: s0_def b)
qed

text \<open>C38. Allocations can hand out a block that is in use after a restart on a file that a failed growth left
  smaller than the store: there is a run whose only event that is not orderly is such a restart, after
  which a chunk is in use and written, and the next allocation returns its block.\<close>

theorem failed_growth_reuses_block:
  "\<exists>s tr ds L C ds' d. store_start s \<and> store_run s tr (ds, L, C) \<and> breaks_order tr = [Ev_reopen run_env d] \<and>
     2 * length (dfile d) = allocatedSize d \<and> minAllocSize run_env \<le> allocatedSize d \<and>
     (32, 32) \<in> L \<and> C (32, 32) = Some [1, 2, 3] \<and> allocateSpace run_env 8 ds = Some (ret (32, 32) ds')"
proof -
  have "opened run_env" by (simp add: opened_def run_env_def)
  then have "store_start (gr_store (replicate 32 0) None [(32, [0])] 32 32 False False [], {}, Map.empty)"
    unfolding store_start_def using gr_new by blast
  moreover have "2 * length (dfile gr_short) = allocatedSize gr_short" "minAllocSize run_env \<le> allocatedSize gr_short"
    by (simp_all add: gr_short_def run_env_def)
  moreover obtain tr where "store_run (gr_store (replicate 32 0) None [(32, [0])] 32 32 False False [], {}, Map.empty) tr
    (gr_store (pwrite (replicate 32 0) 32 (DiskChunkHeader False 32 @ [1, 2, 3])) (Some (le64 0)) [] 0 32 True True [7],
     {(32, 32), (32, 0)}, [(32, 32) \<mapsto> [1, 2, 3]])" "breaks_order tr = [Ev_reopen run_env gr_short]"
    using gr_growth_run unfolding reaches_def by blast
  ultimately show ?thesis using gr_grow(2)
    by (metis fun_upd_same insertI1)
qed

text \<open>C39. Allocations can hand out a block that is in use after a flush that threw in its last call: there is
  a run whose only event that is not orderly is such a flush, after which a chunk is in use and written,
  and the next allocation returns its block.\<close>

theorem failed_flush_reuses_block:
  "\<exists>s tr ds L C ds' d. store_start s \<and> store_run s tr (ds, L, C) \<and> breaks_order tr = [Ev_flush d] \<and> half_flushed d \<and>
     (32, 32) \<in> L \<and> C (32, 32) = Some [4] \<and> allocateSpace run_env 8 ds = Some (ret (32, 32) ds')"
proof -
  obtain tr where "store_run (run_new, {}, Map.empty) tr
    (gr_store (pwrite run_file 32 (DiskChunkHeader False 32 @ [4])) (Some (file_bytes [(32, [32])])) [(32, [32])] 32 64
       False False [], {(32, 32), (32, 0)}, run_chunks((32, 32) \<mapsto> [4]))" "breaks_order tr = [Ev_flush gr_flushed]"
    using gr_flush_run unfolding reaches_def by blast
  moreover have "half_flushed gr_flushed" by (simp add: half_flushed_def gr_flushed_def gr_defs)
  moreover note run_start gr_take [of "[]" False]
  ultimately show ?thesis by (metis fun_upd_same insertI1)
qed

end
