(* ===== verification/Data_Stores.thy ===== *)
theory Data_Stores
  imports Data_Store_Run
begin

text \<open>
  The manager of the data stores and its background flusher: \<^verbatim>\<open>DataStores\<close> and
  \<^verbatim>\<open>DataStoreFlusher\<close> of \<^verbatim>\<open>src/util/DataStore.cpp\<close>. A store that is open owns the contents of its
  two files; those of the others are in the directory of the manager, by name. The data
  file of an open store can be unlinked: its bytes live until the store is closed, and
  \<open>unlinked\<close> says that there is no file of that name any more. Locks are left out: every
  function runs under \<^verbatim>\<open>_dataStoreLock\<close> or flushes one store at a time.
\<close>

section \<open>Names\<close>

text \<open>\<^verbatim>\<open>filepath << _basePath << guid << ".data"\<close>, and the free-list file next to it.\<close>

definition digit :: "nat \<Rightarrow> char" where
  "digit d = char_of (48 + d)"

fun decimal :: "nat \<Rightarrow> string" where
  "decimal n = (if n < 10 then [digit n] else decimal (n div 10) @ [digit (n mod 10)])"

declare decimal.simps [simp del]

definition data_name :: "nat \<Rightarrow> string" where
  "data_name g = decimal g @ ''.data''"

definition fl_name :: "nat \<Rightarrow> string" where
  "fl_name g = data_name g @ ''.fl''"

section \<open>The manager\<close>

type_synonym ds_map = "(nat, datastore) smap"

record ds_manager =
  theDataStores :: "ds_map option"
  basePath :: string
  minAlloc :: nat
  dsflusher :: flusher
  listening :: bool
  dir :: "string \<Rightarrow> byte list option"
  unlinked :: "nat list"

definition DataStores :: "(string \<Rightarrow> byte list option) \<Rightarrow> ds_manager" where
  "DataStores d = \<lparr>theDataStores = None, basePath = [], minAlloc = 0, dsflusher = \<lparr>running = False, queued = []\<rparr>,
                   listening = False, dir = d, unlinked = []\<rparr>"

definition flusher_start :: "flusher \<Rightarrow> (unit, flusher) outcome" where
  "flusher_start f = (if running f then throw LE_OPERATION_FAILED f else ret () (f\<lparr>running := True\<rparr>))"

definition flusher_stop :: "flusher \<Rightarrow> flusher" where
  "flusher_stop f = (if running f then f\<lparr>running := False, queued := []\<rparr> else f)"

text \<open>\<open>create_ok\<close>: the directory is there or can be made.\<close>

definition initDataStores ::
  "bool \<Rightarrow> nat \<Rightarrow> int \<Rightarrow> string \<Rightarrow> ds_manager \<Rightarrow> (unit, ds_manager) outcome" where
  "initDataStores create_ok min_alloc syncMSeconds basepath m =
     (if theDataStores m \<noteq> None then ret () m
      else
        (let m1 = m\<lparr>basePath := basepath @ ''/'', minAlloc := min_alloc\<rparr> in
         if \<not> create_ok then throw LE_CANT_CREATE_DIRECTORY m1
         else
           andThen
             (if 0 < syncMSeconds
              then (case flusher_start (dsflusher m1) of
                      (Inl e, f) \<Rightarrow> throw e (m1\<lparr>dsflusher := f\<rparr>)
                    | (Inr _, f) \<Rightarrow> ret () (m1\<lparr>dsflusher := f\<rparr>))
              else ret () m1)
             (\<lambda>_ m2. ret () (m2\<lparr>theDataStores := Some [], listening := True\<rparr>))))"

text \<open>
  The files of a store go back to the directory when its object is destroyed, and when its
  constructor throws after the data file was opened.
\<close>

definition put_files :: "datastore \<Rightarrow> (string \<Rightarrow> byte list option) \<Rightarrow> string \<Rightarrow> byte list option" where
  "put_files ds d = d(data_name (guid ds) := Some (dfile ds), fl_name (guid ds) := flfile ds)"

text \<open>The construction of a store that is not in the map yet.\<close>

definition make_store :: "ds_env \<Rightarrow> nat \<Rightarrow> ds_map \<Rightarrow> ds_manager \<Rightarrow> (datastore, ds_manager) outcome" where
  "make_store env g dm m =
     (case DataStore (env\<lparr>minAllocSize := minAlloc m\<rparr>) g (dir m (data_name g)) (dir m (fl_name g)) (dsflusher m) of
        (Inl e, ds) \<Rightarrow> throw e (if open_data_ok env then m\<lparr>dir := put_files ds (dir m)\<rparr> else m)
      | (Inr _, ds) \<Rightarrow>
          ret ds (m\<lparr>theDataStores := Some (smap_put g ds dm), dir := (dir m)(data_name g := None, fl_name g := None)\<rparr>))"

definition getDataStore :: "ds_env \<Rightarrow> nat \<Rightarrow> ds_manager \<Rightarrow> (datastore, ds_manager) outcome" where
  "getDataStore env g m =
     (case theDataStores m of
        None \<Rightarrow> throw Undefined_Behaviour m
      | Some dm \<Rightarrow>
          (case smap_find dm g of
             Some ds \<Rightarrow> ret ds m
           | None \<Rightarrow> make_store env g dm m))"

text \<open>An operation of an open store, which sees the flusher of the manager.\<close>

definition on_store ::
  "nat \<Rightarrow> (datastore \<Rightarrow> ('a, datastore) outcome) \<Rightarrow> ds_manager \<Rightarrow> ('a, ds_manager) outcome" where
  "on_store g f m =
     (case theDataStores m of
        None \<Rightarrow> throw Undefined_Behaviour m
      | Some dm \<Rightarrow>
          (case smap_find dm g of
             None \<Rightarrow> throw Undefined_Behaviour m
           | Some ds \<Rightarrow>
               (case f (ds\<lparr>dsm_flusher := dsflusher m\<rparr>) of
                  (r, ds') \<Rightarrow>
                    (r, m\<lparr>theDataStores := Some (smap_put g ds' dm), dsflusher := dsm_flusher ds'\<rparr>))))"

definition drop_store :: "nat \<Rightarrow> bool \<Rightarrow> ds_manager \<Rightarrow> ds_manager" where
  "drop_store g remove m =
     (case theDataStores m of
        None \<Rightarrow> m
      | Some dm \<Rightarrow>
          (case smap_find dm g of
             None \<Rightarrow> m
           | Some ds \<Rightarrow>
               m\<lparr>theDataStores := Some (smap_erase g dm),
                 dir := (if remove then dir m
                         else if g \<in> set (unlinked m) then (put_files ds (dir m))(data_name g := None)
                         else put_files ds (dir m)),
                 unlinked := removeAll g (unlinked m)\<rparr>))"

definition closeDataStore :: "ds_env \<Rightarrow> nat \<Rightarrow> bool \<Rightarrow> ds_manager \<Rightarrow> (unit, ds_manager) outcome" where
  "closeDataStore env g remove m =
     (case theDataStores m of
        None \<Rightarrow> throw Undefined_Behaviour m
      | Some dm \<Rightarrow>
          if smap_find dm g = None \<and> \<not> remove then ret () m
          else
            andThen (if smap_find dm g = None then andThen (make_store env g dm m) (\<lambda>_ m1. ret () m1) else ret () m)
              (\<lambda>_ m1. andThen (on_store g (flush env) m1) (\<lambda>_ m2. ret () (drop_store g remove m2))))"

section \<open>All stores\<close>

definition guids_above :: "nat \<Rightarrow> ds_manager \<Rightarrow> nat set" where
  "guids_above lastGuid m = {g. lastGuid < g \<and> (\<exists>dm. theDataStores m = Some dm \<and> smap_find dm g \<noteq> None)}"

lemma finite_guids_above [simp]: "finite (guids_above lastGuid m)"
proof (cases "theDataStores m")
  case (Some dm)
  have "guids_above lastGuid m \<subseteq> dom (map_of dm)" using Some by (auto simp: guids_above_def smap_find_def)
  then show ?thesis using finite_dom_map_of finite_subset by blast
qed (simp add: guids_above_def)

lemma on_store_guids: "on_store g f m = (r, m') \<Longrightarrow> guids_above lastGuid m' = guids_above lastGuid m"
  by (auto simp: on_store_def guids_above_def smap_find_put throw_def
      split: option.splits prod.splits if_splits)

lemma smap_upper_guid:
  assumes "theDataStores m = Some dm" "smap_upper lastGuid dm = (g, ds) # rest"
  shows "g \<in> guids_above lastGuid m"
proof -
  have "(g, ds) \<in> set (smap_upper lastGuid dm)" using assms(2) by simp
  then have "lastGuid < g" "(g, ds) \<in> set dm" by (auto simp: smap_upper_def)
  then show ?thesis using assms(1) by (force simp: guids_above_def smap_find_def map_of_eq_None_iff)
qed

lemma flushAll_decreases:
  assumes "theDataStores m = Some dm" "smap_upper lastGuid dm = (g, ds) # rest" "on_store g f m = (r, m1)"
  shows "card (guids_above g m1) < card (guids_above lastGuid m)"
proof -
  have "g \<in> guids_above lastGuid m" by (rule smap_upper_guid [OF assms(1,2)])
  then have "guids_above g m \<subset> guids_above lastGuid m" by (auto simp: guids_above_def)
  then show ?thesis by (simp add: on_store_guids [OF assms(3)] psubset_card_mono)
qed

text \<open>The loop of \<^verbatim>\<open>flushAllDataStores\<close>, from the guid flushed last.\<close>

function flushAll_loop :: "ds_env \<Rightarrow> nat \<Rightarrow> ds_manager \<Rightarrow> (unit, ds_manager) outcome" where
  "flushAll_loop env lastGuid m =
     (case theDataStores m of
        None \<Rightarrow> throw Undefined_Behaviour m
      | Some dm \<Rightarrow>
          (case smap_upper lastGuid dm of
             [] \<Rightarrow> ret () m
           | (g, ds) # rest \<Rightarrow>
               (case on_store g (flush env) m of
                  (Inl e, m1) \<Rightarrow> throw e m1
                | (Inr _, m1) \<Rightarrow> flushAll_loop env g m1)))"
  by auto

termination
  by (relation "measure (\<lambda>(env, lastGuid, m). card (guids_above lastGuid m))")
    (auto dest: flushAll_decreases [OF _ _ sym])

declare flushAll_loop.simps [simp del]

definition flushAllDataStores :: "ds_env \<Rightarrow> ds_manager \<Rightarrow> (unit, ds_manager) outcome" where
  "flushAllDataStores env m = flushAll_loop env 0 m"

text \<open>The entries that \<^verbatim>\<open>readdir_r\<close> returns; \<open>remove_ok\<close>: the file can be removed.\<close>

definition ends_with :: "string \<Rightarrow> string \<Rightarrow> bool" where
  "ends_with name suffix \<longleftrightarrow> length suffix < length name \<and> drop (length name - length suffix) name = suffix"

definition is_store_file :: "string \<Rightarrow> bool" where
  "is_store_file name \<longleftrightarrow> ends_with name ''.fl'' \<or> ends_with name ''.data''"

text \<open>
  \<^verbatim>\<open>unlink\<close> of an entry. The free-list file of an open store is opened by its name for every
  use, so it is gone; the data file is held open.
\<close>

definition unlink_entry :: "string \<Rightarrow> ds_manager \<Rightarrow> ds_manager" where
  "unlink_entry n m =
     (case theDataStores m of
        None \<Rightarrow> m\<lparr>dir := (dir m)(n := None)\<rparr>
      | Some dm \<Rightarrow>
          (case find (\<lambda>(g, ds). data_name g = n \<or> fl_name g = n) dm of
             None \<Rightarrow> m\<lparr>dir := (dir m)(n := None)\<rparr>
           | Some (g, ds) \<Rightarrow>
               if data_name g = n then m\<lparr>unlinked := g # unlinked m\<rparr>
               else m\<lparr>theDataStores := Some (smap_put g (ds\<lparr>flfile := None\<rparr>) dm)\<rparr>))"

fun clear_loop :: "(string \<Rightarrow> bool) \<Rightarrow> string list \<Rightarrow> ds_manager \<Rightarrow> ds_manager" where
  "clear_loop remove_ok [] m = m"
| "clear_loop remove_ok (n # ns) m =
     clear_loop remove_ok ns (if is_store_file n \<and> remove_ok n then unlink_entry n m else m)"

definition clearAllDataStores :: "bool \<Rightarrow> (string \<Rightarrow> bool) \<Rightarrow> string list \<Rightarrow> ds_manager \<Rightarrow> ds_manager" where
  "clearAllDataStores opendir_ok remove_ok entries m =
     (if opendir_ok then clear_loop remove_ok entries m else m)"

text \<open>The visitor as a function that accumulates.\<close>

definition visitDataStores :: "(datastore \<Rightarrow> 'a \<Rightarrow> 'a) \<Rightarrow> ds_manager \<Rightarrow> 'a \<Rightarrow> 'a" where
  "visitDataStores visit m acc =
     (case theDataStores m of None \<Rightarrow> acc | Some dm \<Rightarrow> fold (\<lambda>(_, ds). visit ds) dm acc)"

definition DataStores_destroy :: "ds_manager \<Rightarrow> ds_manager" where
  "DataStores_destroy m = m\<lparr>dsflusher := flusher_stop (dsflusher m), listening := False\<rparr>"

section \<open>The flusher\<close>

text \<open>
  One round of \<^verbatim>\<open>FlushJob::run\<close>: the queue is emptied and the stores in it are flushed; the
  result tells whether the job goes on. An exception ends the job, with \<^verbatim>\<open>_running\<close> still set.
\<close>

fun flush_queue :: "ds_env \<Rightarrow> nat list \<Rightarrow> ds_manager \<Rightarrow> (unit, ds_manager) outcome" where
  "flush_queue env [] m = ret () m"
| "flush_queue env (g # gs) m =
     andThen (getDataStore env g m) (\<lambda>_ m1.
       andThen (on_store g (flush env) m1) (\<lambda>_ m2. flush_queue env gs m2))"

definition FlushJob_round :: "ds_env \<Rightarrow> ds_manager \<Rightarrow> (bool, ds_manager) outcome" where
  "FlushJob_round env m =
     (if \<not> running (dsflusher m) then ret False m
      else
        andThen (flush_queue env (queued (dsflusher m)) (m\<lparr>dsflusher := (dsflusher m)\<lparr>queued := []\<rparr>\<rparr>))
          (\<lambda>_ m1. ret True m1))"

section \<open>The names are distinct\<close>

definition undecimal :: "string \<Rightarrow> nat" where
  "undecimal s = foldl (\<lambda>v c. 10 * v + (of_char c - 48)) 0 s"

lemma undecimal_decimal: "undecimal (decimal n) = n"
proof (induction n rule: decimal.induct)
  case (1 n)
  have d: "of_char (digit k) - 48 = k" if "k < 10" for k :: nat
    using that by (simp add: digit_def)
  show ?case
  proof (cases "n < 10")
    case False
    then have "undecimal (decimal (n div 10)) = n div 10" by (rule 1)
    then show ?thesis using False d [of "n mod 10"] by (subst decimal.simps) (simp add: undecimal_def)
  qed (use d in \<open>subst decimal.simps, simp add: undecimal_def\<close>)
qed

lemma name_eq_iff [simp]:
  "data_name g = data_name h \<longleftrightarrow> g = h" "fl_name g = fl_name h \<longleftrightarrow> g = h" "data_name g \<noteq> fl_name h"
  "fl_name g \<noteq> data_name h"
proof -
  show d: "data_name g = data_name h \<longleftrightarrow> g = h" using undecimal_decimal by (auto simp: data_name_def) metis
  show "fl_name g = fl_name h \<longleftrightarrow> g = h" by (simp add: fl_name_def d)
  have l: "last (data_name k) = CHR ''a''" "last (fl_name k) = CHR ''l''" for k
    by (simp_all add: data_name_def fl_name_def)
  show "data_name g \<noteq> fl_name h" "fl_name g \<noteq> data_name h"
    using l(1) [of g] l(1) [of h] l(2) [of g] l(2) [of h] by auto
qed

section \<open>Who owns the files\<close>

text \<open>
  An open store is in the map under its guid and owns its files: they are not in the
  directory.
\<close>

definition mgr_ok :: "ds_manager \<Rightarrow> bool" where
  "mgr_ok m \<longleftrightarrow> (\<forall>dm. theDataStores m = Some dm \<longrightarrow> smap_ok dm \<and>
     (\<forall>g ds. smap_find dm g = Some ds \<longrightarrow>
        guid ds = g \<and> dir m (data_name g) = None \<and> dir m (fl_name g) = None))"

lemma readFreelistFromFile_guid: "guid (snd (readFreelistFromFile env ds)) = guid ds"
  by (cases "fl_reading env") (simp_all add: readFreelistFromFile_def split: option.split prod.split sum.split)

lemma DataStore_guid: "guid (snd (DataStore env g f flf flsh)) = g"
proof -
  have "guid (snd (initializeFreelist env ds)) = guid ds" for ds
    using readFreelistFromFile_guid [of env "ds\<lparr>allocatedSize := roundUp (length (dfile ds))\<rparr>"]
    by (cases "readFreelistFromFile env (ds\<lparr>allocatedSize := roundUp (length (dfile ds))\<rparr>)" rule: outcome_cases)
      (simp_all add: initializeFreelist_def Let_def calcLargestFreeChunk_def)
  then show ?thesis by (simp add: DataStore_def Let_def)
qed

lemma flush_guid: "guid (snd (flush env ds)) = guid ds"
proof -
  have "guid (snd (persistFreelists env ds)) = guid ds" for ds
    by (simp add: persistFreelists_def split: prod.split sum.split)
  then show ?thesis by (simp add: flush_def)
qed

lemma andThen_keeps:
  assumes "P (snd r)" "\<And>v m1. P m1 \<Longrightarrow> P (snd (k v m1))"
  shows "P (snd (andThen r k))"
  using assms by (cases r rule: outcome_cases) simp_all

lemmas mgr_andThen = andThen_keeps [where P = mgr_ok]

lemma mgr_okD:
  assumes "mgr_ok m" "theDataStores m = Some dm"
  shows "smap_ok dm" "smap_find dm g = Some ds \<Longrightarrow> guid ds = g" "smap_find dm g = Some ds \<Longrightarrow> dir m (data_name g) = None"
    "smap_find dm g = Some ds \<Longrightarrow> dir m (fl_name g) = None"
  using assms by (auto simp: mgr_ok_def)

lemma make_store_ok:
  assumes "mgr_ok m" "theDataStores m = Some dm" "smap_find dm g = None"
  shows "mgr_ok (snd (make_store env g dm m))"
proof -
  note ok = mgr_okD [OF assms(1,2)]
  obtain q ds where q: "DataStore (env\<lparr>minAllocSize := minAlloc m\<rparr>) g (dir m (data_name g)) (dir m (fl_name g))
      (dsflusher m) = (q, ds)" by fastforce
  then have ds: "guid ds = g" using DataStore_guid by (metis snd_conv)
  show ?thesis
  proof (cases q)
    case (Inl e)
    then have "snd (make_store env g dm m) = (if open_data_ok env then m\<lparr>dir := put_files ds (dir m)\<rparr> else m)"
      using q by (simp add: make_store_def)
    then show ?thesis using ok assms ds by (auto simp: mgr_ok_def put_files_def)
  next
    case (Inr u)
    then have "snd (make_store env g dm m) =
        m\<lparr>theDataStores := Some (smap_put g ds dm), dir := (dir m)(data_name g := None, fl_name g := None)\<rparr>"
      using q by (simp add: make_store_def)
    then show ?thesis using ok ds by (simp add: mgr_ok_def smap_ok_put smap_find_put)
  qed
qed

lemma getDataStore_ok: "mgr_ok m \<Longrightarrow> mgr_ok (snd (getDataStore env g m))"
  by (simp add: getDataStore_def make_store_ok split: option.split)

lemma on_store_ok:
  assumes "mgr_ok m" "\<And>ds. guid (snd (f ds)) = guid ds"
  shows "mgr_ok (snd (on_store g f m))"
proof (cases "theDataStores m")
  case (Some dm)
  note ok = mgr_okD [OF assms(1) Some]
  show ?thesis
  proof (cases "smap_find dm g")
    case find: (Some ds)
    obtain q ds' where q: "f (ds\<lparr>dsm_flusher := dsflusher m\<rparr>) = (q, ds')" by fastforce
    then have g: "guid ds' = g" using assms(2) [of "ds\<lparr>dsm_flusher := dsflusher m\<rparr>"] ok(2) [OF find] by simp
    have "snd (on_store g f m) = m\<lparr>theDataStores := Some (smap_put g ds' dm), dsflusher := dsm_flusher ds'\<rparr>"
      using q by (simp add: on_store_def Some find)
    then show ?thesis using g ok ok(3,4) [OF find] by (simp add: mgr_ok_def smap_ok_put smap_find_put)
  qed (simp add: on_store_def Some assms(1))
qed (simp add: on_store_def assms(1))

lemma on_store_flush_ok: "mgr_ok m \<Longrightarrow> mgr_ok (snd (on_store g (flush env) m))"
  by (simp add: on_store_ok flush_guid)

lemma drop_store_ok:
  assumes "mgr_ok m"
  shows "mgr_ok (drop_store g remove m)"
proof (cases "theDataStores m")
  case (Some dm)
  note ok = mgr_okD [OF assms Some]
  show ?thesis
  proof (cases "smap_find dm g")
    case find: (Some ds)
    have "guid ds = g" by (rule ok(2) [OF find])
    then show ?thesis
      using ok by (simp add: drop_store_def Some find mgr_ok_def put_files_def smap_ok_erase smap_find_erase) blast
  qed (simp add: drop_store_def Some assms)
qed (simp add: drop_store_def assms)

lemma closeDataStore_ok: "mgr_ok m \<Longrightarrow> mgr_ok (snd (closeDataStore env g remove m))"
  unfolding closeDataStore_def
  by (auto split: option.split intro!: mgr_andThen make_store_ok on_store_flush_ok drop_store_ok)

lemma flushAll_loop_ok: "mgr_ok m \<Longrightarrow> mgr_ok (snd (flushAll_loop env lastGuid m))"
proof (induction env lastGuid m rule: flushAll_loop.induct)
  case (1 env lastGuid m)
  have "mgr_ok m1" if "on_store g (flush env) m = (q, m1)" for g q m1
    using on_store_flush_ok [OF 1(2), of g env] that by simp
  then show ?case
    using 1 by (subst flushAll_loop.simps) (auto split: option.split list.split prod.split sum.split)
qed

lemma flush_queue_ok: "mgr_ok m \<Longrightarrow> mgr_ok (snd (flush_queue env gs m))"
  by (induction gs arbitrary: m) (auto intro!: mgr_andThen getDataStore_ok on_store_flush_ok)

lemma mgr_ok_cong: "theDataStores m' = theDataStores m \<Longrightarrow> dir m' = dir m \<Longrightarrow> mgr_ok m' = mgr_ok m"
  by (simp add: mgr_ok_def)

lemma FlushJob_round_ok: "mgr_ok m \<Longrightarrow> mgr_ok (snd (FlushJob_round env m))"
proof -
  assume "mgr_ok m"
  then have "mgr_ok (m\<lparr>dsflusher := (dsflusher m)\<lparr>queued := []\<rparr>\<rparr>)" by (simp add: mgr_ok_def)
  then show ?thesis using \<open>mgr_ok m\<close> by (auto simp: FlushJob_round_def intro!: mgr_andThen flush_queue_ok)
qed

lemma unlink_entry_ok:
  assumes "mgr_ok m"
  shows "mgr_ok (unlink_entry n m)"
proof (cases "theDataStores m")
  case (Some dm)
  note ok = mgr_okD [OF assms Some]
  show ?thesis
  proof (cases "find (\<lambda>(g, ds). data_name g = n \<or> fl_name g = n) dm")
    case find: (Some e)
    obtain g ds where e: "e = (g, ds)" by fastforce
    then have "(g, ds) \<in> set dm" using find by (metis find_Some_iff nth_mem)
    then have "smap_find dm g = Some ds" using ok(1) by (simp add: smap.mem_iter_iff)
    then show ?thesis
      using ok by (auto simp: unlink_entry_def Some find e mgr_ok_def smap_ok_put smap_find_put)
  qed (use ok in \<open>auto simp: unlink_entry_def Some mgr_ok_def\<close>)
qed (use assms in \<open>simp add: unlink_entry_def mgr_ok_def\<close>)

lemma clearAll_ok: "mgr_ok m \<Longrightarrow> mgr_ok (clearAllDataStores opendir_ok remove_ok entries m)"
proof -
  have "mgr_ok m \<Longrightarrow> mgr_ok (clear_loop remove_ok entries m)"
    by (induction remove_ok entries m rule: clear_loop.induct) (simp_all add: unlink_entry_ok)
  then show "mgr_ok m \<Longrightarrow> mgr_ok (clearAllDataStores opendir_ok remove_ok entries m)"
    by (simp add: clearAllDataStores_def)
qed

lemma init_ok: "mgr_ok m \<Longrightarrow> mgr_ok (snd (initDataStores create_ok min_alloc ms path m))"
proof (cases "theDataStores m = None")
  case True
  then show ?thesis
    by (cases "running (dsflusher m)") (simp_all add: initDataStores_def Let_def flusher_start_def mgr_ok_def throw_def ret_def andThen_def smap_find_def)
qed (simp add: initDataStores_def)

section \<open>Flushing every store\<close>

lemma flush_clean:
  assumes "flush env ds = ret () ds'"
  shows "\<not> dirty ds' \<and> \<not> fldirty ds'"
proof -
  have "dirty ds2 = dirty ds1 \<and> \<not> fldirty ds2" if "persistFreelists env ds1 = ret () ds2" for ds1 ds2
    using that by (auto simp: persistFreelists_def split: if_splits prod.splits sum.splits)
  then show ?thesis using assms by (auto simp: flush_def andThen_eq_ret split: if_splits)
qed

lemma on_store_ret:
  assumes "on_store g f m = ret v m'" "theDataStores m = Some dm"
  obtains ds ds' where "smap_find dm g = Some ds" "f (ds\<lparr>dsm_flusher := dsflusher m\<rparr>) = ret v ds'"
    "m' = m\<lparr>theDataStores := Some (smap_put g ds' dm), dsflusher := dsm_flusher ds'\<rparr>"
proof (cases "smap_find dm g")
  case (Some ds)
  obtain q ds' where "f (ds\<lparr>dsm_flusher := dsflusher m\<rparr>) = (q, ds')" by fastforce
  then show thesis using that [OF Some] assms Some by (auto simp: on_store_def ret_def)
qed (use assms in \<open>simp add: on_store_def\<close>)

lemma smap_upper_least:
  assumes "smap_ok dm" "smap_upper k dm = (g, ds) # rest" "k < h" "smap_find dm h = Some x"
  shows "g \<le> h"
proof -
  have "(h, x) \<in> set (smap_upper k dm)" using smap_upper_iff [OF assms(1), of h x k] assms(3,4) by simp
  moreover have "sorted_wrt (<) (map fst (smap_upper k dm))"
    using assms(1) smap_ok_filter by (auto simp: smap_upper_def smap_ok_def)
  ultimately show ?thesis using assms(2) by (auto simp: image_iff)
qed

lemma flushAll_loop_clean:
  assumes "mgr_ok m" "flushAll_loop env lastGuid m = ret () m'" "theDataStores m = Some dm"
  shows "\<exists>dm'. theDataStores m' = Some dm' \<and>
     (\<forall>g. (smap_find dm' g = None) = (smap_find dm g = None)) \<and>
     (\<forall>g ds. smap_find dm' g = Some ds \<longrightarrow> (if lastGuid < g then \<not> dirty ds \<and> \<not> fldirty ds else smap_find dm g = Some ds))"
  using assms
proof (induction env lastGuid m arbitrary: dm rule: flushAll_loop.induct)
  case (1 env lastGuid m)
  note ok = mgr_okD [OF 1(2,4)]
  show ?case
  proof (cases "smap_upper lastGuid dm")
    case Nil
    then have "smap_find dm g = None" if "lastGuid < g" for g
      using that smap_upper_iff [OF ok(1), of g _ lastGuid] by (cases "smap_find dm g") auto
    then show ?thesis using 1(3,4) Nil by (subst (asm) flushAll_loop.simps) auto
  next
    case (Cons e rest)
    obtain g ds where e: "e = (g, ds)" by fastforce
    obtain m1 where m1: "on_store g (flush env) m = ret () m1" "flushAll_loop env g m1 = ret () m'"
      using 1(3,4) Cons e
      by (subst (asm) flushAll_loop.simps)
        (cases "on_store g (flush env) m" rule: outcome_cases, auto simp: throw_def ret_def)
    obtain d d' where d: "smap_find dm g = Some d" "flush env (d\<lparr>dsm_flusher := dsflusher m\<rparr>) = ret () d'"
      "theDataStores m1 = Some (smap_put g d' dm)"
      using on_store_ret [OF m1(1) 1(4)] by (metis ds_manager.select_convs(1) ds_manager.surjective
          ds_manager.update_convs(1) ds_manager.update_convs(4))
    have "mgr_ok m1" using on_store_flush_ok [OF 1(2), of g env] m1(1) by simp
    moreover have "on_store g (flush env) m = (Inr (), m1)" using m1(1) by (simp add: ret_def)
    ultimately have "\<exists>dm'. theDataStores m' = Some dm' \<and>
        (\<forall>h. (smap_find dm' h = None) = (smap_find (smap_put g d' dm) h = None)) \<and>
        (\<forall>h ds. smap_find dm' h = Some ds \<longrightarrow>
         (if g < h then \<not> dirty ds \<and> \<not> fldirty ds else smap_find (smap_put g d' dm) h = Some ds))"
      by (intro 1(1) [OF 1(4) Cons e [symmetric] _ _ _ m1(2) d(3)]) simp_all
    then obtain dm' where dm': "theDataStores m' = Some dm'"
      "\<forall>h. (smap_find dm' h = None) = (smap_find (smap_put g d' dm) h = None)"
      "\<forall>h ds. smap_find dm' h = Some ds \<longrightarrow>
         (if g < h then \<not> dirty ds \<and> \<not> fldirty ds else smap_find (smap_put g d' dm) h = Some ds)"
      by blast
    have lt: "lastGuid < g" using smap_upper_guid [OF 1(4), of lastGuid g ds rest] Cons e by (simp add: guids_above_def)
    have least: "g \<le> h" if "lastGuid < h" "smap_find dm' h = Some x" for h x
    proof (cases "h = g")
      case False
      then have "smap_find dm h \<noteq> None" using spec [OF dm'(2), of h] that(2) by (simp add: smap_find_put)
      then show ?thesis using smap_upper_least [OF ok(1), of lastGuid g ds rest h] Cons e that(1) by auto
    qed simp
    have step: "if lastGuid < h then \<not> dirty x \<and> \<not> fldirty x else smap_find dm h = Some x"
      if "smap_find dm' h = Some x" for h x
      using spec [OF spec [OF dm'(3)], of h x] that lt flush_clean [OF d(2)] least [of h x]
      by (cases h g rule: linorder_cases) (auto simp: smap_find_put)
    show ?thesis
      using dm'(1) spec [OF dm'(2)] step d(1) by (intro exI [of _ dm']) (auto simp: smap_find_put)
  qed
qed

section \<open>Runs of the manager\<close>

inductive mgr_step :: "ds_manager \<Rightarrow> ds_manager \<Rightarrow> bool" where
  mgr_init: "mgr_step m (snd (initDataStores create_ok min_alloc ms path m))"
| mgr_get: "mgr_step m (snd (getDataStore env g m))"
| mgr_close: "mgr_step m (snd (closeDataStore env g remove m))"
| mgr_op: "(\<And>ds. guid (snd (f ds :: (unit, datastore) outcome)) = guid ds) \<Longrightarrow> mgr_step m (snd (on_store g f m))"
| mgr_flushAll: "mgr_step m (snd (flushAllDataStores env m))"
| mgr_clearAll: "mgr_step m (clearAllDataStores opendir_ok remove_ok entries m)"
| mgr_round: "mgr_step m (snd (FlushJob_round env m))"

lemma mgr_step_ok: "mgr_step m m' \<Longrightarrow> mgr_ok m \<Longrightarrow> mgr_ok m'"
  by (induction rule: mgr_step.induct)
    (simp_all add: init_ok getDataStore_ok closeDataStore_ok on_store_ok flushAll_loop_ok clearAll_ok
      FlushJob_round_ok flushAllDataStores_def)

lemma mgr_ok_start: "mgr_ok (DataStores d)"
  by (simp add: DataStores_def mgr_ok_def)

lemma mgr_run_ok: "mgr_step\<^sup>*\<^sup>* (DataStores d) m \<Longrightarrow> mgr_ok m"
  by (induction rule: rtranclp_induct) (auto intro: mgr_step_ok mgr_ok_start)

section \<open>Examples\<close>

text \<open>A manager with one open store, scheduled for flushing.\<close>

definition mgr_ex :: ds_manager where
  "mgr_ex = \<lparr>theDataStores = Some [(7, run_write)], basePath = ''/db/'', minAlloc = 32,
             dsflusher = \<lparr>running = True, queued = [7]\<rparr>, listening = True, dir = (\<lambda>_. None), unlinked = []\<rparr>"

lemma mgr_ex_ok: "mgr_ok mgr_ex"
  by (auto simp: mgr_ok_def mgr_ex_def smap_find_def smap_ok_def run_write_def run_alloc_def run_new_def
      split: if_splits)

lemma flush_run_write: "flush run_env (run_write\<lparr>dsm_flusher := \<lparr>running = True, queued = [7]\<rparr>\<rparr>) = ret () run_flush"
proof -
  have "run_write\<lparr>dsm_flusher := \<lparr>running = True, queued = [7]\<rparr>\<rparr> = run_write"
    by (simp add: run_write_def run_alloc_def)
  then show ?thesis using run_flush by simp
qed

lemma on_store_ex: "on_store 7 (flush run_env) mgr_ex = ret () (mgr_ex\<lparr>theDataStores := Some [(7, run_flush)]\<rparr>)"
proof -
  have "dsm_flusher run_flush = \<lparr>running = True, queued = [7]\<rparr>"
    by (simp add: run_flush_def run_write_def run_alloc_def)
  then show ?thesis
    using flush_run_write by (simp add: on_store_def mgr_ex_def smap_find_def smap_put_def) (simp add: ret_def)
qed

section \<open>Properties\<close>

text \<open>When \<open>flushAllDataStores\<close> returns, every open store but the one with guid 0 is clean, and the
  same stores are open.\<close>

theorem flushAll_clean:
  assumes "mgr_ok m" "theDataStores m = Some dm" "flushAllDataStores env m = ret () m'"
  shows "\<exists>dm'. theDataStores m' = Some dm' \<and> (\<forall>g. (smap_find dm' g = None) = (smap_find dm g = None)) \<and>
     (\<forall>g ds. smap_find dm' g = Some ds \<longrightarrow> (if 0 < g then \<not> dirty ds \<and> \<not> fldirty ds else smap_find dm g = Some ds))"
  using flushAll_loop_clean [OF assms(1) _ assms(2)] assms(3) by (simp add: flushAllDataStores_def)

theorem flushAll_clean_witness:
  "mgr_ok mgr_ex \<and> (\<exists>m' dm' ds. flushAllDataStores run_env mgr_ex = ret () m' \<and> theDataStores m' = Some dm' \<and>
     smap_find dm' 7 = Some ds \<and> \<not> dirty ds)"
proof -
  define m' where "m' = mgr_ex\<lparr>theDataStores := Some [(7, run_flush)]\<rparr>"
  have "flushAll_loop run_env 7 m' = ret () m'"
    by (subst flushAll_loop.simps) (simp add: m'_def smap_upper_def)
  moreover have "theDataStores mgr_ex = Some [(7, run_write)]" by (simp add: mgr_ex_def)
  ultimately have "flushAllDataStores run_env mgr_ex = ret () m'"
    using on_store_ex
    by (simp add: flushAllDataStores_def flushAll_loop.simps [of _ 0] smap_upper_def m'_def [symmetric])
      (simp add: ret_def)
  then show ?thesis
    using flushAll_clean [OF mgr_ex_ok, of "[(7, run_write)]" run_env m'] mgr_ex_ok
    by (fastforce simp: m'_def mgr_ex_def smap_find_def)
qed

text \<open>C15. A store that is closed without an exception and opened again without a failing call through the
  manager has its chunks and its free lists, on the conditions under which a flush writes them: the lists
  have changed since they were last written or are those in their file (a new store that nothing was
  allocated from loses them), the file has the size of the store, the minimum size is not above it, there
  is memory for the largest bucket, and the data file was not unlinked by \<^verbatim>\<open>clearAllDataStores\<close>.\<close>

theorem close_then_get:
  assumes "theDataStores m = Some dm" "smap_find dm g = Some ds" "guid ds = g"
    and "ds_inv ds L" "roundUp (length (dfile ds)) = allocatedSize ds"
    and "fldirty ds \<or> flfile ds = Some (file_bytes (freelists ds))"
    and "minAlloc m \<le> allocatedSize ds" "fits (mem_limit env') (freelists ds)" "opens env'" "g \<notin> set (unlinked m)"
    and "closeDataStore env g False m = ret () m1"
  shows "\<exists>ds2 m2. getDataStore env' g m1 = ret ds2 m2 \<and> freelists ds2 = freelists ds \<and> dfile ds2 = dfile ds \<and>
     allocatedSize ds2 = allocatedSize ds \<and> ds_inv ds2 L"
proof -
  define ds0 where "ds0 = ds\<lparr>dsm_flusher := dsflusher m\<rparr>"
  have "\<exists>m2. on_store g (flush env) m = ret () m2 \<and> m1 = drop_store g False m2"
    using assms(1,2,11) by (auto simp: closeDataStore_def andThen_eq_ret)
  then obtain ds1 where f: "flush env ds0 = ret () ds1"
    and m1: "m1 = drop_store g False (m\<lparr>theDataStores := Some (smap_put g ds1 dm), dsflusher := dsm_flusher ds1\<rparr>)"
    using on_store_ret [OF _ assms(1)] assms(2) unfolding ds0_def by (metis option.inject)
  have g1: "guid ds1 = g" using flush_guid [of env ds0] f assms(3) by (simp add: ds0_def)
  have inv0: "ds_inv ds0 L" "roundUp (length (dfile ds0)) = allocatedSize ds0"
    "fldirty ds0 \<or> flfile ds0 = Some (file_bytes (freelists ds0))" "freelists ds0 = freelists ds" "allocatedSize ds0 = allocatedSize ds"
    "dfile ds0 = dfile ds"
    using assms(4-6) by (simp_all add: ds0_def ds_inv_def largest_ok_def disk_ok_def)
  obtain ds2 where ds2: "DataStore (env'\<lparr>minAllocSize := minAlloc m\<rparr>) g (Some (dfile ds1)) (flfile ds1) (dsm_flusher ds1)
      = ret () ds2" "freelists ds2 = freelists ds" "dfile ds2 = dfile ds" "allocatedSize ds2 = allocatedSize ds" "ds_inv ds2 L"
    using flush_then_open [OF inv0(1-3) f, of "env'\<lparr>minAllocSize := minAlloc m\<rparr>" g "dsm_flusher ds1"] assms(7-9) inv0(4-6)
    by (auto simp: opens_def)
  have "theDataStores m1 = Some (smap_erase g (smap_put g ds1 dm))" "dir m1 (data_name g) = Some (dfile ds1)"
    "dir m1 (fl_name g) = flfile ds1" "dsflusher m1 = dsm_flusher ds1" "minAlloc m1 = minAlloc m"
    using g1 assms(10) by (simp_all add: m1 drop_store_def smap_find_put put_files_def)
  then have "\<exists>m2. getDataStore env' g m1 = ret ds2 m2"
    using ds2(1) by (simp add: getDataStore_def make_store_def smap_find_erase) (simp add: ret_def)
  then show ?thesis using ds2(2-5) by blast
qed

theorem close_then_get_witness:
  "\<exists>m1 ds2 m2. closeDataStore run_env 7 False mgr_ex = ret () m1 \<and> getDataStore run_env 7 m1 = ret ds2 m2 \<and>
     freelists ds2 = [(32, [32])] \<and> dfile ds2 = run_file"
proof -
  note run = run_write_def run_alloc_def run_new_def
  have "\<exists>m1. closeDataStore run_env 7 False mgr_ex = ret () m1"
    using on_store_ex by (simp add: closeDataStore_def) (simp add: mgr_ex_def smap_find_def)
  then obtain m1 where m1: "closeDataStore run_env 7 False mgr_ex = ret () m1" by blast
  have "opens run_env" by (simp add: opens_def run_env_def)
  then show ?thesis
    using close_then_get [of mgr_ex "[(7, run_write)]" 7 run_write "{(32, 0)}" run_env run_env m1] m1
      run_inv(2) freelists_run(2)
    by (simp add: mgr_ex_def run run_env_def smap_find_def) blast
qed

text \<open>The flusher brings a removed store back: a store that is still scheduled when it is removed is opened
  again in the next round, with a new data file of the minimum size.\<close>

theorem flusher_reopens_removed:
  assumes "theDataStores m = Some dm" "smap_find dm g = Some ds" "mgr_ok m"
    and "closeDataStore env g True m = ret () m1" "running (dsflusher m1)" "queued (dsflusher m1) = [g]"
    and "open_data_ok env" "fstat_ok env" "\<forall>n. ftruncate_ok env n" "\<forall>c. \<not> full env c" "1 \<le> minAlloc m"
  shows "\<exists>m2 dm2 ds2. FlushJob_round env m1 = ret True m2 \<and> theDataStores m2 = Some dm2 \<and>
     smap_find dm2 g = Some ds2 \<and> dfile ds2 = replicate (roundUp (minAlloc m)) 0"
proof -
  note own = mgr_okD(3,4) [OF assms(3,1,2)]
  have "\<exists>m2. on_store g (flush env) m = ret () m2 \<and> m1 = drop_store g True m2"
    using assms(1,2,4) by (auto simp: closeDataStore_def andThen_eq_ret)
  then obtain ds1 where m1: "m1 = drop_store g True (m\<lparr>theDataStores := Some (smap_put g ds1 dm), dsflusher := dsm_flusher ds1\<rparr>)"
    using on_store_ret [OF _ assms(1)] by metis
  define f where "f = (dsflusher m1)\<lparr>queued := []\<rparr>"
  define m1' where "m1' = m1\<lparr>dsflusher := f\<rparr>"
  define dm1 where "dm1 = smap_erase g (smap_put g ds1 dm)"
  have d1: "theDataStores m1' = Some dm1" "dir m1' = dir m" "minAlloc m1' = minAlloc m" "dsflusher m1' = f"
    by (simp_all add: m1'_def m1 drop_store_def smap_find_put dm1_def)
  have none: "smap_find dm1 g = None" by (simp add: dm1_def smap_find_erase)
  define A where "A = roundUp (minAlloc m)"
  define new where "new = snd (DataStore (env\<lparr>minAllocSize := minAlloc m\<rparr>) g None None f)"
  have "roundUp 0 = 0" by (rule roundUp_wraps) simp_all
  then have new: "DataStore (env\<lparr>minAllocSize := minAlloc m\<rparr>) g None None f = ret () new"
    "dfile new = replicate A 0" "\<not> dirty new" "\<not> fldirty new" "dsm_flusher new = f"
    using assms(7-11)
    by (simp_all add: new_def DataStore_def initializeFreelist_def Let_def truncate_to_def A_def calcLargestFreeChunk_def)
  define m2 where "m2 = m1'\<lparr>theDataStores := Some (smap_put g new dm1), dir := (dir m)(data_name g := None, fl_name g := None)\<rparr>"
  have get: "getDataStore env g m1' = ret new m2"
    using new(1) own by (simp add: getDataStore_def d1 none make_store_def m2_def) (simp add: ret_def d1)
  have fnew: "flush env (new\<lparr>dsm_flusher := f\<rparr>) = ret () (new\<lparr>dsm_flusher := f\<rparr>)" using new(3,4) by (simp add: flush_def)
  define m3 where "m3 = m2\<lparr>theDataStores := Some (smap_put g (new\<lparr>dsm_flusher := f\<rparr>) (smap_put g new dm1)), dsflusher := f\<rparr>"
  have "on_store g (flush env) m2 = ret () m3"
    using fnew by (simp add: on_store_def m2_def d1 smap_find_put m3_def) (simp add: ret_def)
  then have "FlushJob_round env m1 = ret True m3"
    using assms(5,6) get by (simp add: FlushJob_round_def m1'_def f_def)
  moreover have "theDataStores m3 = Some (smap_put g (new\<lparr>dsm_flusher := f\<rparr>) (smap_put g new dm1))" by (simp add: m3_def)
  ultimately show ?thesis using new(2) by (auto simp: smap_find_put A_def)
qed

theorem flusher_reopens_removed_witness:
  "\<exists>m1 m2 dm2 ds2. closeDataStore run_env 7 True mgr_ex = ret () m1 \<and> FlushJob_round run_env m1 = ret True m2 \<and>
     theDataStores m2 = Some dm2 \<and> smap_find dm2 7 = Some ds2 \<and> dfile ds2 = replicate 32 0"
proof -
  define m1 where "m1 = drop_store 7 True (mgr_ex\<lparr>theDataStores := Some [(7, run_flush)]\<rparr>)"
  have m1: "closeDataStore run_env 7 True mgr_ex = ret () m1"
    using on_store_ex by (simp add: closeDataStore_def m1_def) (simp add: mgr_ex_def smap_find_def)
  have "dsflusher m1 = \<lparr>running = True, queued = [7]\<rparr>"
    by (simp add: m1_def drop_store_def smap_find_def mgr_ex_def)
  then show ?thesis
    using flusher_reopens_removed [of mgr_ex "[(7, run_write)]" 7 run_write run_env m1] m1 mgr_ex_ok
    by (simp add: smap_find_def) (simp add: mgr_ex_def run_env_def)
qed

text \<open>A new store that is closed before anything is allocated loses its space: its free lists are not
  written, and the next open finds none.\<close>

theorem new_store_reopened_empty:
  assumes "opened env" "DataStore env g None None flsh = ret () ds" "flush env ds = ret () ds1"
    and "DataStore env g (Some (dfile ds1)) (flfile ds1) flsh = ret () ds2"
  shows "freelists ds = [(allocatedSize ds, [0])] \<and> freelists ds2 = [] \<and> allocatedSize ds2 = allocatedSize ds"
proof -
  define A where "A = roundUp (minAllocSize env)"
  have m: "1 \<le> minAllocSize env" "minAllocSize env \<le> 2 ^ 61" using assms(1) by (simp_all add: opened_def)
  have A: "pow2 A" "minAllocSize env \<le> A" "A < 2 * minAllocSize env"
    using roundUp_correct [of "minAllocSize env"] m by (simp_all add: A_def)
  have "roundUp 0 = 0" by (rule roundUp_wraps) simp_all
  then have ds: "freelists ds = [(A, [0])]" "allocatedSize ds = A" "length (dfile ds) = A" "flfile ds = None"
    "\<not> dirty ds" "\<not> fldirty ds"
    using assms(2) m(1)
    by (auto simp: DataStore_def initializeFreelist_def Let_def A_def [symmetric] fl_insert_def smap_put_def
        fl_bucket_def smap_find_def sset_insert_def calcLargestFreeChunk_def split: if_splits)
  then have "ds1 = ds" using assms(3) by (simp add: flush_def)
  moreover have "roundUp A = A" using roundUp_pow2 [OF A(1)] A(3) m(2) by simp
  ultimately show ?thesis
    using assms(4) ds A(2)
    by (auto simp: DataStore_def initializeFreelist_def Let_def readFreelistFromFile_def calcLargestFreeChunk_def
        split: if_splits)
qed

theorem new_store_reopened_empty_witness:
  "\<exists>ds2. DataStore (run_env\<lparr>minAllocSize := 64\<rparr>) 7 (Some (dfile run_new)) None \<lparr>running = True, queued = []\<rparr> = ret () ds2 \<and>
     freelists ds2 = []"
proof -
  define env where "env = run_env\<lparr>minAllocSize := 64\<rparr>"
  have f: "flush env run_new = ret () run_new" by (simp add: flush_def run_new_def)
  have "\<exists>ds2. DataStore env 7 (Some (dfile run_new)) (flfile run_new) \<lparr>running = True, queued = []\<rparr> = ret () ds2"
    by (simp add: DataStore_def initializeFreelist_def Let_def readFreelistFromFile_def env_def run_env_def run_new_def)
  moreover have "opened env" by (simp add: opened_def env_def run_env_def)
  moreover have "flfile run_new = None" by (simp add: run_new_def)
  ultimately show ?thesis
    using new_store_reopened_empty [OF _ run_new [folded env_def] f] unfolding env_def by fastforce
qed

end
