(* ===== verification/Rle_Bitmap.thy ===== *)
theory Rle_Bitmap
  imports Bytes
begin

text \<open>
  Run-length encoded empty bitmaps: \<^verbatim>\<open>ConstRLEEmptyBitmap\<close> and \<^verbatim>\<open>RLEEmptyBitmap\<close> of
  \<^verbatim>\<open>include/array/RLE.h\<close> and \<^verbatim>\<open>src/array/RLE.cpp\<close>, with their iterators and constructors. A
  bitmap is its list of segments and the count it maintains; positions are integers, which
  the size limits of chunks keep inside of 64 bits.
\<close>

section \<open>Segments and bitmaps\<close>

record bm_segment =
  lPosition :: int
  seg_length :: int
  pPosition :: int

record bitmap =
  bm_segs :: "bm_segment list"
  nNonEmptyElements :: int

definition nSegments :: "bitmap \<Rightarrow> nat" where
  "nSegments bm = length (bm_segs bm)"

definition count :: "bitmap \<Rightarrow> int" where
  "count bm = nNonEmptyElements bm"

text \<open>
  The binary search that the bitmap and the payload share: the first index of \<open>l..<r\<close> for
  which \<open>before\<close> does not hold.
\<close>

function bsearch :: "(nat \<Rightarrow> bool) \<Rightarrow> nat \<Rightarrow> nat \<Rightarrow> nat" where
  "bsearch before l r =
     (if l < r then
        (let m = (l + r) div 2 in
         if before m then bsearch before (m + 1) r else bsearch before l m)
      else r)"
  by auto

termination by (relation "measure (\<lambda>(before, l, r). r - l)") auto

declare bsearch.simps [simp del]

definition findSegment :: "int \<Rightarrow> bitmap \<Rightarrow> nat" where
  "findSegment pos bm =
     bsearch (\<lambda>m. lPosition (bm_segs bm ! m) + seg_length (bm_segs bm ! m) \<le> pos) 0 (nSegments bm)"

text \<open>\<^verbatim>\<open>size_t(-1)\<close> stands for no value.\<close>

definition no_index :: int where "no_index = 2 ^ 64 - 1"

definition getValueIndex :: "int \<Rightarrow> bitmap \<Rightarrow> int" where
  "getValueIndex pos bm =
     (let r = findSegment pos bm in
      if r < nSegments bm \<and> lPosition (bm_segs bm ! r) \<le> pos
      then pPosition (bm_segs bm ! r) + pos - lPosition (bm_segs bm ! r)
      else no_index)"

definition isEmpty :: "int \<Rightarrow> bitmap \<Rightarrow> bool" where
  "isEmpty pos bm =
     (let r = findSegment pos bm in r = nSegments bm \<or> lPosition (bm_segs bm ! r) > pos)"

section \<open>Building bitmaps\<close>

definition empty_bitmap :: bitmap where
  "empty_bitmap = \<lparr>bm_segs = [], nNonEmptyElements = 0\<rparr>"

definition clear :: "bitmap \<Rightarrow> bitmap" where
  "clear bm = bm\<lparr>bm_segs := [], nNonEmptyElements := 0\<rparr>"

definition addSegment :: "bm_segment \<Rightarrow> bitmap \<Rightarrow> bitmap" where
  "addSegment segm bm =
     bm\<lparr>bm_segs := bm_segs bm @ [segm], nNonEmptyElements := nNonEmptyElements bm + seg_length segm\<rparr>"

definition addPositionPair :: "int \<Rightarrow> int \<Rightarrow> bitmap \<Rightarrow> bitmap" where
  "addPositionPair lPos pPos bm =
     (let bm1 = bm\<lparr>nNonEmptyElements := nNonEmptyElements bm + 1\<rparr>;
          n = nSegments bm1 in
      if 0 < n \<and> lPosition (bm_segs bm1 ! (n - 1)) + seg_length (bm_segs bm1 ! (n - 1)) = lPos \<and>
         pPosition (bm_segs bm1 ! (n - 1)) + seg_length (bm_segs bm1 ! (n - 1)) = pPos
      then bm1\<lparr>bm_segs := (bm_segs bm1)[n - 1 := (bm_segs bm1 ! (n - 1))
                 \<lparr>seg_length := seg_length (bm_segs bm1 ! (n - 1)) + 1\<rparr>]\<rparr>
      else addSegment \<lparr>lPosition = lPos, seg_length = 1, pPosition = pPos\<rparr> bm1)"

definition dense_bitmap :: "int \<Rightarrow> bitmap" where
  "dense_bitmap nBits =
     \<lparr>bm_segs = [\<lparr>lPosition = 0, seg_length = nBits, pPosition = 0\<rparr>], nNonEmptyElements = nBits\<rparr>"

text \<open>
  The loop over the positions of a value map, \<open>keep\<close> telling which of them are set; also
  the loop of the constructor from a chunk, which keeps all.
\<close>

fun position_loop :: "(int \<times> bool) list \<Rightarrow> bm_segment list \<Rightarrow> bm_segment \<Rightarrow> bm_segment list \<times> bm_segment" where
  "position_loop [] segs segm = (segs, segm)"
| "position_loop ((pos, keep) # ps) segs segm =
     (if keep then
        (let (segs, segm) =
           (if pos \<noteq> lPosition segm + seg_length segm then
              (let (segs, segm) =
                 (if seg_length segm \<noteq> 0
                  then (segs @ [segm], segm\<lparr>pPosition := pPosition segm + seg_length segm, seg_length := 0\<rparr>)
                  else (segs, segm)) in
               (segs, segm\<lparr>lPosition := pos\<rparr>))
            else (segs, segm)) in
         position_loop ps segs (segm\<lparr>seg_length := seg_length segm + 1\<rparr>))
      else position_loop ps segs segm)"

definition finish_positions :: "bm_segment list \<times> bm_segment \<Rightarrow> bitmap" where
  "finish_positions r =
     (case r of (segs, segm) \<Rightarrow>
        \<lparr>bm_segs = (if seg_length segm \<noteq> 0 then segs @ [segm] else segs),
         nNonEmptyElements = pPosition segm + seg_length segm\<rparr>)"

text \<open>From a value map: the entries in the order of their positions, with the boolean of each.\<close>

definition bitmap_of_values :: "(int \<times> bool) list \<Rightarrow> bool \<Rightarrow> bitmap" where
  "bitmap_of_values vm all =
     finish_positions (position_loop (map (\<lambda>(pos, b). (pos, all \<or> b)) vm) []
       \<lparr>lPosition = 0, seg_length = 0, pPosition = 0\<rparr>)"

text \<open>From a chunk: the coordinates in the order of its iterator.\<close>

fun chunk_pos :: "int list \<Rightarrow> int list \<Rightarrow> int list \<Rightarrow> int \<Rightarrow> int" where
  "chunk_pos (o1 # origin) (s # chunkSize) (c # coord) pos = chunk_pos origin chunkSize coord (pos * s + (c - o1))"
| "chunk_pos _ _ _ pos = pos"

definition bitmap_of_chunk :: "int list \<Rightarrow> (int \<times> int) list \<Rightarrow> int list list \<Rightarrow> bitmap" where
  "bitmap_of_chunk firstPos dims coords =
     (let origin = map (\<lambda>(c, overlap, interval). c - overlap) (zip firstPos dims);
          chunkSize = map (\<lambda>(overlap, interval). overlap * 2 + interval) dims in
      finish_positions (position_loop (map (\<lambda>c. (chunk_pos origin chunkSize c 0, True)) coords) []
        \<lparr>lPosition = 0, seg_length = 0, pPosition = 0\<rparr>))"

text \<open>From a dense bit vector.\<close>

definition bit_at :: "byte list \<Rightarrow> nat \<Rightarrow> bool" where
  "bit_at data i = bit (data ! (i div 8)) (i mod 8)"

function run_end :: "byte list \<Rightarrow> nat \<Rightarrow> nat \<Rightarrow> nat" where
  "run_end data numBits i =
     (if i + 1 < numBits \<and> bit_at data (i + 1) then run_end data numBits (i + 1) else i + 1)"
  by auto

termination by (relation "measure (\<lambda>(data, numBits, i). numBits - i)") auto

declare run_end.simps [simp del]

lemma run_end_greater: "i < run_end data numBits i"
proof (induction data numBits i rule: run_end.induct)
  case (1 data numBits i)
  then show ?case by (subst run_end.simps) auto
qed

function bits_loop :: "byte list \<Rightarrow> nat \<Rightarrow> nat \<Rightarrow> bm_segment list \<Rightarrow> int \<Rightarrow> bm_segment list \<times> int" where
  "bits_loop data numBits i segs pPos =
     (if i < numBits then
        (if bit_at data i then
           (let j = run_end data numBits i; len = int j - int i in
            bits_loop data numBits (j + 1)
              (segs @ [\<lparr>lPosition = int i, seg_length = len, pPosition = pPos\<rparr>]) (pPos + len))
         else bits_loop data numBits (i + 1) segs pPos)
      else (segs, pPos))"
  by auto

termination
  by (relation "measure (\<lambda>(data, numBits, i, segs, pPos). numBits - i)")
    (use run_end_greater in \<open>auto simp: diff_less_mono2 less_SucI\<close>)

declare bits_loop.simps [simp del]

definition bitmap_of_bits :: "byte list \<Rightarrow> nat \<Rightarrow> bitmap" where
  "bitmap_of_bits data numBits =
     (case bits_loop data numBits 0 [] 0 of (segs, pPos) \<Rightarrow> \<lparr>bm_segs = segs, nNonEmptyElements = pPos\<rparr>)"

section \<open>The packed form\<close>

definition RLE_EMPTY_BITMAP_MAGIC :: nat where "RLE_EMPTY_BITMAP_MAGIC = 0xEEEEAAAA00EEBAAC"

text \<open>A signed 64-bit number in memory.\<close>

definition pack_segment :: "bm_segment \<Rightarrow> byte list" where
  "pack_segment s = le64s (lPosition s) @ le64s (seg_length s) @ le64s (pPosition s)"

definition pack :: "bitmap \<Rightarrow> byte list" where
  "pack bm = le64 RLE_EMPTY_BITMAP_MAGIC @ le64 (nSegments bm) @ le64s (nNonEmptyElements bm) @
     concat (map pack_segment (bm_segs bm))"

definition packedSize :: "bitmap \<Rightarrow> nat" where
  "packedSize bm = 24 + nSegments bm * 24"

definition segment_at :: "byte list \<Rightarrow> nat \<Rightarrow> bm_segment" where
  "segment_at src i =
     \<lparr>lPosition = val64s (take 8 (drop (24 + 24 * i) src)),
      seg_length = val64s (take 8 (drop (32 + 24 * i) src)),
      pPosition = val64s (take 8 (drop (40 + 24 * i) src))\<rparr>"

text \<open>The constructor from raw data; \<open>None\<close> is the null pointer. The magic is only asserted.\<close>

definition ConstRLEEmptyBitmap :: "byte list option \<Rightarrow> bitmap" where
  "ConstRLEEmptyBitmap src =
     (case src of
        None \<Rightarrow> empty_bitmap
      | Some bs \<Rightarrow>
          \<lparr>bm_segs = map (segment_at bs) [0..<le_val (take 8 (drop 8 bs))],
           nNonEmptyElements = val64s (take 8 (drop 16 bs))\<rparr>)"

section \<open>The iterator over the cells\<close>

text \<open>\<open>bi_cs\<close> is the current segment, \<open>None\<close> for the null pointer of a new iterator.\<close>

record bm_iter =
  bi_currSeg :: nat
  bi_cs :: "bm_segment option"
  bi_currLPos :: int

definition bi_end :: "bitmap \<Rightarrow> bm_iter \<Rightarrow> bool" where
  "bi_end bm it \<longleftrightarrow> nSegments bm \<le> bi_currSeg it"

definition bi_enter :: "bitmap \<Rightarrow> bm_iter \<Rightarrow> bm_iter" where
  "bi_enter bm it =
     (if bi_end bm it then it
      else (let s = bm_segs bm ! bi_currSeg it in it\<lparr>bi_cs := Some s, bi_currLPos := lPosition s\<rparr>))"

definition bi_reset :: "bitmap \<Rightarrow> bm_iter \<Rightarrow> bm_iter" where
  "bi_reset bm it = bi_enter bm (it\<lparr>bi_currSeg := 0\<rparr>)"

definition bi_iterator :: "bitmap \<Rightarrow> bm_iter" where
  "bi_iterator bm = bi_reset bm \<lparr>bi_currSeg = 0, bi_cs = None, bi_currLPos = -1\<rparr>"

definition getLPos :: "bm_iter \<Rightarrow> int" where
  "getLPos it = bi_currLPos it"

definition getPPos :: "bm_iter \<Rightarrow> int" where
  "getPPos it = pPosition (the (bi_cs it)) + bi_currLPos it - lPosition (the (bi_cs it))"

definition setPosition :: "bitmap \<Rightarrow> int \<Rightarrow> bm_iter \<Rightarrow> bool \<times> bm_iter" where
  "setPosition bm lPos it =
     (let it1 = it\<lparr>bi_currSeg := findSegment lPos bm\<rparr> in
      if bi_end bm it1 \<or> lPosition (bm_segs bm ! bi_currSeg it1) > lPos
      then (False, it1\<lparr>bi_currSeg := nSegments bm\<rparr>)
      else (True, it1\<lparr>bi_cs := Some (bm_segs bm ! bi_currSeg it1), bi_currLPos := lPos\<rparr>))"

definition bi_next :: "bitmap \<Rightarrow> bm_iter \<Rightarrow> bm_iter" where
  "bi_next bm it =
     (if bi_currLPos it + 1 < lPosition (the (bi_cs it)) + seg_length (the (bi_cs it))
      then it\<lparr>bi_currLPos := bi_currLPos it + 1\<rparr>
      else bi_enter bm (it\<lparr>bi_currSeg := bi_currSeg it + 1\<rparr>))"

definition bi_skip :: "bitmap \<Rightarrow> nat \<Rightarrow> bm_iter \<Rightarrow> bool \<times> bm_iter" where
  "bi_skip bm n it =
     (let it1 = it\<lparr>bi_currLPos := bi_currLPos it + int n\<rparr> in
      if lPosition (the (bi_cs it1)) + seg_length (the (bi_cs it1)) \<le> bi_currLPos it1 then
        (let ppos = getPPos it1;
             r = bsearch (\<lambda>m. pPosition (bm_segs bm ! m) + seg_length (bm_segs bm ! m) \<le> ppos) 0 (nSegments bm) in
         if r = nSegments bm then (False, it1)
         else (True, it1\<lparr>bi_currSeg := r, bi_cs := Some (bm_segs bm ! r),
                         bi_currLPos := lPosition (bm_segs bm ! r) + ppos - pPosition (bm_segs bm ! r)\<rparr>))
      else (True, it1))"

section \<open>The iterator over the segments\<close>

record bm_segiter =
  si_currSeg :: nat
  si_offset :: int

definition si_reset :: bm_segiter where
  "si_reset = \<lparr>si_currSeg = 0, si_offset = 0\<rparr>"

definition si_end :: "bitmap \<Rightarrow> bm_segiter \<Rightarrow> bool" where
  "si_end bm it \<longleftrightarrow> nSegments bm \<le> si_currSeg it"

definition getVirtualSegment :: "bitmap \<Rightarrow> bm_segiter \<Rightarrow> bm_segment" where
  "getVirtualSegment bm it =
     (let s = bm_segs bm ! si_currSeg it in
      \<lparr>lPosition = lPosition s + si_offset it, seg_length = seg_length s - si_offset it,
       pPosition = pPosition s + si_offset it\<rparr>)"

definition advanceWithinSegment :: "int \<Rightarrow> bm_segiter \<Rightarrow> bm_segiter" where
  "advanceWithinSegment stepSize it = it\<lparr>si_offset := si_offset it + stepSize\<rparr>"

definition si_next :: "bm_segiter \<Rightarrow> bm_segiter" where
  "si_next it = it\<lparr>si_currSeg := si_currSeg it + 1, si_offset := 0\<rparr>"

end
