(* ===== verification/Rle_Bitmap_Cells.thy ===== *)
theory Rle_Bitmap_Cells
  imports Rle_Bitmap
begin

text \<open>
  What a bitmap means: the list of its non-empty cells, each a position and the index of its
  value. The lemmas relate the search, the iterators, the constructors and the packed form
  of a bitmap to that list.
\<close>

section \<open>The search\<close>

lemma bsearch_result:
  assumes "\<forall>i j. i \<le> j \<and> j < n \<and> before j \<longrightarrow> before i"
    and "\<forall>i < l. before i" "\<forall>i. r \<le> i \<and> i < n \<longrightarrow> \<not> before i" "l \<le> r" "r \<le> n"
  shows "bsearch before l r \<le> n \<and> (\<forall>i < bsearch before l r. before i) \<and>
    (\<forall>i. bsearch before l r \<le> i \<and> i < n \<longrightarrow> \<not> before i)"
  using assms
proof (induction before l r rule: bsearch.induct)
  case (1 before l r)
  show ?case
  proof (cases "l < r")
    case True
    define m where "m = (l + r) div 2"
    have m: "l \<le> m" "m < r" using True by (auto simp: m_def)
    show ?thesis
    proof (cases "before m")
      case b: True
      have pre: "\<forall>i < m + 1. before i" using 1(3) b m(2) 1(7) by (metis Suc_eq_plus1 less_Suc_eq_le order_less_le_trans)
      have eq: "bsearch before l r = bsearch before (m + 1) r"
        by (subst bsearch.simps) (simp only: True b m_def [symmetric] Let_def if_True)
      show ?thesis unfolding eq by (rule 1(1) [OF True m_def b 1(3) pre 1(5) _ 1(7)]) (use m in linarith)
    next
      case b: False
      have post: "\<forall>i. m \<le> i \<and> i < n \<longrightarrow> \<not> before i" using 1(3) b by blast
      have eq: "bsearch before l r = bsearch before l m"
        by (subst bsearch.simps) (simp only: True b m_def [symmetric] Let_def if_True if_False)
      show ?thesis unfolding eq by (rule 1(2) [OF True m_def b 1(3,4) post]) (use m 1(7) in linarith)+
    qed
  next
    case False
    then have "bsearch before l r = r" by (subst bsearch.simps) simp
    moreover have "l = r" using False 1(6) by simp
    ultimately show ?thesis using 1(4,5,7) by simp
  qed
qed

lemma bsearch_least:
  assumes "\<forall>i j. i \<le> j \<and> j < n \<and> before j \<longrightarrow> before i" "bsearch before 0 n = k"
  shows "k \<le> n" "i < k \<Longrightarrow> before i" "k < n \<Longrightarrow> \<not> before k"
proof -
  have r: "k \<le> n \<and> (\<forall>i < k. before i) \<and> (\<forall>i. k \<le> i \<and> i < n \<longrightarrow> \<not> before i)"
    unfolding assms(2) [symmetric] by (rule bsearch_result [OF assms(1)]) auto
  show "k \<le> n" "i < k \<Longrightarrow> before i" using r by blast+
  show "k < n \<Longrightarrow> \<not> before k" using r by blast
qed

section \<open>Well-formed bitmaps\<close>

text \<open>
  Segments in order, none empty, from a logical and a physical position on; and, for a
  dense bitmap, without gaps between the physical positions.
\<close>

fun segs_ok :: "int \<Rightarrow> int \<Rightarrow> bm_segment list \<Rightarrow> bool" where
  "segs_ok l p [] \<longleftrightarrow> True"
| "segs_ok l p (s # ss) \<longleftrightarrow>
     l \<le> lPosition s \<and> p \<le> pPosition s \<and> 0 < seg_length s \<and>
     segs_ok (lPosition s + seg_length s) (pPosition s + seg_length s) ss"

fun segs_dense :: "int \<Rightarrow> bm_segment list \<Rightarrow> bool" where
  "segs_dense p [] \<longleftrightarrow> True"
| "segs_dense p (s # ss) \<longleftrightarrow> pPosition s = p \<and> segs_dense (p + seg_length s) ss"

definition seg_cells :: "bm_segment \<Rightarrow> (int \<times> int) list" where
  "seg_cells s = map (\<lambda>k. (lPosition s + int k, pPosition s + int k)) [0..<nat (seg_length s)]"

text \<open>What a bitmap stands for: the set cells in order, each with the index of its value.\<close>

definition cells :: "bitmap \<Rightarrow> (int \<times> int) list" where
  "cells bm = concat (map seg_cells (bm_segs bm))"

definition bitmap_ok :: "bitmap \<Rightarrow> bool" where
  "bitmap_ok bm \<longleftrightarrow> segs_ok 0 0 (bm_segs bm) \<and> nNonEmptyElements bm = int (length (cells bm))"

lemma mem_seg_cells:
  "(l, p) \<in> set (seg_cells s) \<longleftrightarrow> lPosition s \<le> l \<and> l < lPosition s + seg_length s \<and> p = pPosition s + l - lPosition s"
proof -
  have "(l, p) \<in> set (seg_cells s)" if "lPosition s \<le> l" "l < lPosition s + seg_length s" "p = pPosition s + l - lPosition s"
    using that by (auto simp: seg_cells_def image_iff intro!: bexI [of _ "nat (l - lPosition s)"])
  then show ?thesis by (auto simp: seg_cells_def)
qed

lemma length_seg_cells [simp]: "length (seg_cells s) = nat (seg_length s)"
  by (simp add: seg_cells_def)

lemma segs_ok_mono: "segs_ok l p ss \<Longrightarrow> l' \<le> l \<Longrightarrow> p' \<le> p \<Longrightarrow> segs_ok l' p' ss"
  by (cases ss) auto

lemma segs_ok_nth:
  assumes "segs_ok l p ss" "i < length ss"
  shows "l \<le> lPosition (ss ! i)" "p \<le> pPosition (ss ! i)" "0 < seg_length (ss ! i)"
  using assms
proof (induction ss arbitrary: l p i)
  case (Cons s ss)
  { case 1 then show ?case using Cons(1) by (cases i) force+ }
  { case 2 then show ?case using Cons(2) by (cases i) force+ }
  { case 3 then show ?case using Cons(3) by (cases i) force+ }
qed simp_all

lemma segs_ok_less:
  assumes "segs_ok l p ss" "i < j" "j < length ss"
  shows "lPosition (ss ! i) + seg_length (ss ! i) \<le> lPosition (ss ! j) \<and>
    pPosition (ss ! i) + seg_length (ss ! i) \<le> pPosition (ss ! j)"
  using assms
proof (induction ss arbitrary: l p i j)
  case (Cons s ss)
  then obtain j' where j: "j = Suc j'" by (cases j) auto
  show ?case
    using Cons.prems Cons.IH [of "lPosition s + seg_length s" "pPosition s + seg_length s" "i - 1" j']
      segs_ok_nth(1,2) [of "lPosition s + seg_length s" "pPosition s + seg_length s" ss j']
    by (cases i) (auto simp: j)
qed simp

lemma segs_ok_ends:
  assumes "segs_ok l p ss" "i \<le> j" "j < length ss"
  shows "lPosition (ss ! i) + seg_length (ss ! i) \<le> lPosition (ss ! j) + seg_length (ss ! j)"
    "pPosition (ss ! i) + seg_length (ss ! i) \<le> pPosition (ss ! j) + seg_length (ss ! j)"
  using segs_ok_less [OF assms(1), of i j] segs_ok_nth(3) [OF assms(1), of j] assms(2,3)
  by (cases "i = j"; force)+

lemma mem_cells: "(l, p) \<in> set (cells bm) \<longleftrightarrow> (\<exists>i < nSegments bm. (l, p) \<in> set (seg_cells (bm_segs bm ! i)))"
  by (simp add: cells_def nSegments_def) (metis in_set_conv_nth)

section \<open>Looking up a cell\<close>

lemma findSegment_result:
  assumes "segs_ok l p (bm_segs bm)"
  obtains k where "findSegment pos bm = k" "k \<le> nSegments bm"
    "\<And>i. i < k \<Longrightarrow> lPosition (bm_segs bm ! i) + seg_length (bm_segs bm ! i) \<le> pos"
    "k < nSegments bm \<Longrightarrow> pos < lPosition (bm_segs bm ! k) + seg_length (bm_segs bm ! k)"
proof -
  let ?before = "\<lambda>m. lPosition (bm_segs bm ! m) + seg_length (bm_segs bm ! m) \<le> pos"
  have mono: "\<forall>i j. i \<le> j \<and> j < nSegments bm \<and> ?before j \<longrightarrow> ?before i"
    using segs_ok_ends(1) [OF assms] by (auto simp: nSegments_def intro: order_trans)
  have "bsearch ?before 0 (nSegments bm) = findSegment pos bm" by (simp add: findSegment_def)
  note b = bsearch_least [OF mono this]
  show thesis by (rule that [OF refl b(1)]) (fact b(2), use b(3) in linarith)
qed

lemma findSegment_cell:
  assumes ok: "segs_ok l p (bm_segs bm)" and k: "findSegment pos bm = k"
  shows "(pos, q) \<in> set (cells bm) \<longleftrightarrow> k < nSegments bm \<and> lPosition (bm_segs bm ! k) \<le> pos \<and>
     q = pPosition (bm_segs bm ! k) + pos - lPosition (bm_segs bm ! k)"
proof -
  obtain k' where f: "findSegment pos bm = k'" "k' \<le> nSegments bm"
    "\<And>i. i < k' \<Longrightarrow> lPosition (bm_segs bm ! i) + seg_length (bm_segs bm ! i) \<le> pos"
    "k' < nSegments bm \<Longrightarrow> pos < lPosition (bm_segs bm ! k') + seg_length (bm_segs bm ! k')"
    using findSegment_result [OF ok] by metis
  have [simp]: "k' = k" using k f(1) by simp
  have "i = k" if "i < nSegments bm" "(pos, q) \<in> set (seg_cells (bm_segs bm ! i))" for i
  proof (rule linorder_cases [of i k])
    assume "i < k"
    then show ?thesis using f(3) [of i] that(2) by (simp add: mem_seg_cells)
  next
    assume "k < i"
    then show ?thesis
      using f(4) segs_ok_less [OF ok, of k i] that by (simp add: mem_seg_cells nSegments_def)
  qed
  then have "(pos, q) \<in> set (cells bm) \<longleftrightarrow> k < nSegments bm \<and> (pos, q) \<in> set (seg_cells (bm_segs bm ! k))"
    by (auto simp: mem_cells)
  then show ?thesis using f(4) by (auto simp: mem_seg_cells)
qed

lemma isEmpty_iff:
  assumes "segs_ok l p (bm_segs bm)"
  shows "isEmpty pos bm \<longleftrightarrow> pos \<notin> fst ` set (cells bm)"
proof -
  obtain k where k: "findSegment pos bm = k" "k \<le> nSegments bm" using findSegment_result [OF assms] by metis
  have "pos \<in> fst ` set (cells bm) \<longleftrightarrow> k < nSegments bm \<and> lPosition (bm_segs bm ! k) \<le> pos"
    using findSegment_cell [OF assms k(1)] by (force simp: image_iff)
  then show ?thesis using k by (auto simp: isEmpty_def Let_def)
qed

lemma getValueIndex_cell:
  assumes "segs_ok l p (bm_segs bm)"
  shows "(pos, q) \<in> set (cells bm) \<Longrightarrow> getValueIndex pos bm = q"
    "pos \<notin> fst ` set (cells bm) \<Longrightarrow> getValueIndex pos bm = no_index"
  using findSegment_cell [OF assms refl, of pos] by (force simp: getValueIndex_def Let_def)+

section \<open>Iterating\<close>

text \<open>What an iterator still has to visit.\<close>

definition bi_ok :: "bitmap \<Rightarrow> bm_iter \<Rightarrow> bool" where
  "bi_ok bm it \<longleftrightarrow>
     (bi_end bm it \<or>
      (\<exists>s. bi_cs it = Some s \<and> s = bm_segs bm ! bi_currSeg it \<and>
           lPosition s \<le> bi_currLPos it \<and> bi_currLPos it < lPosition s + seg_length s))"

definition bi_rest :: "bitmap \<Rightarrow> bm_iter \<Rightarrow> (int \<times> int) list" where
  "bi_rest bm it =
     (if bi_end bm it then []
      else drop (nat (bi_currLPos it - lPosition (the (bi_cs it)))) (seg_cells (the (bi_cs it))) @
           concat (map seg_cells (drop (bi_currSeg it + 1) (bm_segs bm))))"

lemma drop_seg_cells:
  assumes "lPosition s \<le> l" "l < lPosition s + seg_length s"
  shows "drop (nat (l - lPosition s)) (seg_cells s) =
    (l, pPosition s + l - lPosition s) # drop (nat (l + 1 - lPosition s)) (seg_cells s)"
proof -
  define k where "k = nat (l - lPosition s)"
  have k: "k < length (seg_cells s)" "nat (l + 1 - lPosition s) = Suc k" "int k = l - lPosition s"
    using assms by (auto simp: k_def)
  then have "seg_cells s ! k = (l, pPosition s + l - lPosition s)" by (simp add: seg_cells_def)
  then show ?thesis using Cons_nth_drop_Suc [OF k(1)] k by (simp add: k_def)
qed

lemma bi_enter_ok:
  assumes "segs_ok l p (bm_segs bm)"
  shows "bi_ok bm (bi_enter bm it)" "bi_rest bm (bi_enter bm it) = concat (map seg_cells (drop (bi_currSeg it) (bm_segs bm)))"
proof -
  have "bi_ok bm (bi_enter bm it) \<and>
      bi_rest bm (bi_enter bm it) = concat (map seg_cells (drop (bi_currSeg it) (bm_segs bm)))"
  proof (cases "bi_end bm it")
    case True
    then show ?thesis by (simp add: bi_enter_def bi_ok_def bi_rest_def) (simp add: bi_end_def nSegments_def)
  next
    case False
    then have n: "bi_currSeg it < length (bm_segs bm)" by (simp add: bi_end_def nSegments_def)
    then show ?thesis
      using segs_ok_nth(3) [OF assms n] Cons_nth_drop_Suc [OF n, symmetric]
      by (simp add: bi_enter_def Let_def bi_ok_def bi_rest_def bi_end_def nSegments_def)
  qed
  then show "bi_ok bm (bi_enter bm it)"
    "bi_rest bm (bi_enter bm it) = concat (map seg_cells (drop (bi_currSeg it) (bm_segs bm)))" by blast+
qed

lemma bi_iterator_ok:
  assumes "segs_ok l p (bm_segs bm)"
  shows "bi_ok bm (bi_iterator bm)" "bi_rest bm (bi_iterator bm) = cells bm"
  using bi_enter_ok [OF assms] by (simp_all add: bi_iterator_def bi_reset_def cells_def)

lemma bi_next_ok:
  assumes "segs_ok l p (bm_segs bm)" "bi_ok bm it" "\<not> bi_end bm it"
  shows "bi_ok bm (bi_next bm it)" "bi_rest bm it = (getLPos it, getPPos it) # bi_rest bm (bi_next bm it)"
proof -
  obtain s where s: "bi_cs it = Some s" "s = bm_segs bm ! bi_currSeg it" "lPosition s \<le> bi_currLPos it"
    "bi_currLPos it < lPosition s + seg_length s"
    using assms(2,3) by (auto simp: bi_ok_def)
  have rest: "bi_rest bm it = (getLPos it, getPPos it) # drop (nat (bi_currLPos it + 1 - lPosition s)) (seg_cells s) @
      concat (map seg_cells (drop (bi_currSeg it + 1) (bm_segs bm)))"
    using drop_seg_cells [OF s(3,4)] assms(3) s(1) by (simp add: bi_rest_def getLPos_def getPPos_def)
  show "bi_ok bm (bi_next bm it)"
    using bi_enter_ok(1) [OF assms(1)] s assms(3) by (auto simp: bi_next_def bi_ok_def bi_end_def)
  show "bi_rest bm it = (getLPos it, getPPos it) # bi_rest bm (bi_next bm it)"
  proof (cases "bi_currLPos it + 1 < lPosition s + seg_length s")
    case True
    then show ?thesis
      using assms(3) s(1) unfolding rest by (simp add: bi_next_def bi_rest_def) (simp add: bi_end_def)
  next
    case False
    then have "nat (seg_length s) \<le> nat (bi_currLPos it + 1 - lPosition s)" using s(4) by simp
    then show ?thesis
      using False bi_enter_ok(2) [OF assms(1), of "it\<lparr>bi_currSeg := bi_currSeg it + 1\<rparr>"] s(1) unfolding rest
      by (simp add: bi_next_def)
  qed
qed

text \<open>The loop of a client: visit the cells until the end.\<close>

fun bi_collect :: "nat \<Rightarrow> bitmap \<Rightarrow> bm_iter \<Rightarrow> (int \<times> int) list option" where
  "bi_collect 0 bm it = None"
| "bi_collect (Suc fuel) bm it =
     (if bi_end bm it then Some []
      else map_option (Cons (getLPos it, getPPos it)) (bi_collect fuel bm (bi_next bm it)))"

lemma bi_collect_rest:
  assumes "segs_ok l p (bm_segs bm)" "bi_ok bm it" "length (bi_rest bm it) < fuel"
  shows "bi_collect fuel bm it = Some (bi_rest bm it)"
  using assms(2,3)
proof (induction fuel arbitrary: it)
  case (Suc fuel)
  show ?case
  proof (cases "bi_end bm it")
    case False
    note next_ok = bi_next_ok [OF assms(1) Suc.prems(1) False]
    then show ?thesis using Suc.IH [OF next_ok(1)] Suc.prems(2) False by simp
  qed (simp add: bi_rest_def)
qed simp

section \<open>Skipping\<close>

lemma length_cells_take:
  assumes "segs_ok l p ss" "segs_dense q ss" "k < length ss"
  shows "q + int (length (concat (map seg_cells (take k ss)))) = pPosition (ss ! k)"
  using assms
proof (induction ss arbitrary: l p q k)
  case (Cons s ss)
  show ?case
  proof (cases k)
    case (Suc k')
    then have "q + seg_length s + int (length (concat (map seg_cells (take k' ss)))) = pPosition (ss ! k')"
      using Cons.prems by (intro Cons.IH) auto
    then show ?thesis using Cons.prems Suc by simp
  qed (use Cons.prems in simp)
qed simp

lemma length_cells_dense:
  "segs_ok l p ss \<Longrightarrow> segs_dense q ss \<Longrightarrow> ss \<noteq> [] \<Longrightarrow>
   q + int (length (concat (map seg_cells ss))) = pPosition (last ss) + seg_length (last ss)"
proof (induction ss arbitrary: l p q)
  case (Cons s ss)
  then show ?case by (cases ss) force+
qed simp

lemma bi_rest_dense:
  assumes "segs_ok l p (bm_segs bm)" "segs_dense 0 (bm_segs bm)" "bi_ok bm it" "\<not> bi_end bm it"
  shows "0 \<le> getPPos it" "bi_rest bm it = drop (nat (getPPos it)) (cells bm)"
proof -
  obtain s where s: "bi_cs it = Some s" "s = bm_segs bm ! bi_currSeg it" "lPosition s \<le> bi_currLPos it"
    "bi_currLPos it < lPosition s + seg_length s"
    using assms(3,4) by (auto simp: bi_ok_def)
  define k where "k = bi_currSeg it"
  define hd_cells where "hd_cells = concat (map seg_cells (take k (bm_segs bm)))"
  have k: "k < length (bm_segs bm)" using assms(4) by (simp add: bi_end_def nSegments_def k_def)
  have hdl: "int (length hd_cells) = pPosition s"
    using length_cells_take [OF assms(1,2) k] s(2) by (simp add: hd_cells_def k_def)
  have "cells bm = hd_cells @ seg_cells s @ concat (map seg_cells (drop (k + 1) (bm_segs bm)))"
    using id_take_nth_drop [OF k] s(2)
    by (metis (no_types, lifting) Suc_eq_plus1 cells_def concat.simps(2) concat_append hd_cells_def k_def list.simps(9) map_append)
  moreover define i where "i = nat (bi_currLPos it - lPosition s)"
  have g: "getPPos it = int (length hd_cells) + int i" "i < length (seg_cells s)"
    using s hdl by (simp_all add: getPPos_def i_def)
  then have "nat (getPPos it) = length hd_cells + i" by simp
  ultimately have "drop (nat (getPPos it)) (cells bm) = drop i (seg_cells s) @ concat (map seg_cells (drop (k + 1) (bm_segs bm)))"
    using g(2) by simp
  then show "bi_rest bm it = drop (nat (getPPos it)) (cells bm)"
    using assms(4) s(1) by (simp add: bi_rest_def i_def k_def)
  show "0 \<le> getPPos it" using g(1) by simp
qed

lemma bi_skip_result:
  assumes ok: "segs_ok l p (bm_segs bm)" and dense: "segs_dense 0 (bm_segs bm)" and it: "bi_ok bm it" "\<not> bi_end bm it"
  shows "n < length (bi_rest bm it) \<Longrightarrow>
      \<exists>it'. bi_skip bm n it = (True, it') \<and> bi_ok bm it' \<and> \<not> bi_end bm it' \<and> bi_rest bm it' = drop n (bi_rest bm it)"
    "length (bi_rest bm it) \<le> n \<Longrightarrow>
      bi_skip bm n it = (False, it\<lparr>bi_currLPos := bi_currLPos it + int n\<rparr>)"
proof -
  obtain s where s: "bi_cs it = Some s" "s = bm_segs bm ! bi_currSeg it" "lPosition s \<le> bi_currLPos it"
    "bi_currLPos it < lPosition s + seg_length s"
    using it by (auto simp: bi_ok_def)
  note rest = bi_rest_dense [OF ok dense it]
  define it1 where "it1 = it\<lparr>bi_currLPos := bi_currLPos it + int n\<rparr>"
  define q where "q = getPPos it1"
  have q: "q = getPPos it + int n" "nat q = nat (getPPos it) + n" using rest(1) by (simp_all add: q_def getPPos_def it1_def)
  let ?ss = "bm_segs bm"
  let ?before = "\<lambda>m. pPosition (?ss ! m) + seg_length (?ss ! m) \<le> q"
  have mono: "\<forall>i j. i \<le> j \<and> j < nSegments bm \<and> ?before j \<longrightarrow> ?before i"
    using segs_ok_ends(2) [OF ok] by (auto simp: nSegments_def intro: order_trans)
  define r where "r = bsearch ?before 0 (nSegments bm)"
  note b = bsearch_least [OF mono r_def [symmetric]]
  have len: "length (bi_rest bm it) \<le> n \<longleftrightarrow> int (length (cells bm)) \<le> q"
    using rest q by (simp add: le_diff_conv) linarith
  have ne: "?ss \<noteq> []" using it(2) by (auto simp: bi_end_def nSegments_def)
  have total: "int (length (cells bm)) = pPosition (last ?ss) + seg_length (last ?ss)"
    using length_cells_dense [OF ok dense ne] by (simp add: cells_def)
  have all_before: "int (length (cells bm)) \<le> q \<longleftrightarrow> r = nSegments bm"
  proof
    assume "int (length (cells bm)) \<le> q"
    then have "?before (nSegments bm - 1)" using total ne by (simp add: last_conv_nth nSegments_def)
    then show "r = nSegments bm"
      using b mono ne by (metis One_nat_def Suc_pred diff_less le_eq_less_or_eq length_greater_0_conv less_Suc_eq_le nSegments_def zero_less_one)
  next
    assume "r = nSegments bm"
    then have "?before (nSegments bm - 1)" using b(2) [of "nSegments bm - 1"] ne by (simp add: nSegments_def)
    then show "int (length (cells bm)) \<le> q" using total ne by (simp add: last_conv_nth nSegments_def)
  qed
  show "\<exists>it'. bi_skip bm n it = (True, it') \<and> bi_ok bm it' \<and> \<not> bi_end bm it' \<and> bi_rest bm it' = drop n (bi_rest bm it)"
    if "n < length (bi_rest bm it)"
  proof (cases "lPosition s + seg_length s \<le> bi_currLPos it1")
    case True
    have r: "r < nSegments bm" using that len all_before b(1) by linarith
    define it2 where "it2 = it1\<lparr>bi_currSeg := r, bi_cs := Some (?ss ! r),
        bi_currLPos := lPosition (?ss ! r) + q - pPosition (?ss ! r)\<rparr>"
    have "pPosition (?ss ! r) \<le> q"
    proof (cases r)
      case 0
      then show ?thesis using dense ne rest(1) q(1) by (cases ?ss) auto
    next
      case (Suc r')
      have "pPosition (?ss ! r) = pPosition (?ss ! r') + seg_length (?ss ! r')"
        using length_cells_take [OF ok dense, of r] length_cells_take [OF ok dense, of r'] r segs_ok_nth(3) [OF ok, of r']
        by (simp add: Suc nSegments_def take_Suc_conv_app_nth)
      then show ?thesis using b(2) [of r'] Suc by simp
    qed
    then have ok2: "bi_ok bm it2" "\<not> bi_end bm it2" "getPPos it2 = q"
      using b(3) r by (simp_all add: it2_def bi_ok_def bi_end_def getPPos_def not_le)
    have "bi_skip bm n it = (True, it2)"
      using True r s(1) by (simp add: bi_skip_def it1_def [symmetric] Let_def q_def [symmetric] r_def [symmetric] it2_def)
        (simp add: it1_def)
    then show ?thesis using ok2 bi_rest_dense(2) [OF ok dense ok2(1,2)] rest(2) q by (simp add: add.commute)
  next
    case False
    have ok1: "bi_ok bm it1" "\<not> bi_end bm it1" using s False it(2) by (auto simp: bi_ok_def bi_end_def it1_def)
    have "bi_skip bm n it = (True, it1)" using False s(1) by (simp add: bi_skip_def it1_def [symmetric] Let_def) (simp add: it1_def)
    then show ?thesis using ok1 bi_rest_dense(2) [OF ok dense ok1] rest(2) q by (simp add: q_def add.commute)
  qed
  show "bi_skip bm n it = (False, it\<lparr>bi_currLPos := bi_currLPos it + int n\<rparr>)" if "length (bi_rest bm it) \<le> n"
  proof -
    have "r = nSegments bm" using that len all_before by simp
    moreover have "lPosition s + seg_length s \<le> bi_currLPos it1"
    proof (rule ccontr)
      assume "\<not> ?thesis"
      then have "bi_ok bm it1" "\<not> bi_end bm it1" using s it(2) by (auto simp: bi_ok_def bi_end_def it1_def)
      then show False using bi_next_ok(2) [OF ok, of it1] bi_rest_dense(2) [OF ok dense, of it1] rest(2) that q by (auto simp: q_def)
    qed
    ultimately show ?thesis
      using s(1) by (simp add: bi_skip_def it1_def [symmetric] Let_def q_def [symmetric] r_def [symmetric]) (simp add: it1_def)
  qed
qed

section \<open>The constructors\<close>

definition seg_end :: "int \<Rightarrow> bm_segment list \<Rightarrow> int" where
  "seg_end l ss = (if ss = [] then l else lPosition (last ss) + seg_length (last ss))"

definition all_cells :: "bm_segment list \<Rightarrow> (int \<times> int) list" where
  "all_cells ss = concat (map seg_cells ss)"

lemma all_cells_simps [simp]:
  "all_cells [] = []" "all_cells (s # ss) = seg_cells s @ all_cells ss" "all_cells (ss @ ts) = all_cells ss @ all_cells ts"
  by (simp_all add: all_cells_def)

lemma cells_all [simp]: "cells \<lparr>bm_segs = ss, nNonEmptyElements = n\<rparr> = all_cells ss"
  by (simp add: cells_def all_cells_def)

lemma segs_snoc:
  assumes "segs_ok l p ss" "segs_dense p ss" "seg_end l ss \<le> lPosition s" "0 < seg_length s"
    "pPosition s = p + int (length (all_cells ss))"
  shows "segs_ok l p (ss @ [s]) \<and> segs_dense p (ss @ [s])"
  using assms
proof (induction ss arbitrary: l p)
  case (Cons t ss)
  have "seg_end (lPosition t + seg_length t) ss \<le> lPosition s" using Cons.prems(3) by (auto simp: seg_end_def split: if_splits)
  moreover have "pPosition s = p + seg_length t + int (length (all_cells ss))" using Cons.prems by simp
  ultimately show ?case
    using Cons.IH [of "lPosition t + seg_length t" "p + seg_length t"] Cons.prems by simp
qed (simp add: seg_end_def)

lemma seg_cells_more:
  assumes "0 \<le> seg_length s"
  shows "seg_cells (s\<lparr>seg_length := seg_length s + 1\<rparr>) =
    seg_cells s @ [(lPosition s + seg_length s, pPosition s + seg_length s)]"
  using assms by (simp add: seg_cells_def nat_add_distrib)

text \<open>The segments completed so far and the current one.\<close>

definition loop_inv :: "bm_segment list \<Rightarrow> bm_segment \<Rightarrow> bool" where
  "loop_inv segs segm \<longleftrightarrow>
     segs_ok 0 0 segs \<and> segs_dense 0 segs \<and> pPosition segm = int (length (all_cells segs)) \<and>
     0 \<le> seg_length segm \<and> seg_end 0 segs \<le> lPosition segm"

lemma loop_inv_hole:
  assumes "loop_inv segs segm" "seg_length segm \<noteq> 0" "lPosition segm + seg_length segm \<le> pos"
  shows "loop_inv (segs @ [segm]) (segm\<lparr>pPosition := pPosition segm + seg_length segm, seg_length := 0, lPosition := pos\<rparr>)"
  using segs_snoc [of 0 0 segs segm] assms by (auto simp: loop_inv_def seg_end_def)

definition indexed :: "nat \<Rightarrow> int list \<Rightarrow> (int \<times> int) list" where
  "indexed n ps = map (\<lambda>i. (ps ! i, int n + int i)) [0..<length ps]"

lemma indexed_simps [simp]: "indexed n [] = []" "indexed n (p # ps) = (p, int n) # indexed (Suc n) ps"
  by (simp_all add: indexed_def map_upt_Suc del: upt_Suc)

lemma indexed_append: "indexed n (ps @ qs) = indexed n ps @ indexed (n + length ps) qs"
  by (induction ps arbitrary: n) simp_all

lemma length_indexed [simp]: "length (indexed n ps) = length ps"
  by (simp add: indexed_def)

lemma position_loop_result:
  assumes "loop_inv segs segm" "sorted_wrt (<) (map fst (filter snd ps))"
    "\<forall>(pos, keep) \<in> set ps. keep \<longrightarrow> lPosition segm + seg_length segm \<le> pos"
    "position_loop ps segs segm = (segs', segm')"
  shows "loop_inv segs' segm' \<and> all_cells segs' @ seg_cells segm' =
    all_cells segs @ seg_cells segm @ indexed (length (all_cells segs @ seg_cells segm)) (map fst (filter snd ps))"
  using assms
proof (induction ps arbitrary: segs segm)
  case (Cons e ps)
  obtain pos keep where e: "e = (pos, keep)" by fastforce
  show ?case
  proof (cases keep)
    case False
    then show ?thesis using Cons e by simp
  next
    case True
    have pos: "lPosition segm + seg_length segm \<le> pos" using Cons.prems(3) True e by auto
    obtain segs1 segm1 where s1: "loop_inv segs1 segm1" "lPosition segm1 + seg_length segm1 = pos"
      "all_cells segs1 @ seg_cells segm1 = all_cells segs @ seg_cells segm"
      "position_loop ((pos, keep) # ps) segs segm =
        position_loop ps segs1 (segm1\<lparr>seg_length := seg_length segm1 + 1\<rparr>)"
    proof (cases "pos = lPosition segm + seg_length segm")
      case eq: True
      then show thesis using that [of segs segm] Cons.prems(1) True by simp
    next
      case ne: False
      show thesis
      proof (cases "seg_length segm = 0")
        case z: True
        have "loop_inv segs (segm\<lparr>lPosition := pos\<rparr>)" using Cons.prems(1) pos z by (simp add: loop_inv_def)
        then show thesis
          using that [of segs "segm\<lparr>lPosition := pos\<rparr>"] True ne z by (simp add: seg_cells_def)
      next
        case nz: False
        show thesis
          using that [OF loop_inv_hole [OF Cons.prems(1) nz pos]] True ne nz by (simp add: seg_cells_def)
      qed
    qed
    define segm2 where "segm2 = segm1\<lparr>seg_length := seg_length segm1 + 1\<rparr>"
    have inv2: "loop_inv segs1 segm2" using s1(1) by (simp add: loop_inv_def segm2_def)
    have nn: "0 \<le> seg_length segm1" "pPosition segm1 + seg_length segm1 = int (length (all_cells segs1 @ seg_cells segm1))"
      using s1(1) by (simp_all add: loop_inv_def)
    then have c2: "all_cells segs1 @ seg_cells segm2 = all_cells segs @ seg_cells segm @
        [(pos, int (length (all_cells segs @ seg_cells segm)))]"
      using seg_cells_more [of segm1] s1(2,3) unfolding segm2_def append_assoc [symmetric] by simp
    have "lPosition segm2 + seg_length segm2 = pos + 1" using s1(2) by (simp add: segm2_def)
    then have "\<forall>(q, keep) \<in> set ps. keep \<longrightarrow> lPosition segm2 + seg_length segm2 \<le> q"
      using Cons.prems(2) True e by auto
    moreover have "sorted_wrt (<) (map fst (filter snd ps))" using Cons.prems(2) True e by simp
    moreover have "position_loop ps segs1 segm2 = (segs', segm')" using Cons.prems(4) s1(4) e by (simp add: segm2_def)
    ultimately have "loop_inv segs' segm' \<and> all_cells segs' @ seg_cells segm' =
        all_cells segs1 @ seg_cells segm2 @ indexed (length (all_cells segs1 @ seg_cells segm2)) (map fst (filter snd ps))"
      by (intro Cons.IH [OF inv2])
    then show ?thesis using c2 True e unfolding append_assoc [symmetric] c2 by simp
  qed
qed simp

lemma finish_positions_ok:
  assumes "loop_inv segs segm" "bm = finish_positions (segs, segm)"
  shows "cells bm = all_cells segs @ seg_cells segm" "bitmap_ok bm" "segs_dense 0 (bm_segs bm)"
proof -
  show c: "cells bm = all_cells segs @ seg_cells segm"
    by (simp add: assms(2) finish_positions_def) (simp add: seg_cells_def)
  have n: "nNonEmptyElements bm = int (length (cells bm))"
    unfolding c using assms by (simp add: finish_positions_def loop_inv_def)
  show "bitmap_ok bm" "segs_dense 0 (bm_segs bm)"
    using n segs_snoc [of 0 0 segs segm] assms by (auto simp: bitmap_ok_def finish_positions_def loop_inv_def)
qed

lemma bitmap_of_positions:
  assumes "sorted_wrt (<) (map fst (filter snd ps))" "\<forall>(pos, keep) \<in> set ps. keep \<longrightarrow> 0 \<le> pos"
    and "bm = finish_positions (position_loop ps [] \<lparr>lPosition = 0, seg_length = 0, pPosition = 0\<rparr>)"
  shows "cells bm = indexed 0 (map fst (filter snd ps))" "bitmap_ok bm" "segs_dense 0 (bm_segs bm)"
proof -
  define segm where "segm = \<lparr>lPosition = 0, seg_length = 0, pPosition = (0::int)\<rparr>"
  obtain segs' segm' where r: "position_loop ps [] segm = (segs', segm')" by fastforce
  have "loop_inv [] segm" by (simp add: loop_inv_def segm_def seg_end_def)
  then have l: "loop_inv segs' segm'" "all_cells segs' @ seg_cells segm' = indexed 0 (map fst (filter snd ps))"
    using position_loop_result [OF _ assms(1) _ r] assms(2) by (simp_all add: segm_def seg_cells_def)
  note f = finish_positions_ok [OF l(1), of bm]
  show "cells bm = indexed 0 (map fst (filter snd ps))" "bitmap_ok bm" "segs_dense 0 (bm_segs bm)"
    using f l(2) assms(3) r by (simp_all add: segm_def)
qed

lemma run_end_result:
  assumes "i < numBits"
  shows "run_end data numBits i \<le> numBits" "\<forall>k. i < k \<and> k < run_end data numBits i \<longrightarrow> bit_at data k"
    "run_end data numBits i < numBits \<Longrightarrow> \<not> bit_at data (run_end data numBits i)"
proof -
  have "run_end data numBits i \<le> numBits \<and> (\<forall>k. i < k \<and> k < run_end data numBits i \<longrightarrow> bit_at data k) \<and>
      (run_end data numBits i < numBits \<longrightarrow> \<not> bit_at data (run_end data numBits i))"
    using assms
  proof (induction data numBits i rule: run_end.induct)
    case (1 data numBits i)
    show ?case
    proof (cases "i + 1 < numBits \<and> bit_at data (i + 1)")
      case True
      then have e: "run_end data numBits i = run_end data numBits (i + 1)"
        by (subst run_end.simps) (simp only: if_True simp_thms)
      have "\<forall>k. i < k \<and> k < run_end data numBits (i + 1) \<longrightarrow> bit_at data k"
        using 1(1) [OF True] True by (metis Suc_eq_plus1 linorder_neqE_nat not_less_eq)
      then show ?thesis using 1(1) [OF True] True unfolding e by simp
    next
      case False
      then have "run_end data numBits i = i + 1" by (subst run_end.simps) (simp only: if_False)
      then show ?thesis using 1(2) False by auto
    qed
  qed
  then show "run_end data numBits i \<le> numBits" "\<forall>k. i < k \<and> k < run_end data numBits i \<longrightarrow> bit_at data k"
    "run_end data numBits i < numBits \<Longrightarrow> \<not> bit_at data (run_end data numBits i)" by blast+
qed

lemma filter_run:
  assumes "i < numBits" "bit_at data i"
  defines "j \<equiv> run_end data numBits i"
  shows "filter (bit_at data) [i..<numBits] = [i..<j] @ filter (bit_at data) [j + 1..<numBits]"
proof -
  note r = run_end_result [OF assms(1), of data, folded j_def]
  have j: "i < j" "j \<le> numBits" using run_end_greater r(1) by (simp_all add: j_def)
  have "filter (bit_at data) [i..<j] = [i..<j]"
    using r(2) assms(2) by (intro filter_True) (metis atLeastLessThan_iff le_neq_implies_less set_upt)
  moreover have "filter (bit_at data) [j..<numBits] = filter (bit_at data) [j + 1..<numBits]"
    using r(3) j(2) by (cases "j < numBits") (auto simp: upt_conv_Cons)
  moreover have "[i..<numBits] = [i..<j] @ [j..<numBits]" using j by (metis less_imp_le upt_add_eq_append le_add_diff_inverse)
  ultimately show ?thesis by simp
qed

lemma seg_cells_upt:
  assumes "i \<le> j"
  shows "seg_cells \<lparr>lPosition = int i, seg_length = int j - int i, pPosition = int n\<rparr> = indexed n (map int [i..<j])"
proof -
  have "nat (int j - int i) = j - i" using assms by linarith
  then show ?thesis by (intro nth_equalityI) (simp_all add: seg_cells_def indexed_def)
qed

lemma bits_loop_result:
  assumes "segs_ok 0 0 segs" "segs_dense 0 segs" "seg_end 0 segs \<le> int i" "pPos = int (length (all_cells segs))"
    and "bits_loop data numBits i segs pPos = (segs', pPos')"
  shows "segs_ok 0 0 segs' \<and> segs_dense 0 segs' \<and> pPos' = int (length (all_cells segs')) \<and>
    all_cells segs' = all_cells segs @ indexed (length (all_cells segs)) (map int (filter (bit_at data) [i..<numBits]))"
  using assms
proof (induction data numBits i segs pPos rule: bits_loop.induct)
  case (1 data numBits i segs pPos)
  show ?case
  proof (cases "i < numBits")
    case False
    then have "(segs', pPos') = (segs, pPos)" using 1(7) by (subst (asm) bits_loop.simps) simp
    then show ?thesis using 1(3-6) False by simp
  next
    case True
    show ?thesis
    proof (cases "bit_at data i")
      case b: False
      have "seg_end 0 segs \<le> int (i + 1)" using 1(5) by simp
      then show ?thesis
        using 1(2) [OF True b 1(3,4) _ 1(6)] 1(7) True b
        by (subst (asm) (2) bits_loop.simps) (simp add: upt_conv_Cons)
    next
      case b: True
      define j where "j = run_end data numBits i"
      define s where "s = \<lparr>lPosition = int i, seg_length = int j - int i, pPosition = pPos\<rparr>"
      have j: "i < j" using run_end_greater by (simp add: j_def)
      have ok: "segs_ok 0 0 (segs @ [s])" "segs_dense 0 (segs @ [s])"
        using segs_snoc [OF 1(3,4), of s] 1(5,6) j by (simp_all add: s_def)
      have c: "seg_cells s = indexed (length (all_cells segs)) (map int [i..<j])"
        using seg_cells_upt [of i j "length (all_cells segs)"] j 1(6) by (simp add: s_def)
      have "bits_loop data numBits (j + 1) (segs @ [s]) (pPos + (int j - int i)) = (segs', pPos')"
        using 1(7) True b by (subst (asm) bits_loop.simps) (simp add: j_def s_def Let_def)
      then have "segs_ok 0 0 segs' \<and> segs_dense 0 segs' \<and> pPos' = int (length (all_cells segs')) \<and>
          all_cells segs' = all_cells (segs @ [s]) @
            indexed (length (all_cells (segs @ [s]))) (map int (filter (bit_at data) [j + 1..<numBits]))"
        using ok 1(6) c j by (intro 1(1) [OF True b j_def refl, folded s_def]) (simp_all add: s_def seg_end_def)
      then show ?thesis
        using c j filter_run [OF True b] by (simp add: j_def [symmetric] indexed_append)
    qed
  qed
qed

section \<open>Packing\<close>

lemma drop_blocks:
  assumes "\<And>x. length (f x) = k"
  shows "drop (k * i) (concat (map f xs)) = concat (map f (drop i xs))"
  using assms
proof (induction xs arbitrary: i)
  case (Cons x xs)
  then show ?case by (cases i) simp_all
qed simp

definition fits64 :: "bitmap \<Rightarrow> bool" where
  "fits64 bm \<longleftrightarrow>
     (\<forall>s \<in> set (bm_segs bm). \<forall>x \<in> {lPosition s, seg_length s, pPosition s}. - (2 ^ 63) \<le> x \<and> x < 2 ^ 63) \<and>
     - (2 ^ 63) \<le> nNonEmptyElements bm \<and> nNonEmptyElements bm < 2 ^ 63 \<and> nSegments bm < 2 ^ 64"

lemma unpack_pack:
  assumes "fits64 bm"
  shows "ConstRLEEmptyBitmap (Some (pack bm @ zs)) = bm" "length (pack bm) = packedSize bm"
proof -
  have l24: "length (pack_segment s) = 24" for s by (simp add: pack_segment_def)
  define body where "body = concat (map pack_segment (bm_segs bm))"
  have lbody: "length body = 24 * nSegments bm"
    by (simp add: body_def length_concat l24 comp_def sum_list_triv nSegments_def)
  have p: "pack bm = le64 RLE_EMPTY_BITMAP_MAGIC @ le64 (nSegments bm) @ le64s (nNonEmptyElements bm) @ body"
    by (simp add: pack_def body_def)
  have "segment_at (pack bm @ zs) i = bm_segs bm ! i" if "i < nSegments bm" for i
  proof -
    define s where "s = bm_segs bm ! i"
    have s: "s \<in> set (bm_segs bm)" using that by (simp add: s_def nSegments_def)
    have "drop (24 * i) body = pack_segment s @ concat (map pack_segment (drop (i + 1) (bm_segs bm)))"
      using that drop_blocks [of pack_segment 24 i "bm_segs bm"] l24 Cons_nth_drop_Suc [of i "bm_segs bm"]
      by (simp add: body_def s_def nSegments_def) (metis concat.simps(2) list.simps(9))
    moreover have "24 * i \<le> length body"
      using that lbody by (simp add: nSegments_def)
    ultimately have d: "drop (24 + 24 * i) (pack bm @ zs) =
        pack_segment s @ concat (map pack_segment (drop (i + 1) (bm_segs bm))) @ zs"
      unfolding p by simp
    have d2: "drop (32 + 24 * i) (pack bm @ zs) = drop 8 (drop (24 + 24 * i) (pack bm @ zs))"
      "drop (40 + 24 * i) (pack bm @ zs) = drop 16 (drop (24 + 24 * i) (pack bm @ zs))"
      unfolding drop_drop by (rule arg_cong2 [where f = drop]; simp)+
    show ?thesis
      using assms s val64s_le64s unfolding segment_at_def d2 d s_def [symmetric] pack_segment_def fits64_def by simp
  qed
  then have "map (segment_at (pack bm @ zs)) [0..<nSegments bm] = bm_segs bm"
    by (intro nth_equalityI) (simp_all add: nSegments_def)
  moreover have "take 8 (drop 8 (pack bm @ zs)) = le64 (nSegments bm)" "take 8 (drop 16 (pack bm @ zs)) = le64s (nNonEmptyElements bm)"
    unfolding p by simp_all
  ultimately show "ConstRLEEmptyBitmap (Some (pack bm @ zs)) = bm"
    using assms val64s_le64s by (simp add: ConstRLEEmptyBitmap_def fits64_def)
  show "length (pack bm) = packedSize bm"
    unfolding p by (simp add: lbody packedSize_def)
qed

section \<open>Properties\<close>

text \<open>A bitmap of five cells in two segments.\<close>

definition ex_bitmap :: bitmap where
  "ex_bitmap = \<lparr>bm_segs = [\<lparr>lPosition = 2, seg_length = 3, pPosition = 0\<rparr>, \<lparr>lPosition = 7, seg_length = 2, pPosition = 3\<rparr>],
                nNonEmptyElements = 5\<rparr>"

lemma ex_bitmap_ok: "bitmap_ok ex_bitmap" "segs_ok 0 0 (bm_segs ex_bitmap)" "segs_dense 0 (bm_segs ex_bitmap)"
  "cells ex_bitmap = [(2, 0), (3, 1), (4, 2), (7, 3), (8, 4)]"
proof -
  have u: "[0..<3] = [0, 1, 2::nat]" "[0..<2] = [0, 1::nat]" by (simp_all add: upt_rec)
  show "cells ex_bitmap = [(2, 0), (3, 1), (4, 2), (7, 3), (8, 4)]"
    by (simp add: ex_bitmap_def cells_def seg_cells_def u)
  then show "bitmap_ok ex_bitmap" "segs_ok 0 0 (bm_segs ex_bitmap)" "segs_dense 0 (bm_segs ex_bitmap)"
    by (simp_all add: bitmap_ok_def ex_bitmap_def)
qed

text \<open>C25. In a well-formed bitmap the binary search finds exactly the set cells and the indexes of their
  values.\<close>

theorem bitmap_lookup:
  assumes "bitmap_ok bm"
  shows "isEmpty pos bm = (map_of (cells bm) pos = None) \<and>
    getValueIndex pos bm = (case map_of (cells bm) pos of None \<Rightarrow> no_index | Some q \<Rightarrow> q)"
proof -
  have ok: "segs_ok 0 0 (bm_segs bm)" using assms by (simp add: bitmap_ok_def)
  show ?thesis
  proof (cases "map_of (cells bm) pos")
    case None
    then have "pos \<notin> fst ` set (cells bm)" by (simp add: map_of_eq_None_iff)
    then show ?thesis using isEmpty_iff [OF ok, of pos] getValueIndex_cell(2) [OF ok, of pos] None by simp
  next
    case (Some q)
    then show ?thesis
      using isEmpty_iff [OF ok, of pos] getValueIndex_cell(1) [OF ok map_of_SomeD [OF Some]]
      by (simp add: map_of_eq_None_iff [symmetric])
  qed
qed

theorem bitmap_lookup_witness: "bitmap_ok ex_bitmap \<and> \<not> isEmpty 7 ex_bitmap \<and> getValueIndex 7 ex_bitmap = 3 \<and> isEmpty 5 ex_bitmap"
  using bitmap_lookup [OF ex_bitmap_ok(1), of 7] bitmap_lookup [OF ex_bitmap_ok(1), of 5] ex_bitmap_ok by simp

text \<open>C26. The iterator visits every set cell once, in order and with the index of its value, and ends.\<close>

theorem bitmap_iteration:
  assumes "bitmap_ok bm" "length (cells bm) < fuel"
  shows "bi_collect fuel bm (bi_iterator bm) = Some (cells bm)"
proof -
  have ok: "segs_ok 0 0 (bm_segs bm)" using assms(1) by (simp add: bitmap_ok_def)
  show ?thesis
    using bi_collect_rest [OF ok bi_iterator_ok(1) [OF ok]] bi_iterator_ok(2) [OF ok] assms(2) by simp
qed

theorem bitmap_iteration_witness:
  "bi_collect 6 ex_bitmap (bi_iterator ex_bitmap) = Some [(2, 0), (3, 1), (4, 2), (7, 3), (8, 4)]"
  using bitmap_iteration [OF ex_bitmap_ok(1), of 6] by (simp add: ex_bitmap_ok(4))

text \<open>
  \<^verbatim>\<open>iterator::skip\<close> searches by value index. In a bitmap with a hole in its value indexes, as
  \<^verbatim>\<open>cut\<close> returns them, the position it computes may lie before the segment it finds.
\<close>

lemma bi_skip_hole:
  "let a = \<lparr>lPosition = 0, seg_length = 1, pPosition = 0\<rparr>;
       b = \<lparr>lPosition = 10, seg_length = 2, pPosition = 5\<rparr>;
       bm = \<lparr>bm_segs = [a, b], nNonEmptyElements = 3\<rparr>;
       it = \<lparr>bi_currSeg = 0, bi_cs = Some a, bi_currLPos = 0\<rparr>
   in bitmap_ok bm \<and> bi_skip bm 1 it = (True, \<lparr>bi_currSeg = 1, bi_cs = Some b, bi_currLPos = 6\<rparr>) \<and> isEmpty 6 bm"
  by code_simp

text \<open>C31. On a bitmap without holes in its value indexes (each segment begins with the index behind the last of
  the segment before it, as in every bitmap that is built from cells), \<open>skip\<close> is as many single steps.
  When fewer cells are left it returns false, but the iterator is not at its end and points behind
  its segment. The bitmaps returned by \<^verbatim>\<open>cut\<close> can have holes and are not covered.\<close>

theorem bitmap_skip:
  assumes "bitmap_ok bm" "segs_dense 0 (bm_segs bm)" "bi_ok bm it" "\<not> bi_end bm it"
  shows "(\<exists>it'. bi_skip bm n it = (True, it') \<and> n < length (bi_rest bm it) \<and> \<not> bi_end bm it' \<and>
            bi_rest bm it' = drop n (bi_rest bm it)) \<or>
         (\<exists>it'. bi_skip bm n it = (False, it') \<and> length (bi_rest bm it) \<le> n \<and> \<not> bi_end bm it' \<and> \<not> bi_ok bm it')"
proof (cases "n < length (bi_rest bm it)")
  case True
  have "segs_ok 0 0 (bm_segs bm)" using assms(1) by (simp add: bitmap_ok_def)
  from bi_skip_result(1) [OF this assms(2-4) True] show ?thesis using True by blast
next
  case False
  define it' where "it' = it\<lparr>bi_currLPos := bi_currLPos it + int n\<rparr>"
  have ok: "segs_ok 0 0 (bm_segs bm)" using assms(1) by (simp add: bitmap_ok_def)
  have r: "bi_skip bm n it = (False, it')" using bi_skip_result(2) [OF ok assms(2-4)] False by (simp add: it'_def)
  have e: "\<not> bi_end bm it'" using assms(4) by (simp add: bi_end_def it'_def)
  have "\<not> bi_ok bm it'"
  proof
    assume "bi_ok bm it'"
    then have "lPosition (the (bi_cs it)) + seg_length (the (bi_cs it)) > bi_currLPos it'"
      using e by (auto simp: bi_ok_def it'_def)
    then show False using r by (simp add: bi_skip_def it'_def [symmetric] Let_def) (simp add: it'_def)
  qed
  then show ?thesis using r e False by auto
qed

theorem bitmap_skip_witness:
  "(\<exists>it'. bi_skip ex_bitmap 3 (bi_iterator ex_bitmap) = (True, it') \<and> bi_rest ex_bitmap it' = [(7, 3), (8, 4)]) \<and>
   (\<exists>it'. bi_skip ex_bitmap 5 (bi_iterator ex_bitmap) = (False, it') \<and> \<not> bi_end ex_bitmap it')"
proof -
  note it = bi_iterator_ok [OF ex_bitmap_ok(2)]
  have "\<not> bi_end ex_bitmap (bi_iterator ex_bitmap)"
    by (simp add: bi_iterator_def bi_reset_def bi_enter_def bi_end_def ex_bitmap_def nSegments_def Let_def)
  then show ?thesis
    using bitmap_skip [OF ex_bitmap_ok(1,3) it(1), of 3] bitmap_skip [OF ex_bitmap_ok(1,3) it(1), of 5]
    by (auto simp: it(2) ex_bitmap_ok(4))
qed

text \<open>The bitmap built from the bits of a byte vector has exactly their positions, with their ranks as value
  indexes.\<close>

theorem bitmap_of_bits_cells:
  "cells (bitmap_of_bits data numBits) = indexed 0 (map int (filter (bit_at data) [0..<numBits])) \<and>
   bitmap_ok (bitmap_of_bits data numBits) \<and> segs_dense 0 (bm_segs (bitmap_of_bits data numBits))"
proof -
  obtain segs' pPos' where r: "bits_loop data numBits 0 [] 0 = (segs', pPos')" by fastforce
  then show ?thesis
    using bits_loop_result [OF _ _ _ _ r] by (simp add: bitmap_of_bits_def seg_end_def bitmap_ok_def)
qed

text \<open>C32. The bitmap built from the entries of a value map has exactly the positions whose entry is set, or all
  of them, with their ranks as value indexes.\<close>

theorem bitmap_of_values_cells:
  assumes "sorted_wrt (<) (map fst vm)" "\<forall>pos \<in> fst ` set vm. 0 \<le> pos"
  shows "cells (bitmap_of_values vm all) = indexed 0 (map fst (filter (\<lambda>(pos, b). all \<or> b) vm)) \<and>
    bitmap_ok (bitmap_of_values vm all) \<and> segs_dense 0 (bm_segs (bitmap_of_values vm all))"
proof -
  define ps where "ps = map (\<lambda>(pos, b). (pos, all \<or> b)) vm"
  have f: "map fst (filter snd ps) = map fst (filter (\<lambda>(pos, b). all \<or> b) vm)"
    unfolding ps_def by (induction vm) auto
  have "sorted_wrt (<) (map fst (filter snd ps))"
    unfolding f sorted_wrt_map using assms(1) by (intro sorted_wrt_filter) (simp add: sorted_wrt_map)
  moreover have "\<forall>(pos, keep) \<in> set ps. keep \<longrightarrow> 0 \<le> pos" using assms(2) by (auto simp: ps_def)
  ultimately show ?thesis
    using bitmap_of_positions [of ps "bitmap_of_values vm all"] f by (simp add: bitmap_of_values_def ps_def [symmetric])
qed

theorem bitmap_of_values_cells_witness:
  "cells (bitmap_of_values [(2, True), (3, True), (5, False), (9, True)] False) = [(2, 0), (3, 1), (9, 2)]"
  using bitmap_of_values_cells [of "[(2, True), (3, True), (5, False), (9, True)]" False]
  by simp

text \<open>C33. A packed bitmap takes the announced number of bytes and is unpacked unchanged, whatever follows it.\<close>

theorem bitmap_pack_unpack:
  assumes "fits64 bm"
  shows "ConstRLEEmptyBitmap (Some (pack bm @ zs)) = bm \<and> length (pack bm) = packedSize bm"
  using unpack_pack [OF assms] by simp

theorem bitmap_pack_unpack_witness:
  "ConstRLEEmptyBitmap (Some (pack ex_bitmap @ [1, 2])) = ex_bitmap \<and> packedSize ex_bitmap = 72"
  using bitmap_pack_unpack [of ex_bitmap "[1, 2]"]
  by (simp add: fits64_def ex_bitmap_def nSegments_def packedSize_def)

text \<open>A bitmap built by \<open>addPositionPair\<close> counts every segment as one more element.\<close>

theorem addPositionPair_count:
  "count (fold (\<lambda>(l, p). addPositionPair l p) ps empty_bitmap) =
   int (length ps) + int (nSegments (fold (\<lambda>(l, p). addPositionPair l p) ps empty_bitmap))"
proof -
  have "nNonEmptyElements (fold (\<lambda>(l, p). addPositionPair l p) ps bm) - int (nSegments (fold (\<lambda>(l, p). addPositionPair l p) ps bm)) =
      nNonEmptyElements bm - int (nSegments bm) + int (length ps)" for bm
    by (induction ps arbitrary: bm) (auto simp: addPositionPair_def addSegment_def nSegments_def Let_def)
  from this [of empty_bitmap] show ?thesis by (simp add: count_def empty_bitmap_def nSegments_def)
qed

end
