(* ===== verification/Coordinates.thy ===== *)
theory Coordinates
  imports Prelude
begin

text \<open>
  Coordinates and their row-major positions: \<^verbatim>\<open>include/array/Coordinate.h\<close>, the class
  \<^verbatim>\<open>CoordinatesMapper\<close> of \<^verbatim>\<open>include/util/CoordinatesMapper.h\<close> and
  \<^verbatim>\<open>src/util/CoordinatesMapper.cpp\<close>, and the class \<^verbatim>\<open>ArrayCoordinatesMapper\<close> of
  \<^verbatim>\<open>include/util/ArrayCoordinatesMapper.h\<close>. Coordinates and positions are integers; the
  64-bit wrap-around is written out where a result can leave the range of coordinates: in
  the differences of the comparison, in the products of positions and in the numbers of
  chunks. Taking a position apart and the bounds of a chunk stay in the range, which is
  \<open>pos2coord_in_range\<close> below.
\<close>

section \<open>Arithmetic of the language\<close>

text \<open>Division of signed integers truncates towards zero.\<close>

definition tdiv :: "int \<Rightarrow> int \<Rightarrow> int" where
  "tdiv a b = sgn a * sgn b * (\<bar>a\<bar> div \<bar>b\<bar>)"

definition tmod :: "int \<Rightarrow> int \<Rightarrow> int" where
  "tmod a b = a - tdiv a b * b"

lemma tdiv_nonneg [simp]: "0 \<le> a \<Longrightarrow> 0 < b \<Longrightarrow> tdiv a b = a div b"
  by (cases "a = 0") (simp_all add: tdiv_def)

lemma tmod_nonneg [simp]: "0 \<le> a \<Longrightarrow> 0 < b \<Longrightarrow> tmod a b = a mod b"
  by (simp add: tmod_def minus_div_mult_eq_mod)

definition s64 :: "int \<Rightarrow> int" where
  "s64 x = (x + 2 ^ 63) mod 2 ^ 64 - 2 ^ 63"

lemma s64_id [simp]: "- (2 ^ 63) \<le> x \<Longrightarrow> x < 2 ^ 63 \<Longrightarrow> s64 x = x"
  by (simp add: s64_def)

lemma s64_mod: "s64 x mod 2 ^ 64 = x mod 2 ^ 64"
  unfolding s64_def by (metis add_diff_cancel_right' mod_diff_left_eq)

lemma s64_cong: "x mod 2 ^ 64 = y mod 2 ^ 64 \<Longrightarrow> s64 x = s64 y"
  unfolding s64_def by (metis mod_add_left_eq)

lemma s64_step: "s64 (s64 x * n + k) = s64 (x * n + k)"
  by (rule s64_cong) (metis mod_add_left_eq mod_mult_left_eq s64_mod)

section \<open>Coordinates\<close>

definition getMax :: int where
  "getMax = 2 ^ 62 - 1"

definition getMin :: int where
  "getMin = - getMax"

definition getMaxLength :: int where
  "getMaxLength = getMax - getMin + 1"

definition isValidLength :: "int \<Rightarrow> bool" where
  "isValidLength len \<longleftrightarrow> len \<le> getMaxLength"

definition isMaxStar :: "int \<Rightarrow> bool" where
  "isMaxStar val \<longleftrightarrow> val = getMax"

fun coordinatesCompare :: "int list \<Rightarrow> int list \<Rightarrow> int" where
  "coordinatesCompare (x # a) (y # b) =
     (let d = s64 (x - y) in if d \<noteq> 0 then d else coordinatesCompare a b)"
| "coordinatesCompare _ _ = 0"

definition coordinatesCompareCMO :: "int list \<Rightarrow> int list \<Rightarrow> int" where
  "coordinatesCompareCMO a b = coordinatesCompare (rev a) (rev b)"

definition CoordinatesLess :: "int list \<Rightarrow> int list \<Rightarrow> bool" where
  "CoordinatesLess a b \<longleftrightarrow> coordinatesCompare a b < 0"

definition CoordinatesLessCMO :: "int list \<Rightarrow> int list \<Rightarrow> bool" where
  "CoordinatesLessCMO a b \<longleftrightarrow> coordinatesCompareCMO a b < 0"

definition CoordinatePtrLess :: "nat \<Rightarrow> int list \<Rightarrow> int list \<Rightarrow> bool" where
  "CoordinatePtrLess rank p q \<longleftrightarrow> coordinatesCompare (take rank p) (take rank q) < 0"

definition CoordinatePtrLessCMO :: "nat \<Rightarrow> int list \<Rightarrow> int list \<Rightarrow> bool" where
  "CoordinatePtrLessCMO rank p q \<longleftrightarrow> coordinatesCompareCMO (take rank p) (take rank q) < 0"

section \<open>The mapper of a chunk\<close>

record coordinates_mapper =
  cm_nDims :: nat
  cm_logicalChunkSize :: nat
  cm_origin :: "int list"
  cm_chunkIntervals :: "int list"

definition CoordinatesMapper_init :: "int list \<Rightarrow> int list \<Rightarrow> coordinates_mapper" where
  "CoordinatesMapper_init f l =
     (let intervals = map (\<lambda>(l, origin). l - origin + 1) (zip l f) in
      \<lparr>cm_nDims = length f,
       cm_logicalChunkSize = foldl (\<lambda>size n. nat ((int size * n) mod 2 ^ 64)) 1 intervals,
       cm_origin = f, cm_chunkIntervals = intervals\<rparr>)"

text \<open>The loops of the mappers; the one that takes a position apart starts with the last dimension.\<close>

fun pos2coord_loop :: "(int \<times> int) list \<Rightarrow> int \<Rightarrow> int list \<Rightarrow> int list" where
  "pos2coord_loop [] pos coord = coord"
| "pos2coord_loop ((origin, interval) # dims) pos coord =
     pos2coord_loop dims (tdiv pos interval) ((origin + tmod pos interval) # coord)"

fun coord2pos_loop :: "(int \<times> int) list \<Rightarrow> int list \<Rightarrow> int \<Rightarrow> int" where
  "coord2pos_loop ((origin, interval) # dims) (c # coord) pos =
     coord2pos_loop dims coord (s64 (pos * interval + (c - origin)))"
| "coord2pos_loop _ _ pos = pos"

definition pos2coord :: "coordinates_mapper \<Rightarrow> int \<Rightarrow> int list" where
  "pos2coord m pos =
     (let org = cm_origin m; n = cm_chunkIntervals m in
      if cm_nDims m = 1 then [org ! 0 + pos]
      else if cm_nDims m = 2 then [org ! 0 + tdiv pos (n ! 1), org ! 1 + tmod pos (n ! 1)]
      else pos2coord_loop (rev (zip org n)) pos [])"

definition coord2pos :: "coordinates_mapper \<Rightarrow> int list \<Rightarrow> int" where
  "coord2pos m coord =
     (let org = cm_origin m; n = cm_chunkIntervals m in
      if cm_nDims m = 1 then s64 (coord ! 0 - org ! 0)
      else if cm_nDims m = 2 then s64 ((coord ! 0 - org ! 0) * n ! 1 + (coord ! 1 - org ! 1))
      else coord2pos_loop (zip org n) coord 0)"

section \<open>The mapper of an array\<close>

record dimension =
  startMin :: int
  endMax :: int
  chunkInterval :: int
  chunkOverlap :: int

definition chunkPos2LowsAndIntervals :: "dimension list \<Rightarrow> int list \<Rightarrow> (int \<times> int) list" where
  "chunkPos2LowsAndIntervals dims chunkPos =
     map (\<lambda>(d, c).
       let low = c - chunkOverlap d;
           low = (if low < startMin d then startMin d else low);
           high = c + chunkInterval d + chunkOverlap d - 1;
           high = (if high > endMax d then endMax d else high) in
       (low, high - low + 1)) (zip dims chunkPos)"

text \<open>The bounds the conversions compute themselves.\<close>

definition dim_low :: "dimension \<Rightarrow> int \<Rightarrow> int" where
  "dim_low d c = max (c - chunkOverlap d) (startMin d)"

definition dim_interval :: "dimension \<Rightarrow> int \<Rightarrow> int" where
  "dim_interval d c = min (c + chunkInterval d + chunkOverlap d - 1) (endMax d) - dim_low d c + 1"

fun acm_pos2coord_loop :: "(dimension \<times> int) list \<Rightarrow> int \<Rightarrow> int list \<Rightarrow> int list" where
  "acm_pos2coord_loop [] pos coord = coord"
| "acm_pos2coord_loop ((d, c) # dims) pos coord =
     acm_pos2coord_loop dims (tdiv pos (dim_interval d c)) ((dim_low d c + tmod pos (dim_interval d c)) # coord)"

definition acm_pos2coord :: "dimension list \<Rightarrow> int list \<Rightarrow> int \<Rightarrow> int list" where
  "acm_pos2coord dims chunkPos pos = acm_pos2coord_loop (rev (zip dims chunkPos)) pos []"

fun acm_coord2pos_loop :: "(dimension \<times> int) list \<Rightarrow> int list \<Rightarrow> int \<Rightarrow> int" where
  "acm_coord2pos_loop ((d, c) # dims) (x # coord) pos =
     acm_coord2pos_loop dims coord (s64 (pos * dim_interval d c + (x - dim_low d c)))"
| "acm_coord2pos_loop _ _ pos = pos"

definition acm_coord2pos :: "dimension list \<Rightarrow> int list \<Rightarrow> int list \<Rightarrow> int" where
  "acm_coord2pos dims chunkPos coord = acm_coord2pos_loop (zip dims chunkPos) coord 0"

definition pos2coordWithLowsAndIntervals :: "(int \<times> int) list \<Rightarrow> int \<Rightarrow> int list" where
  "pos2coordWithLowsAndIntervals li pos = pos2coord_loop (rev li) pos []"

definition coord2posWithLowsAndIntervals :: "(int \<times> int) list \<Rightarrow> int list \<Rightarrow> int" where
  "coord2posWithLowsAndIntervals li coord = coord2pos_loop li coord 0"







section \<open>Row-major positions\<close>

text \<open>A box is a list of origins and extents.\<close>

fun box_size :: "(int \<times> int) list \<Rightarrow> int" where
  "box_size [] = 1"
| "box_size ((a, n) # box) = n * box_size box"

fun in_box :: "(int \<times> int) list \<Rightarrow> int list \<Rightarrow> bool" where
  "in_box [] [] \<longleftrightarrow> True"
| "in_box ((a, n) # box) (c # cs) \<longleftrightarrow> a \<le> c \<and> c < a + n \<and> in_box box cs"
| "in_box _ _ \<longleftrightarrow> False"

fun rank :: "(int \<times> int) list \<Rightarrow> int list \<Rightarrow> int" where
  "rank ((a, n) # box) (c # cs) = (c - a) * box_size box + rank box cs"
| "rank _ _ = 0"

fun unrank :: "(int \<times> int) list \<Rightarrow> int \<Rightarrow> int list" where
  "unrank [] pos = []"
| "unrank ((a, n) # box) pos = (a + pos div box_size box) # unrank box (pos mod box_size box)"

definition box_ok :: "(int \<times> int) list \<Rightarrow> bool" where
  "box_ok box \<longleftrightarrow> (\<forall>(a, n) \<in> set box. 0 < n)"

lemma box_ok_simps [simp]: "box_ok []" "box_ok ((a, n) # box) \<longleftrightarrow> 0 < n \<and> box_ok box" "box_ok (xs @ ys) \<longleftrightarrow> box_ok xs \<and> box_ok ys"
  by (auto simp: box_ok_def)

lemma box_size_pos [simp]: "box_ok box \<Longrightarrow> 0 < box_size box"
  by (induction box) auto

lemma in_box_length: "in_box box cs \<Longrightarrow> length cs = length box"
  by (induction box cs rule: in_box.induct) auto

lemma rank_bounds:
  "in_box box cs \<Longrightarrow> box_ok box \<Longrightarrow> 0 \<le> rank box cs \<and> rank box cs < box_size box"
proof (induction box cs rule: in_box.induct)
  case (2 a n box c cs)
  then have IH: "0 \<le> rank box cs" "rank box cs < box_size box" by auto
  have "(c - a) * box_size box \<le> (n - 1) * box_size box" using 2 by (intro mult_right_mono) (auto intro: less_imp_le)
  then have "(c - a) * box_size box + box_size box \<le> n * box_size box" by (simp add: algebra_simps)
  moreover have "0 \<le> (c - a) * box_size box" using 2 by (intro mult_nonneg_nonneg) (auto intro: less_imp_le)
  ultimately show ?case using IH by simp
qed auto

lemma unrank_rank: "in_box box cs \<Longrightarrow> box_ok box \<Longrightarrow> unrank box (rank box cs) = cs"
proof (induction box cs rule: in_box.induct)
  case (2 a n box c cs)
  then show ?case using rank_bounds [of box cs] by simp
qed auto

lemma div_less_extent:
  fixes m :: int
  assumes "0 < m" "x < n * m"
  shows "x div m < n"
proof -
  have "m * (x div m) = x - x mod m" by (rule minus_mod_eq_mult_div [symmetric])
  then have "x div m * m < n * m" using pos_mod_sign [OF assms(1), of x] assms(2) by (simp add: mult.commute)
  then show ?thesis using assms(1) by (simp only: mult_less_cancel_right_pos)
qed

lemma in_box_unrank: "0 \<le> pos \<Longrightarrow> pos < box_size box \<Longrightarrow> box_ok box \<Longrightarrow> in_box box (unrank box pos)"
proof (induction box arbitrary: pos)
  case (Cons d box)
  obtain a n where d: "d = (a, n)" by fastforce
  have "pos div box_size box < n" using Cons.prems d by (intro div_less_extent) auto
  moreover have "0 \<le> pos div box_size box" using Cons.prems d by (intro pos_imp_zdiv_nonneg_iff [THEN iffD2]) auto
  ultimately show ?case using Cons d by simp
qed simp

lemma rank_unrank: "0 \<le> pos \<Longrightarrow> pos < box_size box \<Longrightarrow> box_ok box \<Longrightarrow> rank box (unrank box pos) = pos"
proof (induction box arbitrary: pos)
  case (Cons d box)
  obtain a n where d: "d = (a, n)" by fastforce
  have "rank box (unrank box (pos mod box_size box)) = pos mod box_size box" using Cons d by simp
  then show ?case using d by simp
qed simp

lemma box_size_append [simp]: "box_size (xs @ ys) = box_size xs * box_size ys"
  by (induction xs rule: box_size.induct) simp_all

lemma unrank_snoc:
  "box_ok box \<Longrightarrow> 0 < n \<Longrightarrow> 0 \<le> pos \<Longrightarrow> pos < box_size box * n \<Longrightarrow>
   unrank (box @ [(a, n)]) pos = unrank box (pos div n) @ [a + pos mod n]"
proof (induction box arbitrary: pos)
  case (Cons d box)
  obtain b m where d: "d = (b, m)" by fastforce
  let ?s = "box_size box"
  have s: "0 < ?s" using Cons.prems d by simp
  have "pos mod (?s * n) div n = pos div n mod ?s"
    using Cons.prems(2) s by (simp add: mult.commute [of ?s] zmod_zmult2_eq)
  moreover have "pos mod (?s * n) mod n = pos mod n" by (simp add: mod_mod_cancel)
  moreover have "pos div (?s * n) = pos div n div ?s" using s by (simp add: mult.commute [of ?s] zdiv_zmult2_eq)
  moreover have "pos mod (?s * n) < ?s * n" "0 \<le> pos mod (?s * n)" using s Cons.prems(2) by simp_all
  ultimately show ?case using Cons.IH [of "pos mod (?s * n)"] Cons.prems d by simp
qed simp

lemma pos2coord_loop_unrank:
  "box_ok xs \<Longrightarrow> 0 \<le> pos \<Longrightarrow> pos < box_size (rev xs) \<Longrightarrow> pos2coord_loop xs pos acc = unrank (rev xs) pos @ acc"
proof (induction xs arbitrary: pos acc)
  case (Cons d xs)
  obtain a n where d: "d = (a, n)" by fastforce
  have "pos div n < box_size (rev xs)" using Cons.prems d by (intro div_less_extent) auto
  moreover have "0 \<le> pos div n" using Cons.prems d by (simp add: pos_imp_zdiv_nonneg_iff)
  moreover have "box_ok (rev xs)" using Cons.prems d by (auto simp: box_ok_def)
  ultimately show ?case using Cons d unrank_snoc [of "rev xs" n pos a] by simp
qed simp

lemma coord2pos_loop_rank: "in_box box cs \<Longrightarrow> coord2pos_loop box cs (s64 pos) = s64 (pos * box_size box + rank box cs)"
proof (induction box cs arbitrary: pos rule: in_box.induct)
  case (2 a n box c cs)
  have "coord2pos_loop ((a, n) # box) (c # cs) (s64 pos) = coord2pos_loop box cs (s64 (pos * n + (c - a)))"
    by (simp add: s64_step)
  then show ?case using 2 by (simp add: algebra_simps)
qed simp_all

lemma s64_0 [simp]: "s64 0 = 0"
  by (simp add: s64_def)

text \<open>Row-major order.\<close>

lemma compare_rank:
  assumes "in_box box a" "in_box box b" "box_ok box" "\<forall>c \<in> set a \<union> set b. getMin \<le> c \<and> c \<le> getMax"
  shows "sgn (coordinatesCompare a b) = sgn (rank box a - rank box b)"
  using assms
proof (induction box a arbitrary: b rule: in_box.induct)
  case (2 o1 n box x a)
  then obtain y b' where b: "b = y # b'" by (cases b) auto
  let ?s = "box_size box"
  have r: "0 \<le> rank box a" "rank box a < ?s" "0 \<le> rank box b'" "rank box b' < ?s"
    using rank_bounds 2 b by auto
  have w: "s64 (x - y) = x - y" using 2(5) b by (intro s64_id) (auto simp: getMax_def getMin_def)
  have step: "?s \<le> (u - v) * ?s" if "v < u" for u v :: int
    using that r mult_right_mono [of 1 "u - v" ?s] by simp
  consider "x = y" | "x < y" | "y < x" by linarith
  then show ?case
  proof cases
    case 1
    then show ?thesis using 2 b w by simp
  next
    case 2
    then show ?thesis using b w r step [of x y] by (simp add: algebra_simps sgn_if)
  next
    case 3
    then show ?thesis using b w r step [of y x] by (simp add: algebra_simps sgn_if)
  qed
qed (auto simp: neq_Nil_conv)

section \<open>The mappers\<close>

definition mapper_box :: "coordinates_mapper \<Rightarrow> (int \<times> int) list" where
  "mapper_box m = zip (cm_origin m) (cm_chunkIntervals m)"

definition mapper_ok :: "coordinates_mapper \<Rightarrow> bool" where
  "mapper_ok m \<longleftrightarrow> length (cm_origin m) = cm_nDims m \<and> length (cm_chunkIntervals m) = cm_nDims m \<and> 0 < cm_nDims m \<and>
     box_ok (mapper_box m)"

lemma list1: "length xs = Suc 0 \<Longrightarrow> \<exists>x. xs = [x]" and list2: "length xs = 2 \<Longrightarrow> \<exists>x y. xs = [x, y]"
  by (auto simp: length_Suc_conv numeral_2_eq_2)

lemma pos2coord_unrank:
  assumes "mapper_ok m" "0 \<le> pos" "pos < box_size (mapper_box m)"
  shows "pos2coord m pos = unrank (mapper_box m) pos"
proof -
  have len: "length (cm_origin m) = cm_nDims m" "length (cm_chunkIntervals m) = cm_nDims m" and ok: "box_ok (mapper_box m)"
    using assms(1) by (auto simp: mapper_ok_def)
  consider "cm_nDims m = 1" | "cm_nDims m = 2" | "cm_nDims m \<noteq> 1" "cm_nDims m \<noteq> 2" by blast
  then show ?thesis
  proof cases
    case 1
    then obtain a n where "cm_origin m = [a]" "cm_chunkIntervals m = [n]" using len list1 by (metis One_nat_def)
    then show ?thesis using 1 by (simp add: pos2coord_def mapper_box_def)
  next
    case 2
    then obtain a b k n where "cm_origin m = [a, b]" "cm_chunkIntervals m = [k, n]" using len list2 by metis
    then show ?thesis using 2 assms(2) ok by (simp add: pos2coord_def mapper_box_def)
  next
    case 3
    have "box_ok (rev (mapper_box m))" using ok by (simp add: box_ok_def)
    then show ?thesis using 3 assms(2,3) pos2coord_loop_unrank [of "rev (mapper_box m)" pos "[]"]
      by (simp add: pos2coord_def mapper_box_def Let_def)
  qed
qed

lemma coord2pos_rank:
  assumes "mapper_ok m" "in_box (mapper_box m) coord"
  shows "coord2pos m coord = s64 (rank (mapper_box m) coord)"
proof -
  have len: "length (cm_origin m) = cm_nDims m" "length (cm_chunkIntervals m) = cm_nDims m"
    using assms(1) by (auto simp: mapper_ok_def)
  have lc: "length coord = cm_nDims m" using in_box_length [OF assms(2)] len by (simp add: mapper_box_def)
  consider "cm_nDims m = 1" | "cm_nDims m = 2" | "cm_nDims m \<noteq> 1" "cm_nDims m \<noteq> 2" by blast
  then show ?thesis
  proof cases
    case 1
    then obtain a n c where "cm_origin m = [a]" "cm_chunkIntervals m = [n]" "coord = [c]" using len lc list1 by (metis One_nat_def)
    then show ?thesis using 1 by (simp add: coord2pos_def mapper_box_def)
  next
    case 2
    then obtain a b k n c d where "cm_origin m = [a, b]" "cm_chunkIntervals m = [k, n]" "coord = [c, d]"
      using len lc list2 by metis
    then show ?thesis using 2 by (simp add: coord2pos_def mapper_box_def)
  next
    case 3
    then show ?thesis using coord2pos_loop_rank [OF assms(2), of 0] by (simp add: coord2pos_def mapper_box_def Let_def)
  qed
qed

lemma mapper_box_init: "mapper_box (CoordinatesMapper_init f l) = map2 (\<lambda>a b. (a, b - a + 1)) f l"
proof (induction f arbitrary: l)
  case (Cons a f)
  then show ?case by (cases l) (simp_all add: CoordinatesMapper_init_def Let_def mapper_box_def)
qed (simp add: CoordinatesMapper_init_def Let_def mapper_box_def)

lemma mapper_ok_init:
  assumes "list_all2 (\<le>) f l" "f \<noteq> []"
  shows "mapper_ok (CoordinatesMapper_init f l)"
proof -
  have "box_ok (map2 (\<lambda>a b. (a, b - a + 1)) f l)" using assms(1) by (induction rule: list_all2_induct) simp_all
  then show ?thesis using list_all2_lengthD [OF assms(1)] assms(2)
    by (simp add: mapper_ok_def mapper_box_init) (auto simp: CoordinatesMapper_init_def Let_def)
qed

lemma in_box_init:
  "list_all2 (\<le>) f c \<Longrightarrow> list_all2 (\<le>) c l \<Longrightarrow> in_box (map2 (\<lambda>a b. (a, b - a + 1)) f l) c"
proof (induction f arbitrary: c l)
  case (Cons a f)
  then show ?case by (cases c; cases l) auto
qed (auto simp: list_all2_Nil)

lemma in_box_initD:
  assumes "length f = length l" "in_box (map2 (\<lambda>a b. (a, b - a + 1)) f l) c"
  shows "list_all2 (\<le>) f c" "list_all2 (\<le>) c l"
  using assms
proof (induction f l arbitrary: c rule: list_induct2)
  case Nil
  { case 1 then show ?case by (cases c) auto }
  { case 2 then show ?case by (cases c) auto }
next
  case (Cons a f b l)
  { case 1 then show ?case using Cons.IH(1) by (cases c) auto }
  { case 2 then show ?case using Cons.IH(2) by (cases c) auto }
qed

lemma box_size_init: "box_size (map2 (\<lambda>a b. (a, b - a + 1)) f l) = prod_list (map2 (\<lambda>a b. b - a + 1) f l)"
proof (induction f arbitrary: l)
  case (Cons a f)
  then show ?case by (cases l) simp_all
qed simp

lemma mapper_size:
  "int (cm_logicalChunkSize (CoordinatesMapper_init f l)) = box_size (mapper_box (CoordinatesMapper_init f l)) mod 2 ^ 64"
proof -
  have "int (foldl (\<lambda>size n. nat ((int size * n) mod 2 ^ 64)) k (map (\<lambda>(l, f). l - f + 1) (zip l f))) =
      (int k * box_size (map2 (\<lambda>a b. (a, b - a + 1)) f l)) mod 2 ^ 64" if "k < 2 ^ 64" for k
    using that
  proof (induction f arbitrary: k l)
    case (Cons a f)
    show ?case
    proof (cases l)
      case (Cons b l')
      let ?k = "nat ((int k * (b - a + 1)) mod 2 ^ 64)"
      have "?k < 2 ^ 64" by (metis nat_less_numeral_power_cancel_iff pos_mod_bound zero_less_numeral zero_less_power)
      then show ?thesis using Cons.IH [of ?k l'] Cons by (simp add: mod_mult_left_eq mult.assoc)
    qed (use Cons.prems in simp)
  qed simp
  from this [of 1] show ?thesis by (simp add: mapper_box_init) (simp add: CoordinatesMapper_init_def Let_def)
qed

text \<open>The conversions of the two mappers.\<close>

lemma lows_and_intervals:
  "chunkPos2LowsAndIntervals dims chunkPos = map (\<lambda>(d, c). (dim_low d c, dim_interval d c)) (zip dims chunkPos)"
  by (auto simp: chunkPos2LowsAndIntervals_def dim_interval_def dim_low_def Let_def max_def min_def)

lemma acm_pos2coord_loop_eq:
  "acm_pos2coord_loop dcs pos acc = pos2coord_loop (map (\<lambda>(d, c). (dim_low d c, dim_interval d c)) dcs) pos acc"
  by (induction dcs arbitrary: pos acc) auto

lemma acm_coord2pos_loop_eq:
  "acm_coord2pos_loop dcs coord pos = coord2pos_loop (map (\<lambda>(d, c). (dim_low d c, dim_interval d c)) dcs) coord pos"
  by (induction dcs coord pos rule: acm_coord2pos_loop.induct) simp_all


definition dims_ok :: "dimension list \<Rightarrow> bool" where
  "dims_ok dims \<longleftrightarrow> (\<forall>d \<in> set dims. startMin d \<le> endMax d \<and> 0 < chunkInterval d \<and> 0 \<le> chunkOverlap d)"

definition chunk_of :: "dimension \<Rightarrow> int \<Rightarrow> bool" where
  "chunk_of d c \<longleftrightarrow> startMin d \<le> c \<and> c \<le> endMax d \<and> chunkInterval d dvd c - startMin d"












lemma mapper_pos:
  assumes "list_all2 (\<le>) f l" "f \<noteq> []" "0 \<le> pos" "pos < prod_list (map2 (\<lambda>a b. b - a + 1) f l)"
  shows "coord2pos (CoordinatesMapper_init f l) (pos2coord (CoordinatesMapper_init f l) pos) = s64 pos"
    "list_all2 (\<le>) f (pos2coord (CoordinatesMapper_init f l) pos)" "list_all2 (\<le>) (pos2coord (CoordinatesMapper_init f l) pos) l"
    "pos2coord (CoordinatesMapper_init f l) pos = unrank (map2 (\<lambda>a b. (a, b - a + 1)) f l) pos"
proof -
  let ?m = "CoordinatesMapper_init f l" and ?box = "map2 (\<lambda>a b. (a, b - a + 1)) f l"
  have ok: "mapper_ok ?m" by (rule mapper_ok_init [OF assms(1,2)])
  then have box: "box_ok ?box" by (simp add: mapper_ok_def mapper_box_init)
  have pos: "pos < box_size ?box" using assms(4) by (simp add: box_size_init)
  show p: "pos2coord ?m pos = unrank ?box pos"
    using pos2coord_unrank [OF ok, unfolded mapper_box_init, OF assms(3) pos] .
  note b = in_box_unrank [OF assms(3) pos box]
  show "coord2pos ?m (pos2coord ?m pos) = s64 pos"
    using coord2pos_rank [OF ok, unfolded mapper_box_init, OF b] rank_unrank [OF assms(3) pos box] by (simp add: p)
  show "list_all2 (\<le>) f (pos2coord ?m pos)" "list_all2 (\<le>) (pos2coord ?m pos) l"
    unfolding p using in_box_initD [OF list_all2_lengthD [OF assms(1)] b] by simp_all
qed

lemma mapper_coord:
  assumes "list_all2 (\<le>) f l" "f \<noteq> []" "list_all2 (\<le>) f c" "list_all2 (\<le>) c l"
    and "prod_list (map2 (\<lambda>a b. b - a + 1) f l) \<le> 2 ^ 63"
  shows "pos2coord (CoordinatesMapper_init f l) (coord2pos (CoordinatesMapper_init f l) c) = c"
    "0 \<le> coord2pos (CoordinatesMapper_init f l) c"
    "coord2pos (CoordinatesMapper_init f l) c < prod_list (map2 (\<lambda>a b. b - a + 1) f l)"
    "coord2pos (CoordinatesMapper_init f l) c = rank (map2 (\<lambda>a b. (a, b - a + 1)) f l) c"
proof -
  let ?m = "CoordinatesMapper_init f l" and ?box = "map2 (\<lambda>a b. (a, b - a + 1)) f l"
  have ok: "mapper_ok ?m" by (rule mapper_ok_init [OF assms(1,2)])
  then have box: "box_ok ?box" by (simp add: mapper_ok_def mapper_box_init)
  have b: "in_box ?box c" by (rule in_box_init [OF assms(3,4)])
  note r = rank_bounds [OF b box]
  then have "rank ?box c < 2 ^ 63" using assms(5) by (simp add: box_size_init)
  then show c: "coord2pos ?m c = rank ?box c"
    using coord2pos_rank [OF ok, unfolded mapper_box_init, OF b] r by simp
  show "0 \<le> coord2pos ?m c" "coord2pos ?m c < prod_list (map2 (\<lambda>a b. b - a + 1) f l)"
    using r by (simp_all add: c box_size_init)
  show "pos2coord ?m (coord2pos ?m c) = c"
    unfolding c using pos2coord_unrank [OF ok, unfolded mapper_box_init, of "rank ?box c"] r unrank_rank [OF b box] by simp
qed

text \<open>
  For a chunk with coordinates in the range, no operation of \<^verbatim>\<open>init\<close> and \<^verbatim>\<open>pos2coord\<close> leaves it:
  the intervals fit into 64 bits and the coordinates are valid.
\<close>

lemma pos2coord_in_range:
  assumes "list_all2 (\<le>) f l" "f \<noteq> []" "0 \<le> pos" "pos < prod_list (map2 (\<lambda>a b. b - a + 1) f l)"
    and "\<forall>c \<in> set f \<union> set l. getMin \<le> c \<and> c \<le> getMax"
  shows "\<forall>c \<in> set (pos2coord (CoordinatesMapper_init f l) pos). getMin \<le> c \<and> c \<le> getMax"
    "\<forall>n \<in> set (cm_chunkIntervals (CoordinatesMapper_init f l)). 0 < n \<and> n < 2 ^ 63"
proof -
  have "\<forall>x \<in> set c. getMin \<le> x \<and> x \<le> getMax" if "list_all2 (\<le>) f c" "list_all2 (\<le>) c l" for c
    using that assms(5) by (auto simp: list_all2_conv_all_nth in_set_conv_nth) (metis nth_mem order_trans UnCI)+
  then show "\<forall>c \<in> set (pos2coord (CoordinatesMapper_init f l) pos). getMin \<le> c \<and> c \<le> getMax"
    using mapper_pos(2,3) [OF assms(1-4)] by blast
  have "0 < l ! i - f ! i + 1 \<and> l ! i - f ! i + 1 < 2 ^ 63" if "i < length f" for i
  proof -
    have len: "length l = length f" using assms(1) by (simp add: list_all2_lengthD)
    then have "f ! i \<in> set f" "l ! i \<in> set l" "f ! i \<le> l ! i"
      using that assms(1) by (auto simp: list_all2_conv_all_nth)
    then have "getMin \<le> f ! i" "l ! i \<le> getMax" "f ! i \<le> l ! i" using assms(5) by blast+
    then show ?thesis by (simp add: getMin_def getMax_def)
  qed
  then show "\<forall>n \<in> set (cm_chunkIntervals (CoordinatesMapper_init f l)). 0 < n \<and> n < 2 ^ 63"
    by (auto simp: CoordinatesMapper_init_def Let_def in_set_zip)
qed

section \<open>Properties of the mappers\<close>

text \<open>C21. The conversions of \<^verbatim>\<open>CoordinatesMapper\<close> are inverse to each other: every 64-bit position below the
  logical size of the chunk is the position of coordinates inside of the chunk, and all coordinates of a
  chunk of at most \<open>2 ^ 63\<close> cells have such a position. The schema checks that chunks are not larger.\<close>

theorem mapper_round_trip:
  assumes "list_all2 (\<le>) f l" "f \<noteq> []"
  shows "(\<forall>pos. 0 \<le> pos \<and> pos < 2 ^ 63 \<and> pos < prod_list (map2 (\<lambda>a b. b - a + 1) f l) \<longrightarrow>
      coord2pos (CoordinatesMapper_init f l) (pos2coord (CoordinatesMapper_init f l) pos) = pos \<and>
      list_all2 (\<le>) f (pos2coord (CoordinatesMapper_init f l) pos) \<and> list_all2 (\<le>) (pos2coord (CoordinatesMapper_init f l) pos) l) \<and>
    (\<forall>c. list_all2 (\<le>) f c \<and> list_all2 (\<le>) c l \<and> prod_list (map2 (\<lambda>a b. b - a + 1) f l) \<le> 2 ^ 63 \<longrightarrow>
      pos2coord (CoordinatesMapper_init f l) (coord2pos (CoordinatesMapper_init f l) c) = c \<and>
      0 \<le> coord2pos (CoordinatesMapper_init f l) c \<and>
      coord2pos (CoordinatesMapper_init f l) c < prod_list (map2 (\<lambda>a b. b - a + 1) f l))"
  by (simp add: mapper_pos(1-3) [OF assms] mapper_coord(1-3) [OF assms])

theorem mapper_round_trip_witness:
  "pos2coord (CoordinatesMapper_init [0, 10, -1] [1, 12, 2]) 17 = [1, 11, 0] \<and>
   coord2pos (CoordinatesMapper_init [0, 10, -1] [1, 12, 2]) [1, 11, 0] = 17"
proof -
  have "pos2coord (CoordinatesMapper_init [0, 10, -1] [1, 12, 2]) 17 = [1, 11, 0]" by code_simp
  moreover have "list_all2 (\<le>) [0, 10, -1] [1, 12, 2 :: int]" "(17 :: int) < prod_list (map2 (\<lambda>a b. b - a + 1) [0, 10, -1] [1, 12, 2])"
    by simp_all
  ultimately show ?thesis using conjunct1 [OF mapper_round_trip [of "[0, 10, -1]" "[1, 12, 2]"], THEN spec, of 17] by simp
qed

text \<open>C22. In a chunk of at most \<open>2 ^ 63\<close> cells the order of coordinates that \<^verbatim>\<open>CoordinatesLess\<close> decides by 64-bit
  differences is the order of their 64-bit positions: for coordinates between \<^verbatim>\<open>MIN_COORDINATE\<close> and
  \<^verbatim>\<open>MAX_COORDINATE\<close> no difference wraps around.\<close>

theorem row_major_order:
  assumes "list_all2 (\<le>) f l" "f \<noteq> []" "list_all2 (\<le>) f a" "list_all2 (\<le>) a l" "list_all2 (\<le>) f b" "list_all2 (\<le>) b l"
    and "\<forall>c \<in> set a \<union> set b. getMin \<le> c \<and> c \<le> getMax" "prod_list (map2 (\<lambda>a b. b - a + 1) f l) \<le> 2 ^ 63"
  shows "CoordinatesLess a b \<longleftrightarrow> coord2pos (CoordinatesMapper_init f l) a < coord2pos (CoordinatesMapper_init f l) b"
proof -
  have "box_ok (map2 (\<lambda>a b. (a, b - a + 1)) f l)"
    using mapper_ok_init [OF assms(1,2)] by (simp add: mapper_ok_def mapper_box_init)
  then have "sgn (coordinatesCompare a b) = sgn (coord2pos (CoordinatesMapper_init f l) a - coord2pos (CoordinatesMapper_init f l) b)"
    using compare_rank [OF in_box_init [OF assms(3,4)] in_box_init [OF assms(5,6)] _ assms(7)]
      mapper_coord(4) [OF assms(1-4,8)] mapper_coord(4) [OF assms(1,2,5,6,8)] by simp
  then show ?thesis unfolding CoordinatesLess_def using sgn_less [of "coordinatesCompare a b"] by simp
qed

theorem row_major_order_witness:
  "CoordinatesLess [0, 5] [1, -7] \<and>
   coord2pos (CoordinatesMapper_init [0, -7] [1, 5]) [0, 5] < coord2pos (CoordinatesMapper_init [0, -7] [1, 5]) [1, -7]"
proof -
  have "CoordinatesLess [0, 5] [1, -7]" by code_simp
  moreover have "\<forall>c \<in> set [0, 5] \<union> set [1, -7]. getMin \<le> c \<and> c \<le> getMax" by (simp add: getMin_def getMax_def)
  ultimately show ?thesis using row_major_order [of "[0, -7]" "[1, 5]" "[0, 5]" "[1, -7]"] by simp
qed

text \<open>The two ways \<^verbatim>\<open>ArrayCoordinatesMapper\<close> converts, from the position of the chunk or from the bounds
  computed in advance, agree with each other and with \<^verbatim>\<open>CoordinatesMapper\<close>.\<close>

lemma array_mapper_loops:
  "acm_pos2coord dims chunkPos pos = pos2coordWithLowsAndIntervals (chunkPos2LowsAndIntervals dims chunkPos) pos"
  "acm_coord2pos dims chunkPos c = coord2posWithLowsAndIntervals (chunkPos2LowsAndIntervals dims chunkPos) c"
  by (simp_all add: acm_pos2coord_def acm_coord2pos_def acm_pos2coord_loop_eq acm_coord2pos_loop_eq lows_and_intervals
      pos2coordWithLowsAndIntervals_def coord2posWithLowsAndIntervals_def rev_map)

lemma array_mapper_box:
  assumes "box_ok li" "0 \<le> pos" "pos < box_size li" "in_box li c"
  shows "pos2coordWithLowsAndIntervals li pos = unrank li pos" "coord2posWithLowsAndIntervals li c = s64 (rank li c)"
proof -
  have "box_ok (rev li)" using assms(1) by (simp add: box_ok_def)
  then show "pos2coordWithLowsAndIntervals li pos = unrank li pos"
    using pos2coord_loop_unrank [of "rev li" pos "[]"] assms(2,3) by (simp add: pos2coordWithLowsAndIntervals_def)
  show "coord2posWithLowsAndIntervals li c = s64 (rank li c)"
    using coord2pos_loop_rank [OF assms(4), of 0] by (simp add: coord2posWithLowsAndIntervals_def)
qed

text \<open>The bounds of a chunk of an array.\<close>

definition chunk_first :: "dimension list \<Rightarrow> int list \<Rightarrow> int list" where
  "chunk_first dims chunkPos = map2 (\<lambda>d c. max (c - chunkOverlap d) (startMin d)) dims chunkPos"

definition chunk_last :: "dimension list \<Rightarrow> int list \<Rightarrow> int list" where
  "chunk_last dims chunkPos = map2 (\<lambda>d c. min (c + chunkInterval d + chunkOverlap d - 1) (endMax d)) dims chunkPos"

lemma chunk_bounds_box:
  "map2 (\<lambda>a b. (a, b - a + 1)) (chunk_first dims chunkPos) (chunk_last dims chunkPos) = chunkPos2LowsAndIntervals dims chunkPos"
  by (simp add: lows_and_intervals chunk_first_def chunk_last_def dim_low_def dim_interval_def zip_map1 zip_map2)
     (induction dims chunkPos rule: list_induct2'; simp)

lemma chunk_bounds:
  assumes "dims_ok dims" "list_all2 chunk_of dims chunkPos"
  shows "list_all2 (\<le>) (chunk_first dims chunkPos) (chunk_last dims chunkPos)"
  using assms(2,1)
  by (induction rule: list_all2_induct) (auto simp: chunk_first_def chunk_last_def dims_ok_def chunk_of_def)

text \<open>For a chunk of an array, with its overlap cut at the bounds of the array and at most \<open>2 ^ 63\<close> cells,
  \<^verbatim>\<open>ArrayCoordinatesMapper\<close> converts as \<^verbatim>\<open>CoordinatesMapper\<close> does for the same bounds, whether it computes the bounds itself or is given them.\<close>

theorem array_mapper_agrees:
  assumes "dims_ok dims" "list_all2 chunk_of dims chunkPos" "dims \<noteq> []"
    and "list_all2 (\<le>) (chunk_first dims chunkPos) c" "list_all2 (\<le>) c (chunk_last dims chunkPos)"
    and "prod_list (map2 (\<lambda>a b. b - a + 1) (chunk_first dims chunkPos) (chunk_last dims chunkPos)) \<le> 2 ^ 63"
  shows "let m = CoordinatesMapper_init (chunk_first dims chunkPos) (chunk_last dims chunkPos);
             li = chunkPos2LowsAndIntervals dims chunkPos in
    acm_coord2pos dims chunkPos c = coord2pos m c \<and> coord2posWithLowsAndIntervals li c = coord2pos m c \<and>
    acm_pos2coord dims chunkPos (coord2pos m c) = c \<and> pos2coordWithLowsAndIntervals li (coord2pos m c) = c"
proof -
  let ?li = "chunkPos2LowsAndIntervals dims chunkPos"
  have b: "list_all2 (\<le>) (chunk_first dims chunkPos) (chunk_last dims chunkPos)" by (rule chunk_bounds [OF assms(1,2)])
  have ne: "chunk_first dims chunkPos \<noteq> []" using assms(2,3) by (cases chunkPos) (auto simp: chunk_first_def neq_Nil_conv)
  have box: "box_ok ?li" using mapper_ok_init [OF b ne] by (simp add: mapper_ok_def mapper_box_init chunk_bounds_box)
  have c: "in_box ?li c" using in_box_init [OF assms(4,5)] by (simp add: chunk_bounds_box)
  note m = mapper_coord [OF b ne assms(4-6), unfolded chunk_bounds_box box_size_init [symmetric]]
  have "box_size ?li \<le> 2 ^ 63" using assms(6) unfolding box_size_init [symmetric] chunk_bounds_box .
  then have "rank ?li c < 2 ^ 63" using rank_bounds [OF c box] by simp
  then show ?thesis
    using array_mapper_box [OF box m(2,3) c] unrank_rank [OF c box] rank_bounds [OF c box]
    by (simp add: Let_def array_mapper_loops m(4))
qed

theorem array_mapper_agrees_witness:
  "acm_coord2pos [\<lparr>startMin = 0, endMax = 9, chunkInterval = 4, chunkOverlap = 1\<rparr>, \<lparr>startMin = 1, endMax = 5, chunkInterval = 5, chunkOverlap = 0\<rparr>]
     [8, 1] [7, 3] =
   coord2pos (CoordinatesMapper_init [7, 1] [9, 5]) [7, 3]"
  using array_mapper_agrees [of "[\<lparr>startMin = 0, endMax = 9, chunkInterval = 4, chunkOverlap = 1\<rparr>, \<lparr>startMin = 1, endMax = 5, chunkInterval = 5, chunkOverlap = 0\<rparr>]"
      "[8, 1]" "[7, 3]"]
  by (simp add: dims_ok_def chunk_of_def chunk_first_def chunk_last_def Let_def)



end
