(* ===== verification/Rle_Cut.thy ===== *)
theory Rle_Cut
  imports Rle_Bitmap_Cells Coordinates
begin

text \<open>
  Cutting a box out of a bitmap: \<^verbatim>\<open>ConstRLEEmptyBitmap::cut\<close> of \<^verbatim>\<open>src/array/RLE.cpp\<close> with its two
  helper classes, the replicator that copies runs of cells and the cut that decides which.
\<close>

section \<open>The replicator\<close>

record replicator =
  rp_resultBitmap :: bitmap
  rp_resultSegment :: bm_segment
  rp_sourceArray :: "bm_segment list"
  rp_sourceIndex :: nat
  rp_sourceSegment :: bm_segment

definition rp_end :: "replicator \<Rightarrow> bool" where
  "rp_end r \<longleftrightarrow> rp_sourceIndex r = length (rp_sourceArray r)"

definition rp_flush :: "replicator \<Rightarrow> replicator" where
  "rp_flush r =
     (if 0 < seg_length (rp_resultSegment r)
      then r\<lparr>rp_resultBitmap := addSegment (rp_resultSegment r) (rp_resultBitmap r),
             rp_resultSegment := (rp_resultSegment r)\<lparr>seg_length := 0\<rparr>\<rparr>
      else r)"

definition BitmapReplicator :: "bm_segment list \<Rightarrow> replicator" where
  "BitmapReplicator sourceArray =
     (let none = \<lparr>lPosition = -1, seg_length = -1, pPosition = -1\<rparr>;
          r = \<lparr>rp_resultBitmap = empty_bitmap, rp_resultSegment = none\<lparr>seg_length := 0\<rparr>,
               rp_sourceArray = sourceArray, rp_sourceIndex = 0, rp_sourceSegment = none\<rparr> in
      if rp_end r then r
      else r\<lparr>rp_sourceSegment := sourceArray ! 0,
             rp_resultSegment := (rp_resultSegment r)\<lparr>lPosition := lPosition (sourceArray ! 0),
                                                     pPosition := pPosition (sourceArray ! 0)\<rparr>\<rparr>)"

definition rp_position :: "replicator \<Rightarrow> int" where
  "rp_position r = lPosition (rp_sourceSegment r)"

definition rp_length :: "replicator \<Rightarrow> int" where
  "rp_length r = seg_length (rp_sourceSegment r)"

definition rp_skip :: "int \<Rightarrow> replicator \<Rightarrow> replicator" where
  "rp_skip cnt r =
     (let s = rp_sourceSegment r in
      r\<lparr>rp_sourceSegment := s\<lparr>lPosition := lPosition s + cnt, pPosition := pPosition s + cnt,
                             seg_length := seg_length s - cnt\<rparr>\<rparr>)"

definition rp_copy :: "int \<Rightarrow> replicator \<Rightarrow> replicator" where
  "rp_copy cnt r =
     (let r1 = (if 0 < seg_length (rp_resultSegment r) \<and>
                   lPosition (rp_resultSegment r) + seg_length (rp_resultSegment r) < lPosition (rp_sourceSegment r)
                then rp_flush r else r);
          r2 = (if seg_length (rp_resultSegment r1) = 0
                then r1\<lparr>rp_resultSegment := (rp_resultSegment r1)
                         \<lparr>lPosition := lPosition (rp_sourceSegment r1), pPosition := pPosition (rp_sourceSegment r1)\<rparr>\<rparr>
                else r1) in
      rp_skip cnt (r2\<lparr>rp_resultSegment := (rp_resultSegment r2)
                        \<lparr>seg_length := seg_length (rp_resultSegment r2) + cnt\<rparr>\<rparr>))"

definition rp_next :: "replicator \<Rightarrow> replicator" where
  "rp_next r =
     (let r1 = r\<lparr>rp_sourceIndex := rp_sourceIndex r + 1\<rparr> in
      if rp_end r1 then r1 else r1\<lparr>rp_sourceSegment := rp_sourceArray r1 ! rp_sourceIndex r1\<rparr>)"

definition rp_result :: "replicator \<Rightarrow> bitmap" where
  "rp_result r = rp_resultBitmap (rp_flush r)"

section \<open>The cut\<close>

text \<open>A cut and the cuts nested in it, from the outermost dimension on.\<close>

record cut_level =
  c_prefix :: int
  c_suffix :: int
  c_interval :: int
  c_main :: int

fun Cut_init :: "int list \<Rightarrow> int list \<Rightarrow> int list \<Rightarrow> int list \<Rightarrow> cut_level list \<times> int" where
  "Cut_init (lo # los) (uo # uos) (lr # lrs) (ur # urs) =
     (let (nested, multiplier) =
        (if los = [] then ([], 1)
         else
           (case Cut_init los uos lrs urs of
              (ns, m) \<Rightarrow> (if c_prefix (hd ns) = 0 \<and> c_suffix (hd ns) = 0 \<and> tl ns = [] then [] else ns, m)));
          prefix = (lr - lo) * multiplier;
          suffix = (uo - ur) * multiplier;
          interval = (uo + 1 - lo) * multiplier in
      (\<lparr>c_prefix = prefix, c_suffix = suffix, c_interval = interval, c_main = interval - prefix - suffix\<rparr> # nested,
       interval))"
| "Cut_init _ _ _ _ = ([], 1)"

text \<open>
  The loop over the lines of the nested dimension. Every round consumes at least one
  position, so as many rounds as there are positions to copy are enough.
\<close>

fun process_loop ::
  "(replicator \<Rightarrow> (int \<times> replicator) option) \<Rightarrow> nat \<Rightarrow> int \<Rightarrow> int \<Rightarrow> int \<Rightarrow> replicator \<Rightarrow> (int \<times> int \<times> replicator) option"
where
  "process_loop nested fuel copy source result r =
     (if 0 < copy then
        (case fuel of
           0 \<Rightarrow> None
         | Suc fuel' \<Rightarrow>
             (case nested r of
                None \<Rightarrow> None
              | Some (step, r1) \<Rightarrow> process_loop nested fuel' (copy - step) (source + step) (result + step) r1))
      else Some (source, result, r))"

declare process_loop.simps [simp del]

text \<open>The part of \<^verbatim>\<open>process\<close> that copies; \<open>nested\<close> is the nested cut if there is one.\<close>

definition process_main ::
  "(replicator \<Rightarrow> (int \<times> replicator) option) option \<Rightarrow> cut_level \<Rightarrow> int \<Rightarrow> int \<Rightarrow> int \<Rightarrow> replicator \<Rightarrow>
   (int \<times> int \<times> replicator) option" where
  "process_main nested c skipMain source result r =
     (if skipMain < c_main c then
        (let copy = min (c_main c - skipMain) (rp_length r) in
         case nested of
           Some f \<Rightarrow> process_loop f (nat copy) copy source result r
         | None \<Rightarrow>
             (let step = min copy (rp_length r) in Some (source + step, result + step, rp_copy step r)))
      else Some (source, result, r))"

text \<open>The rest of \<^verbatim>\<open>process\<close> behind the prefix: the main part, then the suffix.\<close>

definition process_rest ::
  "(replicator \<Rightarrow> (int \<times> replicator) option) option \<Rightarrow> cut_level \<Rightarrow> int \<Rightarrow> int \<Rightarrow> int \<Rightarrow> replicator \<Rightarrow>
   (int \<times> replicator) option" where
  "process_rest nested c skipMain source result r =
     (case process_main nested c skipMain source result r of
        None \<Rightarrow> None
      | Some (source', result', r2) \<Rightarrow>
          if rp_length r2 = 0 then Some (result', r2)
          else
            (let suffixLeft = min (c_interval c - source') (rp_length r2) in
             Some (result' + suffixLeft, rp_skip suffixLeft r2)))"

primrec process :: "cut_level list \<Rightarrow> replicator \<Rightarrow> (int \<times> replicator) option" where
  "process [] r = None"
| "process (c # nested) r =
     (if rp_length r = 0 then Some (0, r)
      else
        (let source = tmod (rp_position r) (c_interval c);
             (result, r1, skipMain) =
               (if source < c_prefix c
                then (let skipPrefix = min (c_prefix c - source) (rp_length r) in (skipPrefix, rp_skip skipPrefix r, 0))
                else (0, r, source - c_prefix c)) in
         if rp_length r1 = 0 then Some (result, r1)
         else
           process_rest (if nested = [] then None else Some (process nested)) c skipMain source result r1))"

text \<open>The loop over the segments of the source, at most one round for each.\<close>

fun cut_loop :: "nat \<Rightarrow> cut_level list \<Rightarrow> replicator \<Rightarrow> replicator option" where
  "cut_loop fuel levels r =
     (if rp_end r then Some r
      else
        (case fuel of
           0 \<Rightarrow> None
         | Suc fuel' \<Rightarrow>
             (case process levels r of
                None \<Rightarrow> None
              | Some (_, r1) \<Rightarrow> cut_loop fuel' levels (rp_next r1))))"

declare cut_loop.simps [simp del]

definition cut :: "int list \<Rightarrow> int list \<Rightarrow> int list \<Rightarrow> int list \<Rightarrow> bitmap \<Rightarrow> bitmap option" where
  "cut lowerOrigin upperOrigin lowerResult upperResult bm =
     (let r = BitmapReplicator (bm_segs bm) in
      if rp_end r then Some (rp_result r)
      else
        map_option rp_result
          (cut_loop (nSegments bm) (fst (Cut_init lowerOrigin upperOrigin lowerResult upperResult)) r))"

end
