(* ===== verification/Rle_Cut_Cells.thy ===== *)
theory Rle_Cut_Cells
  imports Rle_Cut
begin

text \<open>
  The correctness of the cut: what the replicator copies, what one line of a level
  contributes, and that the whole selects the cells of a box.
\<close>

section \<open>Copying runs\<close>

text \<open>The cells of a segment from one offset to another.\<close>

definition run_cells :: "bm_segment \<Rightarrow> int \<Rightarrow> int \<Rightarrow> (int \<times> int) list" where
  "run_cells S a b = map (\<lambda>i. (lPosition S + i, pPosition S + i)) [a..b - 1]"

lemma run_cells_empty [simp]: "b \<le> a \<Longrightarrow> run_cells S a b = []"
  by (simp add: run_cells_def)

lemma run_cells_split: "a \<le> b \<Longrightarrow> b \<le> c \<Longrightarrow> run_cells S a c = run_cells S a b @ run_cells S b c"
  using upto_split1 [of a b "c - 1"] by (cases "b = c") (auto simp: run_cells_def)

lemma mem_run_cells:
  "(l, p) \<in> set (run_cells S a b) \<longleftrightarrow> a \<le> l - lPosition S \<and> l - lPosition S < b \<and> p = pPosition S + (l - lPosition S)"
proof -
  have "(l, p) \<in> set (run_cells S a b)" if "a \<le> l - lPosition S" "l - lPosition S < b" "p = pPosition S + (l - lPosition S)"
    using that by (auto simp: run_cells_def image_iff intro!: bexI [of _ "l - lPosition S"])
  then show ?thesis by (auto simp: run_cells_def)
qed

lemma seg_cells_run: "seg_cells S = run_cells S 0 (seg_length S)"
proof -
  have "[0..seg_length S - 1] = map int [0..<nat (seg_length S)]"
    by (rule nth_equalityI) (simp_all add: nth_upto)
  then show ?thesis by (simp add: seg_cells_def run_cells_def comp_def)
qed

text \<open>The source of a replicator stands at an offset of a segment.\<close>

definition rp_at :: "bm_segment \<Rightarrow> int \<Rightarrow> replicator \<Rightarrow> bool" where
  "rp_at S k r \<longleftrightarrow> 0 \<le> k \<and> k \<le> seg_length S \<and>
     rp_sourceSegment r = \<lparr>lPosition = lPosition S + k, seg_length = seg_length S - k, pPosition = pPosition S + k\<rparr>"

definition rp_out :: "replicator \<Rightarrow> (int \<times> int) list" where
  "rp_out r = cells (rp_resultBitmap r) @ seg_cells (rp_resultSegment r)"

definition rp_segs :: "replicator \<Rightarrow> bm_segment list" where
  "rp_segs r = bm_segs (rp_resultBitmap r) @ (if 0 < seg_length (rp_resultSegment r) then [rp_resultSegment r] else [])"

definition rp_ok :: "replicator \<Rightarrow> bool" where
  "rp_ok r \<longleftrightarrow> 0 \<le> seg_length (rp_resultSegment r) \<and> segs_ok 0 0 (rp_segs r) \<and>
     nNonEmptyElements (rp_resultBitmap r) = int (length (cells (rp_resultBitmap r)))"

definition same_source :: "replicator \<Rightarrow> replicator \<Rightarrow> bool" where
  "same_source r r' \<longleftrightarrow> rp_sourceArray r' = rp_sourceArray r \<and> rp_sourceIndex r' = rp_sourceIndex r"

text \<open>Value indexes that follow the positions.\<close>

definition ranked :: "(int \<times> int) set \<Rightarrow> bool" where
  "ranked X \<longleftrightarrow> (\<forall>(l, p) \<in> X. \<forall>(l', p') \<in> X. 0 \<le> l \<and> 0 \<le> p \<and> (l < l' \<longrightarrow> p < p') \<and> (l' = l + 1 \<longrightarrow> p' = p + 1))"

lemma rankedD:
  assumes "ranked X" "(l, p) \<in> X"
  shows "0 \<le> l" "0 \<le> p" "(l', p') \<in> X \<Longrightarrow> l < l' \<Longrightarrow> p < p'" "(l + 1, p') \<in> X \<Longrightarrow> p' = p + 1"
  using assms unfolding ranked_def by fastforce+

lemma rp_at_simps:
  assumes "rp_at S k r"
  shows "rp_position r = lPosition S + k" "rp_length r = seg_length S - k"
    "lPosition (rp_sourceSegment r) = lPosition S + k" "pPosition (rp_sourceSegment r) = pPosition S + k"
  using assms by (simp_all add: rp_at_def rp_position_def rp_length_def)

lemma rp_skip_at:
  assumes "rp_at S k r" "0 \<le> k + n" "k + n \<le> seg_length S"
  shows "rp_at S (k + n) (rp_skip n r)" "rp_out (rp_skip n r) = rp_out r" "rp_ok (rp_skip n r) = rp_ok r"
    "same_source r (rp_skip n r)"
  using assms by (simp_all add: rp_at_def rp_skip_def Let_def rp_out_def rp_ok_def rp_segs_def same_source_def)

lemma seg_cells_extend:
  assumes "0 \<le> seg_length s" "0 \<le> n" "lPosition s + seg_length s = lPosition S + k" "pPosition s + seg_length s = pPosition S + k"
  shows "seg_cells (s\<lparr>seg_length := seg_length s + n\<rparr>) = seg_cells s @ run_cells S k (k + n)"
proof -
  have "seg_cells (s\<lparr>seg_length := seg_length s + n\<rparr>) = run_cells s 0 (seg_length s + n)"
    by (simp add: seg_cells_run run_cells_def)
  also have "\<dots> = run_cells s 0 (seg_length s) @ run_cells s (seg_length s) (seg_length s + n)"
    using assms(1,2) by (intro run_cells_split) simp_all
  also have "run_cells s (seg_length s) (seg_length s + n) = run_cells S k (k + n)"
    by (intro nth_equalityI) (use assms in \<open>simp_all add: run_cells_def nth_upto\<close>)
  finally show ?thesis by (simp add: seg_cells_run)
qed

lemma segs_ok_snoc:
  assumes "segs_ok l p ss" "0 < seg_length s"
    and "if ss = [] then l \<le> lPosition s \<and> p \<le> pPosition s
         else lPosition (last ss) + seg_length (last ss) \<le> lPosition s \<and>
              pPosition (last ss) + seg_length (last ss) \<le> pPosition s"
  shows "segs_ok l p (ss @ [s])"
  using assms
proof (induction ss arbitrary: l p)
  case (Cons t ss)
  then show ?case by (cases "ss = []") auto
qed simp

lemma segment_eta:
  "s\<lparr>lPosition := a, pPosition := b, seg_length := n\<rparr> = \<lparr>lPosition = a, seg_length = n, pPosition = b\<rparr>"
  by (cases s) simp

lemma segs_ok_extend:
  "segs_ok l p (ss @ [s]) \<Longrightarrow> 0 \<le> n \<Longrightarrow> segs_ok l p (ss @ [s\<lparr>seg_length := seg_length s + n\<rparr>])"
  by (induction ss arbitrary: l p) auto

lemma last_cell:
  assumes "segs_ok l p (ss @ [s])"
  shows "(lPosition s + seg_length s - 1, pPosition s + seg_length s - 1) \<in> set (seg_cells s)" "0 < seg_length s"
proof -
  show "0 < seg_length s" using assms by (induction ss arbitrary: l p) auto
  then show "(lPosition s + seg_length s - 1, pPosition s + seg_length s - 1) \<in> set (seg_cells s)"
    by (simp add: mem_seg_cells)
qed

text \<open>Starting a new segment behind the ones there are.\<close>

lemma segs_ok_new:
  assumes ok: "segs_ok 0 0 ss" and X: "ranked X" "set (concat (map seg_cells ss)) \<subseteq> X" "(l, p) \<in> X"
    and front: "\<forall>x \<in> set (concat (map seg_cells ss)). fst x < l" and n: "0 < n"
  shows "segs_ok 0 0 (ss @ [\<lparr>lPosition = l, seg_length = n, pPosition = p\<rparr>])"
proof (rule segs_ok_snoc [OF ok])
  have z: "0 \<le> l" "0 \<le> p" using rankedD(1,2) [OF X(1,3)] by simp_all
  have "lPosition (last ss) + seg_length (last ss) \<le> l \<and> pPosition (last ss) + seg_length (last ss) \<le> p" if ne: "ss \<noteq> []"
  proof -
    obtain ts t where ss: "ss = ts @ [t]" using append_butlast_last_id [OF ne] by metis
    have m: "(lPosition t + seg_length t - 1, pPosition t + seg_length t - 1) \<in> set (concat (map seg_cells ss))"
      using last_cell(1) ok ss by auto
    then have "lPosition t + seg_length t - 1 < l" using front by (metis fst_conv)
    moreover have "pPosition t + seg_length t - 1 < p"
      using rankedD(3) [OF X(1) subsetD [OF X(2) m] X(3)] calculation by simp
    ultimately show ?thesis by (simp add: ss)
  qed
  then show "if ss = [] then 0 \<le> lPosition \<lparr>lPosition = l, seg_length = n, pPosition = p\<rparr> \<and>
      0 \<le> pPosition \<lparr>lPosition = l, seg_length = n, pPosition = p\<rparr>
    else lPosition (last ss) + seg_length (last ss) \<le> lPosition \<lparr>lPosition = l, seg_length = n, pPosition = p\<rparr> \<and>
      pPosition (last ss) + seg_length (last ss) \<le> pPosition \<lparr>lPosition = l, seg_length = n, pPosition = p\<rparr>"
    using z by simp
qed (use n in simp)

lemma rp_segs_cells: "0 \<le> seg_length (rp_resultSegment r) \<Longrightarrow> concat (map seg_cells (rp_segs r)) = rp_out r"
  by (auto simp: rp_segs_def rp_out_def cells_def seg_cells_def)

lemma rp_flush_result:
  assumes "rp_ok r"
  shows "rp_out (rp_flush r) = rp_out r" "rp_ok (rp_flush r)" "same_source r (rp_flush r)"
    "seg_length (rp_resultSegment (rp_flush r)) = 0" "rp_sourceSegment (rp_flush r) = rp_sourceSegment r"
    "rp_segs (rp_flush r) = rp_segs r" "cells (rp_resultBitmap (rp_flush r)) = rp_out r"
  using assms
  by (auto simp: rp_flush_def rp_out_def rp_ok_def rp_segs_def same_source_def addSegment_def cells_def seg_cells_def)

lemma rp_copy_result:
  assumes at: "rp_at S k r" and n: "0 < n" "k + n \<le> seg_length S" and ok: "rp_ok r"
    and X: "ranked X" "set (rp_out r) \<subseteq> X" "set (seg_cells S) \<subseteq> X"
    and front: "\<forall>x \<in> set (rp_out r). fst x < lPosition S + k"
  shows "rp_at S (k + n) (rp_copy n r)" "rp_out (rp_copy n r) = rp_out r @ run_cells S k (k + n)" "rp_ok (rp_copy n r)"
    "same_source r (rp_copy n r)"
proof -
  note s = rp_at_simps(3,4) [OF at]
  have k: "0 \<le> k" using at by (simp add: rp_at_def)
  have mem: "(lPosition S + k, pPosition S + k) \<in> X" using X(3) k n by (auto simp: mem_seg_cells)
  define rs where "rs = rp_resultSegment r"
  define r1 where "r1 = (if 0 < seg_length rs \<and> lPosition rs + seg_length rs < lPosition (rp_sourceSegment r)
                then rp_flush r else r)"
  have r1: "rp_out r1 = rp_out r" "rp_ok r1" "same_source r r1" "rp_sourceSegment r1 = rp_sourceSegment r" "rp_segs r1 = rp_segs r"
    using rp_flush_result [OF ok] ok by (simp_all add: r1_def same_source_def)
  define rs1 where "rs1 = rp_resultSegment r1"
  define new where "new = (if seg_length rs1 = 0 then \<lparr>lPosition = lPosition S + k, seg_length = n, pPosition = pPosition S + k\<rparr>
      else rs1\<lparr>seg_length := seg_length rs1 + n\<rparr>)"
  define r2 where "r2 = r1\<lparr>rp_resultSegment := new\<rparr>"
  have c: "rp_copy n r = rp_skip n r2"
    using s r1(4) unfolding rp_copy_def Let_def rs_def [symmetric] r1_def [symmetric] rs1_def [symmetric]
    by (simp add: r2_def new_def rs1_def segment_eta)
  have "rp_at S k r2" using at r1(4) by (simp add: rp_at_def r2_def)
  note sk = rp_skip_at [OF this, of n]
  have main: "rp_out r2 = rp_out r @ run_cells S k (k + n) \<and> rp_ok r2"
  proof (cases "seg_length rs1 = 0")
    case True
    have segs: "rp_segs r2 = rp_segs r @ [new]"
      using True r1(5) n(1) by (simp add: rp_segs_def r2_def rs1_def new_def)
    have ok1: "0 \<le> seg_length (rp_resultSegment r)" "segs_ok 0 0 (rp_segs r)" using ok by (simp_all add: rp_ok_def)
    have "segs_ok 0 0 (rp_segs r @ [new])"
      unfolding new_def if_P [OF True] using segs_ok_new [OF ok1(2) X(1) _ mem _ n(1)] X(2) front
      by (simp add: rp_segs_cells [OF ok1(1)] del: set_concat set_map)
    moreover have "seg_cells new = run_cells S k (k + n)"
      using seg_cells_extend [of "\<lparr>lPosition = lPosition S + k, seg_length = 0, pPosition = pPosition S + k\<rparr>" n S k] n(1)
      by (simp add: new_def True seg_cells_def)
    ultimately show ?thesis
      using r1(1,2) True n(1) unfolding rp_ok_def segs
      by (simp add: rp_out_def r2_def rs1_def [symmetric] new_def) (simp add: seg_cells_def)
  next
    case False
    then have pos: "0 < seg_length rs1" using r1(2) by (simp add: rp_ok_def rs1_def)
    have e: "r1 = r" using False rp_flush_result(4) [OF ok] by (auto simp: r1_def rs1_def)
    then have rs1: "rs1 = rs" "\<not> lPosition rs + seg_length rs < lPosition S + k"
      using pos rp_flush_result(4) [OF ok] s by (auto simp: r1_def rs1_def rs_def split: if_splits)
    have "segs_ok 0 0 (bm_segs (rp_resultBitmap r) @ [rs])" using ok pos by (simp add: rp_ok_def rp_segs_def rs1(1) rs_def [symmetric])
    note l = last_cell [OF this]
    have lx: "(lPosition rs + seg_length rs - 1, pPosition rs + seg_length rs - 1) \<in> set (rp_out r)"
      using l(1) by (simp add: rp_out_def rs_def [symmetric])
    then have "lPosition rs + seg_length rs - 1 < lPosition S + k" using front by (metis fst_conv)
    then have lp: "lPosition rs + seg_length rs = lPosition S + k" using rs1(2) by simp
    have "pPosition S + k = pPosition rs + seg_length rs - 1 + 1"
      using rankedD(4) [OF X(1) subsetD [OF X(2) lx], of "pPosition S + k"] mem lp by simp
    then have pp: "pPosition rs + seg_length rs = pPosition S + k" by simp
    have new: "new = rs\<lparr>seg_length := seg_length rs + n\<rparr>" using False by (simp add: new_def rs1)
    have "segs_ok 0 0 (bm_segs (rp_resultBitmap r) @ [new])"
      unfolding new using segs_ok_extend [of 0 0 "bm_segs (rp_resultBitmap r)" rs n] ok pos n(1)
      by (simp add: rp_ok_def rp_segs_def rs1(1) rs_def [symmetric])
    then show ?thesis
      using ok pos n(1) seg_cells_extend [OF _ _ lp pp, of n] e new
      by (simp add: rp_ok_def rp_segs_def rp_out_def r2_def rs1(1) rs_def [symmetric])
  qed
  show "rp_at S (k + n) (rp_copy n r)" "rp_out (rp_copy n r) = rp_out r @ run_cells S k (k + n)" "rp_ok (rp_copy n r)"
    "same_source r (rp_copy n r)"
    using sk n k main r1(3) unfolding c by (simp_all add: same_source_def r2_def)
qed

section \<open>What is cut\<close>

definition in_level :: "cut_level \<Rightarrow> int \<Rightarrow> bool" where
  "in_level c pos \<longleftrightarrow> c_prefix c \<le> pos mod c_interval c \<and> pos mod c_interval c < c_interval c - c_suffix c"

definition in_cut :: "cut_level list \<Rightarrow> int \<Rightarrow> bool" where
  "in_cut levels pos \<longleftrightarrow> (\<forall>c \<in> set levels. in_level c pos)"

definition level_ok :: "cut_level \<Rightarrow> bool" where
  "level_ok c \<longleftrightarrow> 0 \<le> c_prefix c \<and> 0 \<le> c_suffix c \<and> 0 < c_main c \<and> c_main c = c_interval c - c_prefix c - c_suffix c"

text \<open>The parts of a level are whole lines of the next one.\<close>

fun levels_ok :: "cut_level list \<Rightarrow> bool" where
  "levels_ok [] \<longleftrightarrow> True"
| "levels_ok (c # ds) \<longleftrightarrow>
     level_ok c \<and> levels_ok ds \<and>
     (ds \<noteq> [] \<longrightarrow> c_interval (hd ds) dvd c_prefix c \<and> c_interval (hd ds) dvd c_main c \<and> c_interval (hd ds) dvd c_suffix c)"

definition line_end :: "cut_level \<Rightarrow> int \<Rightarrow> int" where
  "line_end c pos = pos - pos mod c_interval c + c_interval c"

lemma mod_line:
  fixes x :: int
  assumes "I dvd base" "base \<le> x" "x < base + I"
  shows "x mod I = x - base"
proof -
  obtain q where "base = q * I" using assms(1) by (metis dvd_div_mult_self)
  then show ?thesis using assms(2,3) by (metis add_diff_cancel_left' diff_add_cancel diff_ge_0_iff_ge less_diff_eq
      mod_mult_self4 mod_pos_pos_trivial mult.commute add.commute)
qed

lemma filter_run_eq:
  assumes "\<And>i. k2 \<le> i \<and> i < k' \<or> k' \<le> i \<and> i < k2 \<Longrightarrow> \<not> P (lPosition S + i)" "k \<le> k2" "k \<le> k'"
  shows "filter (P \<circ> fst) (run_cells S k k2) = filter (P \<circ> fst) (run_cells S k k')"
proof -
  have none: "filter (P \<circ> fst) (run_cells S a b) = []" if "\<And>i. a \<le> i \<and> i < b \<Longrightarrow> \<not> P (lPosition S + i)" for a b
    using that by (auto simp: filter_empty_conv mem_run_cells)
       (metis add.commute diff_add_cancel)
  show ?thesis
  proof (cases "k2 \<le> k'")
    case True
    then show ?thesis using run_cells_split [OF assms(2) True, of S] none [of k2 k'] assms(1) by simp
  next
    case False
    then show ?thesis using run_cells_split [OF assms(3), of k2 S] none [of k' k2] assms(1) by simp
  qed
qed

lemma filter_run_cong:
  assumes "\<And>i. a \<le> i \<Longrightarrow> i < b \<Longrightarrow> P (lPosition S + i) = Q (lPosition S + i)"
  shows "filter (P \<circ> fst) (run_cells S a b) = filter (Q \<circ> fst) (run_cells S a b)"
proof (rule filter_cong [OF refl])
  fix x assume x: "x \<in> set (run_cells S a b)"
  obtain l p where "x = (l, p)" by fastforce
  then show "(P \<circ> fst) x = (Q \<circ> fst) x"
    using x assms [of "l - lPosition S"] by (simp add: mem_run_cells)
qed

definition rp_state :: "(int \<times> int) set \<Rightarrow> bm_segment \<Rightarrow> int \<Rightarrow> replicator \<Rightarrow> bool" where
  "rp_state X S k r \<longleftrightarrow> rp_at S k r \<and> rp_ok r \<and> ranked X \<and> set (rp_out r) \<subseteq> X \<and> set (seg_cells S) \<subseteq> X \<and>
     (\<forall>x \<in> set (rp_out r). fst x < lPosition S + k)"

text \<open>The source has moved from \<open>k\<close> to \<open>k'\<close>, and the cells between that satisfy \<open>P\<close> were copied.\<close>

definition moved :: "(int \<Rightarrow> bool) \<Rightarrow> bm_segment \<Rightarrow> int \<Rightarrow> replicator \<Rightarrow> int \<Rightarrow> replicator \<Rightarrow> bool" where
  "moved P S k r k' r' \<longleftrightarrow> rp_at S k' r' \<and> rp_ok r' \<and> same_source r r' \<and>
     rp_out r' = rp_out r @ filter (P \<circ> fst) (run_cells S k k')"

lemma moved_state:
  assumes "rp_state X S k r" "moved P S k r k' r'" "k \<le> k'"
  shows "rp_state X S k' r'"
proof -
  have k: "0 \<le> k" "k' \<le> seg_length S" using assms by (auto simp: rp_state_def moved_def rp_at_def)
  have run: "x \<in> X \<and> fst x < lPosition S + k'" if "x \<in> set (run_cells S k k')" for x
  proof -
    obtain l p where x: "x = (l, p)" by fastforce
    then have "x \<in> set (seg_cells S)" using that k by (simp add: mem_run_cells seg_cells_run)
    then show ?thesis using x that assms(1) by (auto simp: rp_state_def mem_run_cells)
  qed
  have old: "x \<in> X \<and> fst x < lPosition S + k'" if "x \<in> set (rp_out r)" for x
    using that assms(1,3) by (force simp: rp_state_def)
  then show ?thesis using assms run by (auto simp: rp_state_def moved_def)
qed

lemma moved_trans:
  assumes "moved P S k r k1 r1" "moved P S k1 r1 k2 r2" "k \<le> k1" "k1 \<le> k2"
  shows "moved P S k r k2 r2"
  using assms run_cells_split [OF assms(3,4), of S] by (simp add: moved_def same_source_def)

lemma moved_skip:
  assumes "rp_state X S k r" "moved P S k r k1 r1" "k \<le> k1" "k \<le> k'" "k' \<le> seg_length S"
    and "\<And>i. k1 \<le> i \<and> i < k' \<or> k' \<le> i \<and> i < k1 \<Longrightarrow> \<not> P (lPosition S + i)"
  shows "moved P S k r k' (rp_skip (k' - k1) r1)"
proof -
  have "0 \<le> k'" using assms(1,4) by (simp add: rp_state_def rp_at_def)
  then show ?thesis
    using assms(2) rp_skip_at [of S k1 r1 "k' - k1"] filter_run_eq [of k1 k' P S k, OF assms(6,3,4)] assms(5)
    by (auto simp: moved_def same_source_def)
qed

lemma moved_refl: "rp_state X S k r \<Longrightarrow> moved P S k r k r"
  by (simp add: moved_def rp_state_def same_source_def)

lemma moved_copy:
  assumes "rp_state X S k r" "0 < n" "k + n \<le> seg_length S" "\<And>i. k \<le> i \<and> i < k + n \<Longrightarrow> P (lPosition S + i)"
  shows "moved P S k r (k + n) (rp_copy n r)"
proof -
  have "filter (P \<circ> fst) (run_cells S k (k + n)) = run_cells S k (k + n)"
    using assms(4) by (intro filter_True) (force simp: mem_run_cells)
  then show ?thesis
    using rp_copy_result [of S k r n X] assms(1-3) by (auto simp: moved_def rp_state_def)
qed

section \<open>One line of a cut\<close>

lemma line_end_le:
  assumes "0 < c_interval c" "c_interval c dvd m" "x < m"
  shows "line_end c x \<le> m"
proof -
  let ?I = "c_interval c"
  obtain q where q: "m = ?I * q" using assms(2) by (auto elim: dvdE)
  have m: "?I * (x div ?I) = x - x mod ?I" by (rule minus_mod_eq_mult_div [symmetric])
  have "?I * (x div ?I) < ?I * q" using m pos_mod_sign [OF assms(1), of x] assms(3) unfolding q by linarith
  then have "x div ?I < q" using assms(1) by (simp only: mult_less_cancel_left_pos)
  then have "?I * (x div ?I + 1) \<le> ?I * q" using assms(1) by (intro mult_left_mono) simp_all
  then have "?I * (x div ?I) + ?I \<le> m" by (simp add: q distrib_left)
  then show ?thesis unfolding line_end_def using m by linarith
qed

text \<open>What processing one line does: it ends at the end of the line or of the segment, or in a part behind it that is not cut.\<close>

definition line_spec ::
  "(replicator \<Rightarrow> (int \<times> replicator) option) \<Rightarrow> cut_level \<Rightarrow> (int \<Rightarrow> bool) \<Rightarrow> (int \<times> int) set \<Rightarrow> bm_segment \<Rightarrow> bool" where
  "line_spec f c P X S \<longleftrightarrow>
     (\<forall>k r. rp_state X S k r \<longrightarrow> k < seg_length S \<longrightarrow>
        (\<exists>k' r'. f r = Some (k' - k, r') \<and> k < k' \<and> moved P S k r k' r' \<and>
           min (seg_length S) (line_end c (lPosition S + k) - lPosition S) \<le> k' \<and>
           (\<forall>i. line_end c (lPosition S + k) - lPosition S \<le> i \<longrightarrow> i < k' \<longrightarrow> \<not> P (lPosition S + i))))"

lemma line_specE:
  assumes "line_spec f c P X S" "rp_state X S k r" "k < seg_length S"
  obtains k' r' where "f r = Some (k' - k, r')" "k < k'" "moved P S k r k' r'"
    "min (seg_length S) (line_end c (lPosition S + k) - lPosition S) \<le> k'"
    "\<And>i. line_end c (lPosition S + k) - lPosition S \<le> i \<Longrightarrow> i < k' \<Longrightarrow> \<not> P (lPosition S + i)"
  using assms unfolding line_spec_def by blast

lemma process_loop_result:
  assumes f: "line_spec f c P X S" and c: "0 < c_interval c" "c_interval c dvd lPosition S + M"
    and "rp_state X S k r" "min M (seg_length S) - k \<le> int fuel" "\<And>i. M \<le> i \<Longrightarrow> i < k \<Longrightarrow> \<not> P (lPosition S + i)"
  shows "\<exists>k2 r2. process_loop f fuel (min M (seg_length S) - k) source result r = Some (source + (k2 - k), result + (k2 - k), r2) \<and>
     moved P S k r k2 r2 \<and> k \<le> k2 \<and> min M (seg_length S) \<le> k2 \<and> (\<forall>i. M \<le> i \<longrightarrow> i < k2 \<longrightarrow> \<not> P (lPosition S + i))"
  using assms(4-6)
proof (induction fuel arbitrary: k r source result)
  case 0
  then show ?case using moved_refl [OF 0(1)] by (intro exI [of _ k] exI [of _ r]) (auto simp: process_loop.simps min_le_iff_disj not_less)
next
  case (Suc fuel)
  show ?case
  proof (cases "0 < min M (seg_length S) - k")
    case False
    then show ?thesis using moved_refl [OF Suc.prems(1)] Suc.prems(3)
      by (intro exI [of _ k] exI [of _ r]) (auto simp: process_loop.simps min_le_iff_disj not_less)
  next
    case True
    then obtain k' r' where step: "f r = Some (k' - k, r')" "k < k'" "moved P S k r k' r'"
        and none: "\<And>i. line_end c (lPosition S + k) - lPosition S \<le> i \<Longrightarrow> i < k' \<Longrightarrow> \<not> P (lPosition S + i)"
      using line_specE [OF f Suc.prems(1)] by (metis diff_gt_0_iff_gt min_less_iff_conj)
    have "line_end c (lPosition S + k) \<le> lPosition S + M" using line_end_le [OF c] True by simp
    then have none': "\<not> P (lPosition S + i)" if "M \<le> i" "i < k'" for i using none that by simp
    have st: "rp_state X S k' r'" using moved_state [OF Suc.prems(1) step(3)] step(2) by simp
    have b: "min M (seg_length S) - k' \<le> int fuel" using Suc.prems(2) step(2) by simp
    obtain k2 r2 where l: "process_loop f fuel (min M (seg_length S) - k') (source + (k' - k)) (result + (k' - k)) r' =
          Some (source + (k' - k) + (k2 - k'), result + (k' - k) + (k2 - k'), r2)"
        and k2: "moved P S k' r' k2 r2" "k' \<le> k2" "min M (seg_length S) \<le> k2"
        "\<forall>i. M \<le> i \<longrightarrow> i < k2 \<longrightarrow> \<not> P (lPosition S + i)"
      using Suc.IH [OF st b none', of "source + (k' - k)" "result + (k' - k)"] by blast
    have "process_loop f (Suc fuel) (min M (seg_length S) - k) source result r = Some (source + (k2 - k), result + (k2 - k), r2)"
      using True l by (simp add: process_loop.simps [of f "Suc fuel"] step(1))
    then show ?thesis using k2 moved_trans [OF step(3) k2(1)] step(2) by (intro exI [of _ k2] exI [of _ r2]) simp
  qed
qed

lemma moved_cong:
  assumes "moved P S k r k' r'" "\<And>i. k \<le> i \<Longrightarrow> i < k' \<Longrightarrow> P (lPosition S + i) = Q (lPosition S + i)"
  shows "moved Q S k r k' r'"
  using assms filter_run_cong [of k k' P S Q] by (simp add: moved_def)

lemma int_nat_bound: "(n :: int) \<le> int (nat n)"
  by simp

text \<open>
  The part that copies, for a source at the offset \<open>k\<close> of the segment when the main part of
  the line is from \<open>M - c_main c\<close> to \<open>M\<close>.
\<close>

lemma process_main_result:
  assumes st: "rp_state X S k r" and k: "k < seg_length S"
    and Q: "\<And>i. k \<le> i \<Longrightarrow> i < M \<Longrightarrow> P (lPosition S + i) \<Longrightarrow> Q (lPosition S + i)"
      "\<And>i. Q (lPosition S + i) \<Longrightarrow> P (lPosition S + i)"
    and nested: "case nested of None \<Rightarrow> \<forall>x. P x
      | Some f \<Rightarrow> \<exists>d. line_spec f d P X S \<and> 0 < c_interval d \<and> c_interval d dvd lPosition S + M"
  shows "\<exists>k2 r2. process_main nested c (c_main c - (M - k)) source result r = Some (source + (k2 - k), result + (k2 - k), r2) \<and>
     moved Q S k r k2 r2 \<and> k \<le> k2 \<and> min M (seg_length S) \<le> k2 \<and> (\<forall>i. M \<le> i \<longrightarrow> k \<le> i \<longrightarrow> i < k2 \<longrightarrow> \<not> Q (lPosition S + i))"
proof (cases "k < M")
  case False
  then show ?thesis using moved_refl [OF st] k by (intro exI [of _ k] exI [of _ r]) (simp add: process_main_def)
next
  case True
  have len: "rp_length r = seg_length S - k" using st rp_at_simps(2) by (simp add: rp_state_def)
  have copy: "min (M - k) (seg_length S - k) = min M (seg_length S) - k" by simp
  show ?thesis
  proof (cases nested)
    case None
    let ?n = "min M (seg_length S) - k"
    have "moved Q S k r (k + ?n) (rp_copy ?n r)"
      by (rule moved_copy [OF st]) (use None nested True k Q(1) in auto)
    then show ?thesis using True k copy None
      by (intro exI [of _ "min M (seg_length S)"] exI [of _ "rp_copy ?n r"]) (simp add: process_main_def len Let_def)
  next
    case (Some f)
    then obtain d where d: "line_spec f d P X S" "0 < c_interval d" "c_interval d dvd lPosition S + M" using nested by auto
    have none: "\<not> P (lPosition S + i)" if "M \<le> i" "i < k" for i using that True by simp
    obtain k2 r2 where l: "process_loop f (nat (min M (seg_length S) - k)) (min M (seg_length S) - k) source result r =
          Some (source + (k2 - k), result + (k2 - k), r2)"
        and k2: "moved P S k r k2 r2" "k \<le> k2" "min M (seg_length S) \<le> k2" "\<forall>i. M \<le> i \<longrightarrow> i < k2 \<longrightarrow> \<not> P (lPosition S + i)"
      using process_loop_result [OF d st int_nat_bound none, of source result] by blast
    have "moved Q S k r k2 r2" by (rule moved_cong [OF k2(1)]) (use Q k2(4) linorder_not_le in blast)
    moreover have "process_main nested c (c_main c - (M - k)) source result r = Some (source + (k2 - k), result + (k2 - k), r2)"
      using True l by (simp add: process_main_def len Some Let_def copy)
    ultimately show ?thesis using k2 Q(2) by blast
  qed
qed

lemma level_okD:
  assumes "level_ok c"
  shows "0 \<le> c_prefix c" "0 \<le> c_suffix c" "0 < c_main c" "c_main c = c_interval c - c_prefix c - c_suffix c"
    "0 < c_interval c" "c_prefix c < c_interval c"
  using assms by (auto simp: level_ok_def)

text \<open>Where the positions of a line are: in front of, in and behind the main part, then in the next line.\<close>

lemma in_level_line:
  assumes "level_ok c" "E = line_end c x"
  shows "E - c_interval c \<le> y \<Longrightarrow> y < E \<Longrightarrow> in_level c y \<longleftrightarrow> E - c_interval c + c_prefix c \<le> y \<and> y < E - c_suffix c"
    "E \<le> y \<Longrightarrow> y < E + c_prefix c \<Longrightarrow> \<not> in_level c y"
proof -
  note ok = level_okD [OF assms(1)]
  have d: "c_interval c dvd E - c_interval c" "c_interval c dvd E"
    by (simp_all add: assms(2) line_end_def)
  show "in_level c y \<longleftrightarrow> E - c_interval c + c_prefix c \<le> y \<and> y < E - c_suffix c" if "E - c_interval c \<le> y" "y < E"
  proof -
    have "y mod c_interval c = y - (E - c_interval c)" by (rule mod_line [OF d(1)]) (use that in simp_all)
    then show ?thesis by (auto simp: in_level_def)
  qed
  show "\<not> in_level c y" if "E \<le> y" "y < E + c_prefix c"
  proof -
    have "y mod c_interval c = y - E" by (rule mod_line [OF d(2)]) (use that ok(6) in simp_all)
    then show ?thesis using that by (auto simp: in_level_def)
  qed
qed

text \<open>The tail of \<^verbatim>\<open>process\<close>, from the main part on, for a source that stood at \<open>k\<close> and now is at \<open>k1\<close>.\<close>

lemma process_tail:
  assumes st: "rp_state X S k r" and mv: "moved Q S k r k1 r1" and k: "k \<le> k1" "k1 < seg_length S" "k < E" "k1 < E"
    and k12: "result = k1 - k" "skipMain = c_main c - (M - k1)" "M = E - c_suffix c" "source = c_interval c - (E - k)" "0 \<le> c_suffix c"
    and Q: "\<And>i. k1 \<le> i \<Longrightarrow> i < M \<Longrightarrow> P (lPosition S + i) \<Longrightarrow> Q (lPosition S + i)"
      "\<And>i. Q (lPosition S + i) \<Longrightarrow> P (lPosition S + i)"
      "\<And>i. M \<le> i \<Longrightarrow> k1 \<le> i \<Longrightarrow> i < E + (k1 - k) \<Longrightarrow> \<not> Q (lPosition S + i)"
    and nested: "case nested of None \<Rightarrow> \<forall>x. P x
      | Some f \<Rightarrow> \<exists>d. line_spec f d P X S \<and> 0 < c_interval d \<and> c_interval d dvd lPosition S + M"
  shows "\<exists>k' r'. process_rest nested c skipMain source result r1 = Some (k' - k, r') \<and> k < k' \<and> moved Q S k r k' r' \<and>
          min (seg_length S) E \<le> k' \<and> (\<forall>i. E \<le> i \<longrightarrow> i < k' \<longrightarrow> \<not> Q (lPosition S + i))"
proof -
  have st1: "rp_state X S k1 r1" by (rule moved_state [OF st mv k(1)])
  obtain k2 r2 where pm: "process_main nested c skipMain source result r1 = Some (source + (k2 - k1), result + (k2 - k1), r2)"
      and k2: "moved Q S k1 r1 k2 r2" "k1 \<le> k2" "min M (seg_length S) \<le> k2"
        "\<And>i. M \<le> i \<Longrightarrow> k1 \<le> i \<Longrightarrow> i < k2 \<Longrightarrow> \<not> Q (lPosition S + i)"
    using process_main_result [where P = P and Q = Q and M = M, OF st1 k(2) Q(1,2) nested, of c source result] unfolding k12(2) by blast
  have mv2: "moved Q S k r k2 r2" by (rule moved_trans [OF mv k2(1) k(1) k2(2)])
  have len: "rp_length r2 = seg_length S - k2" "k2 \<le> seg_length S" using mv2 rp_at_simps(2) by (simp_all add: moved_def rp_at_def)
  show ?thesis
  proof (cases "k2 = seg_length S")
    case True
    have "\<not> Q (lPosition S + i)" if "E \<le> i" "i < k2" for i by (rule k2(4)) (use that k k12(3,5) in simp_all)
    then show ?thesis using mv2 k(1-3) k2(2) True unfolding process_rest_def pm
      by (intro exI [of _ k2] exI [of _ r2]) (simp add: len(1) k12(1))
  next
    case False
    define k' where "k' = min (E + (k1 - k)) (seg_length S)"
    have M: "M \<le> k2" using False k2(3) len(2) by simp
    have left: "min (c_interval c - (source + (k2 - k1))) (seg_length S - k2) = k' - k2" by (simp add: k'_def k12(4))
    have kk: "k < k'" "k' \<le> seg_length S" "min (seg_length S) E \<le> k'" "M \<le> k'" "k1 \<le> k'" using k M len(2) k12(3,5) by (simp_all add: k'_def)
    have none: "\<not> Q (lPosition S + i)" if i: "k2 \<le> i \<and> i < k' \<or> k' \<le> i \<and> i < k2" for i
    proof -
      have "M \<le> i" "k1 \<le> i" "i < k2 \<or> i < E + (k1 - k)" using i M kk(4,5) k2(2) by (auto simp: k'_def)
      then show ?thesis using k2(4) Q(3) by blast
    qed
    have "moved Q S k r k' (rp_skip (k' - k2) r2)"
      by (rule moved_skip [OF st mv2 _ _ kk(2) none]) (use k(1) k2(2) kk(1) in simp_all)
    moreover have "\<not> Q (lPosition S + i)" if "E \<le> i" "i < k'" for i
      by (rule Q(3)) (use that k k12(3,5) in \<open>simp_all add: k'_def\<close>)
    ultimately show ?thesis using False kk unfolding process_rest_def pm
      by (intro exI [of _ k'] exI [of _ "rp_skip (k' - k2) r2"]) (simp add: len(1) left Let_def k12(1))
  qed
qed

lemma in_cut_Cons: "in_cut (c # nested) x \<longleftrightarrow> in_level c x \<and> in_cut nested x"
  by (simp add: in_cut_def)

lemma in_cut_Nil [simp]: "in_cut [] x"
  by (simp add: in_cut_def)

lemma in_cut_line:
  assumes "level_ok c" "l + E = line_end c (l + k)" "k - (l + k) mod c_interval c = B"
  shows "B + c_prefix c \<le> i \<Longrightarrow> i < E - c_suffix c \<Longrightarrow> in_cut nested (l + i) \<Longrightarrow> in_cut (c # nested) (l + i)"
    "B \<le> i \<Longrightarrow> i < B + c_prefix c \<Longrightarrow> \<not> in_cut (c # nested) (l + i)"
    "E - c_suffix c \<le> i \<Longrightarrow> i < E + c_prefix c \<Longrightarrow> B \<le> i \<Longrightarrow> \<not> in_cut (c # nested) (l + i)"
proof -
  note ok = level_okD [OF assms(1)]
  note lv = in_level_line [OF assms(1,2), of "l + i"]
  have E: "E = B + c_interval c" using assms(2,3) unfolding line_end_def by linarith
  show "in_cut (c # nested) (l + i)" if "B + c_prefix c \<le> i" "i < E - c_suffix c" "in_cut nested (l + i)"
    using that lv(1) ok(1,2) by (simp add: in_cut_Cons E)
  show "\<not> in_cut (c # nested) (l + i)" if "B \<le> i" "i < B + c_prefix c"
    using that lv(1) ok by (simp add: in_cut_Cons E)
  show "\<not> in_cut (c # nested) (l + i)" if "E - c_suffix c \<le> i" "i < E + c_prefix c" "B \<le> i"
    using that lv by (cases "i < E") (simp_all add: in_cut_Cons E)
qed

text \<open>The end of the main part is the end of a line of the nested level.\<close>

lemma nested_lines:
  assumes "levels_ok (c # nested)" "nested \<noteq> []" "E = line_end c x"
  shows "c_interval (hd nested) dvd E - c_suffix c" "0 < c_interval (hd nested)"
proof -
  have d: "c_interval (hd nested) dvd c_prefix c" "c_interval (hd nested) dvd c_main c" "c_interval (hd nested) dvd c_suffix c"
    and c: "level_ok c" using assms by auto
  then have "c_interval (hd nested) dvd c_prefix c + c_main c + c_suffix c" by (intro dvd_add)
  then have i: "c_interval (hd nested) dvd c_interval c" by (simp add: level_okD(4) [OF c])
  have "c_interval c dvd E" by (simp add: line_end_def assms(3))
  then have "c_interval (hd nested) dvd E" using i dvd_trans by blast
  then show "c_interval (hd nested) dvd E - c_suffix c" using d(3) by (rule dvd_diff)
  show "0 < c_interval (hd nested)" using assms(1,2) level_okD(5) by (cases nested) auto
qed

lemma process_Cons:
  assumes ok: "level_ok c" and st: "rp_state X S k r" and k: "k < seg_length S" and E: "lPosition S + E = line_end c (lPosition S + k)"
    and nested: "case (if nested = [] then None else Some (process nested)) of None \<Rightarrow> \<forall>x. in_cut nested x
      | Some f \<Rightarrow> \<exists>d. line_spec f d (in_cut nested) X S \<and> 0 < c_interval d \<and> c_interval d dvd lPosition S + (E - c_suffix c)"
  shows "\<exists>k' r'. process (c # nested) r = Some (k' - k, r') \<and> k < k' \<and> moved (in_cut (c # nested)) S k r k' r' \<and>
          min (seg_length S) E \<le> k' \<and> (\<forall>i. E \<le> i \<longrightarrow> i < k' \<longrightarrow> \<not> in_cut (c # nested) (lPosition S + i))"
proof -
  note c = level_okD [OF ok]
  define s where "s = (lPosition S + k) mod c_interval c"
  define B where "B = k - s"
  note cut = in_cut_line [OF ok E, where nested = nested and B = B, folded s_def, OF B_def [symmetric]]
  have s: "0 \<le> s" "s < c_interval c" using c(5) by (simp_all add: s_def)
  have EB: "E = B + c_interval c" using E unfolding line_end_def B_def s_def by linarith
  have at: "rp_position r = lPosition S + k" "rp_length r = seg_length S - k"
    using st rp_at_simps by (simp_all add: rp_state_def)
  have "(lPosition S + k, pPosition S + k) \<in> X" using st k by (auto simp: rp_state_def rp_at_def mem_seg_cells)
  then have "0 \<le> lPosition S + k" using rankedD(1) st unfolding rp_state_def by blast
  then have source: "tmod (rp_position r) (c_interval c) = s" by (simp add: at s_def c(5))
  have rest: "\<exists>k' r'. process_rest (if nested = [] then None else Some (process nested)) c (k1 - (B + c_prefix c)) s (k1 - k) r1 = Some (k' - k, r') \<and>
      k < k' \<and> moved (in_cut (c # nested)) S k r k' r' \<and> min (seg_length S) E \<le> k' \<and>
      (\<forall>i. E \<le> i \<longrightarrow> i < k' \<longrightarrow> \<not> in_cut (c # nested) (lPosition S + i))"
    if "moved (in_cut (c # nested)) S k r k1 r1" "k \<le> k1" "k1 < seg_length S" "k1 < E" "B + c_prefix c \<le> k1" "k1 - k \<le> c_prefix c" for k1 r1
  proof (rule process_tail [where P = "in_cut nested" and M = "E - c_suffix c", OF st that(1-3) _ that(4) refl _ refl _ c(2) _ _ _ nested])
    show "k < E" "s = c_interval c - (E - k)" using s by (simp_all add: EB B_def)
    show "k1 - (B + c_prefix c) = c_main c - (E - c_suffix c - k1)" by (simp add: EB c(4))
    show "in_cut (c # nested) (lPosition S + i)" if i: "k1 \<le> i" "i < E - c_suffix c" "in_cut nested (lPosition S + i)" for i
      by (rule cut(1)) (use i \<open>B + c_prefix c \<le> k1\<close> in simp_all)
    show "in_cut nested (lPosition S + i)" if i: "in_cut (c # nested) (lPosition S + i)" for i
      using i by (simp add: in_cut_Cons)
    show "\<not> in_cut (c # nested) (lPosition S + i)" if i: "E - c_suffix c \<le> i" "k1 \<le> i" "i < E + (k1 - k)" for i
      by (rule cut(3)) (use i \<open>k \<le> k1\<close> \<open>k1 - k \<le> c_prefix c\<close> s(1) in \<open>simp_all add: B_def\<close>)
  qed
  show ?thesis
  proof (cases "s < c_prefix c")
    case True
    define k1 where "k1 = min (B + c_prefix c) (seg_length S)"
    have k1: "min (c_prefix c - s) (seg_length S - k) = k1 - k" "k < k1" "k1 \<le> seg_length S" "k1 < E"
      using True k c(6) s by (simp_all add: k1_def B_def EB)
    have mv: "moved (in_cut (c # nested)) S k r k1 (rp_skip (k1 - k) r)"
      by (rule moved_skip [OF st moved_refl [OF st]]) (use k1 cut(2) s in \<open>auto simp: k1_def B_def\<close>)
    then have len1: "rp_length (rp_skip (k1 - k) r) = seg_length S - k1" using rp_at_simps(2) by (simp add: moved_def)
    show ?thesis
    proof (cases "k1 = seg_length S")
      case end1: True
      then show ?thesis using True k k1 mv len1
        by (intro exI [of _ k1] exI [of _ "rp_skip (k1 - k) r"]) (simp add: source at(2) Let_def)
    next
      case False
      then have B: "k1 = B + c_prefix c" "k1 < seg_length S" using k1(3) by (auto simp: k1_def)
      then show ?thesis using rest [OF mv] True k k1(1,2,4) len1 s(1) by (simp add: source at(2) Let_def B_def)
    qed
  next
    case False
    then show ?thesis using rest [OF moved_refl [OF st]] k s c(1) by (simp add: source at(2) Let_def B_def EB split del: if_split)
  qed
qed

lemma process_line:
  "levels_ok levels \<Longrightarrow> levels \<noteq> [] \<Longrightarrow> line_spec (process levels) (hd levels) (in_cut levels) X S"
proof (induction levels)
  case (Cons c nested)
  have c: "level_ok c" using Cons.prems(1) by simp
  show ?case unfolding line_spec_def list.sel(1)
  proof (intro allI impI)
    fix k r assume st: "rp_state X S k r" and k: "k < seg_length S"
    define E where "E = line_end c (lPosition S + k) - lPosition S"
    have E: "lPosition S + E = line_end c (lPosition S + k)" by (simp add: E_def)
    have nested: "case (if nested = [] then None else Some (process nested)) of None \<Rightarrow> \<forall>x. in_cut nested x
      | Some f \<Rightarrow> \<exists>d. line_spec f d (in_cut nested) X S \<and> 0 < c_interval d \<and> c_interval d dvd lPosition S + (E - c_suffix c)"
      using nested_lines [OF Cons.prems(1) _ E] Cons.IH Cons.prems(1) by (auto simp: algebra_simps)
    show "\<exists>k' r'. process (c # nested) r = Some (k' - k, r') \<and> k < k' \<and> moved (in_cut (c # nested)) S k r k' r' \<and>
          min (seg_length S) (line_end c (lPosition S + k) - lPosition S) \<le> k' \<and>
          (\<forall>i. line_end c (lPosition S + k) - lPosition S \<le> i \<longrightarrow> i < k' \<longrightarrow> \<not> in_cut (c # nested) (lPosition S + i))"
      using process_Cons [OF c st k E nested] by (simp add: E_def)
  qed
qed simp

section \<open>All segments\<close>

text \<open>The state in front of the segments that are left.\<close>

definition cut_state :: "(int \<times> int) set \<Rightarrow> bm_segment list \<Rightarrow> replicator \<Rightarrow> bool" where
  "cut_state X rest r \<longleftrightarrow>
     (\<exists>pre. rp_sourceArray r = pre @ rest \<and> rp_sourceIndex r = length pre) \<and> rp_ok r \<and>
     (rest \<noteq> [] \<longrightarrow> rp_state X (hd rest) 0 r)"

lemma cut_loop_result:
  assumes "levels_ok levels" "levels \<noteq> []" "cut_state X rest r" "segs_ok l p rest" "set (concat (map seg_cells rest)) \<subseteq> X"
    and "\<forall>s \<in> set rest. 0 \<le> lPosition s \<and> lPosition s + seg_length s \<le> c_interval (hd levels)"
  shows "\<exists>r'. cut_loop (length rest) levels r = Some r' \<and> rp_ok r' \<and>
    rp_out r' = rp_out r @ filter (in_cut levels \<circ> fst) (concat (map seg_cells rest))"
  using assms(3-6)
proof (induction rest arbitrary: r l p)
  case Nil
  then show ?case by (auto simp: cut_state_def cut_loop.simps rp_end_def)
next
  case (Cons S rest)
  obtain pre where pre: "rp_sourceArray r = pre @ S # rest" "rp_sourceIndex r = length pre" and st: "rp_state X S 0 r"
    using Cons.prems(1) by (auto simp: cut_state_def)
  have len: "0 < seg_length S" and next_ok: "segs_ok (lPosition S + seg_length S) (pPosition S + seg_length S) rest"
    using Cons.prems(2) by simp_all
  have S: "0 \<le> lPosition S" "lPosition S + seg_length S \<le> c_interval (hd levels)" using Cons.prems(4) by simp_all
  have pos: "0 < c_interval (hd levels)" using S len by simp
  have "lPosition S mod c_interval (hd levels) = lPosition S" using S len by (intro mod_pos_pos_trivial) simp_all
  then have E: "line_end (hd levels) (lPosition S + 0) - lPosition S = c_interval (hd levels) - lPosition S" by (simp add: line_end_def)
  obtain k' r1 where f: "process levels r = Some (k' - 0, r1)" "moved (in_cut levels) S 0 r k' r1"
      and k': "min (seg_length S) (c_interval (hd levels) - lPosition S) \<le> k'"
    using line_specE [OF process_line [OF assms(1,2)] st len] unfolding E by metis
  have kl: "k' = seg_length S" using k' S f(2) by (simp add: moved_def rp_at_def)
  have st1: "rp_state X S (seg_length S) r1" using moved_state [OF st f(2)] kl len by simp
  have r1: "rp_sourceArray r1 = pre @ S # rest" "rp_sourceIndex r1 = length pre" "rp_ok r1"
    "rp_out r1 = rp_out r @ filter (in_cut levels \<circ> fst) (seg_cells S)"
    using f(2) pre by (simp_all add: moved_def same_source_def kl seg_cells_run)
  have nx: "rp_out (rp_next r1) = rp_out r1" "rp_ok (rp_next r1)"
    using r1(3) by (auto simp: rp_next_def Let_def rp_out_def rp_ok_def rp_segs_def split: if_splits)
  have "rp_state X (hd rest) 0 (rp_next r1)" if ne: "rest \<noteq> []"
  proof -
    obtain T ts where T: "rest = T # ts" using ne by (cases rest) auto
    have "lPosition S + seg_length S \<le> lPosition T" "0 < seg_length T" using next_ok T by simp_all
    then show ?thesis using st1 nx T Cons.prems(3) r1(1,2)
      by (fastforce simp: rp_state_def rp_at_def rp_next_def rp_end_def Let_def nth_append)
  qed
  moreover have sub: "set (concat (map seg_cells rest)) \<subseteq> X" using Cons.prems(3) by simp
  moreover have bound: "\<forall>s \<in> set rest. 0 \<le> lPosition s \<and> lPosition s + seg_length s \<le> c_interval (hd levels)"
    using Cons.prems(4) by simp
  ultimately have "cut_state X rest (rp_next r1)"
    using r1 nx by (auto simp: cut_state_def rp_next_def Let_def intro!: exI [of _ "pre @ [S]"])
  then obtain r' where "cut_loop (length rest) levels (rp_next r1) = Some r'" "rp_ok r'"
      "rp_out r' = rp_out (rp_next r1) @ filter (in_cut levels \<circ> fst) (concat (map seg_cells rest))"
    using Cons.IH [OF _ next_ok sub bound] by blast
  then show ?case using f(1) pre nx(1) r1(4) by (simp add: cut_loop.simps [of "Suc (length rest)" levels r] rp_end_def comp_def)
qed

lemma rp_result_cells:
  assumes "rp_ok r"
  shows "cells (rp_result r) = rp_out r" "bitmap_ok (rp_result r)"
proof -
  note f = rp_flush_result [OF assms]
  show "cells (rp_result r) = rp_out r" using f(7) by (simp add: rp_result_def)
  have "rp_segs (rp_flush r) = bm_segs (rp_resultBitmap (rp_flush r))" using f(4) by (simp add: rp_segs_def)
  then show "bitmap_ok (rp_result r)" using f(2) by (simp add: bitmap_ok_def rp_ok_def rp_result_def)
qed

lemma BitmapReplicator_state:
  assumes "ranked X" "set (concat (map seg_cells ss)) \<subseteq> X" "segs_ok l p ss"
  shows "cut_state X ss (BitmapReplicator ss)" "rp_out (BitmapReplicator ss) = []"
proof -
  show o: "rp_out (BitmapReplicator ss) = []"
    by (simp add: BitmapReplicator_def Let_def rp_out_def cells_def empty_bitmap_def seg_cells_def)
  have ok: "rp_ok (BitmapReplicator ss)"
    by (simp add: BitmapReplicator_def Let_def rp_ok_def rp_segs_def cells_def empty_bitmap_def)
  have "rp_state X (hd ss) 0 (BitmapReplicator ss)" if ne: "ss \<noteq> []"
  proof -
    obtain T ts where T: "ss = T # ts" using ne by (cases ss) auto
    show ?thesis using assms T o ok
      by (auto simp: rp_state_def) (simp add: rp_at_def BitmapReplicator_def Let_def rp_end_def)
  qed
  then show "cut_state X ss (BitmapReplicator ss)"
    using ok by (simp add: cut_state_def) (simp add: BitmapReplicator_def Let_def rp_end_def)
qed

section \<open>The levels of a box\<close>

text \<open>A result box inside of an origin box.\<close>

fun boxes_ok :: "int list \<Rightarrow> int list \<Rightarrow> int list \<Rightarrow> int list \<Rightarrow> bool" where
  "boxes_ok [] [] [] [] \<longleftrightarrow> True"
| "boxes_ok (lo # los) (uo # uos) (lr # lrs) (ur # urs) \<longleftrightarrow> lo \<le> lr \<and> lr \<le> ur \<and> ur \<le> uo \<and> boxes_ok los uos lrs urs"
| "boxes_ok _ _ _ _ \<longleftrightarrow> False"

definition inside :: "int list \<Rightarrow> int list \<Rightarrow> int list \<Rightarrow> bool" where
  "inside lr ur c \<longleftrightarrow> list_all2 (\<le>) lr c \<and> list_all2 (\<le>) c ur"

lemma inside_Cons [simp]: "inside (a # lr) (b # ur) (x # c) \<longleftrightarrow> a \<le> x \<and> x \<le> b \<and> inside lr ur c" "inside [] [] []"
  by (auto simp: inside_def)

lemma in_cut_mod:
  assumes "\<forall>c \<in> set levels. c_interval c dvd m"
  shows "in_cut levels (pos mod m) \<longleftrightarrow> in_cut levels pos"
  using assms by (auto simp: in_cut_def in_level_def mod_mod_cancel)

lemma mult_le_div_iff:
  fixes m :: int
  assumes "0 < m"
  shows "a * m \<le> x \<longleftrightarrow> a \<le> x div m"
proof
  assume "a * m \<le> x"
  then have "a * m div m \<le> x div m" using assms by (intro zdiv_mono1)
  then show "a \<le> x div m" using assms by simp
next
  assume "a \<le> x div m"
  then have "a * m \<le> x div m * m" using assms by (intro mult_right_mono) simp_all
  then show "a * m \<le> x" using pos_mod_sign [OF assms, of x] div_mult_mod_eq [of x m] by linarith
qed

lemma in_level_div:
  assumes c: "c_prefix c = (lr - lo) * m" "c_suffix c = (uo - ur) * m" "c_interval c = (uo + 1 - lo) * m"
    and "0 < m" "0 \<le> pos" "pos < c_interval c"
  shows "in_level c pos \<longleftrightarrow> lr \<le> lo + pos div m \<and> lo + pos div m \<le> ur"
proof -
  have "pos mod c_interval c = pos" using assms(5,6) by simp
  moreover have "(lr - lo) * m \<le> pos \<longleftrightarrow> lr - lo \<le> pos div m" using assms(4) by (rule mult_le_div_iff)
  moreover have "pos < (ur + 1 - lo) * m \<longleftrightarrow> pos div m < ur + 1 - lo" using assms(4) using mult_le_div_iff [OF assms(4), of "ur + 1 - lo" pos] by linarith
  moreover have "c_interval c - c_suffix c = (ur + 1 - lo) * m" unfolding c by (simp add: algebra_simps)
  ultimately show ?thesis by (auto simp: in_level_def c(1))
qed

text \<open>What the levels of some dimensions are, given their extent.\<close>

definition levels_spec :: "int list \<Rightarrow> int list \<Rightarrow> int list \<Rightarrow> int list \<Rightarrow> cut_level list \<Rightarrow> int \<Rightarrow> bool" where
  "levels_spec lo uo lr ur levels m \<longleftrightarrow>
     m = box_size (map2 (\<lambda>a b. (a, b - a + 1)) lo uo) \<and> 0 < m \<and> levels_ok levels \<and>
     (levels \<noteq> [] \<longrightarrow> c_interval (hd levels) = m) \<and> (\<forall>c \<in> set levels. c_interval c dvd m) \<and>
     (\<forall>pos. 0 \<le> pos \<longrightarrow> pos < m \<longrightarrow> in_cut levels pos = inside lr ur (unrank (map2 (\<lambda>a b. (a, b - a + 1)) lo uo) pos))"

lemma levels_spec_Cons:
  assumes sp: "levels_spec los uos lrs urs nested m" and b: "lo \<le> lr" "lr \<le> ur" "ur \<le> uo"
    and c: "c = \<lparr>c_prefix = (lr - lo) * m, c_suffix = (uo - ur) * m, c_interval = (uo + 1 - lo) * m,
      c_main = (uo + 1 - lo) * m - (lr - lo) * m - (uo - ur) * m\<rparr>"
  shows "levels_spec (lo # los) (uo # uos) (lr # lrs) (ur # urs) (c # nested) ((uo + 1 - lo) * m)"
proof -
  have m: "m = box_size (map2 (\<lambda>a b. (a, b - a + 1)) los uos)" "0 < m" and lv: "levels_ok nested"
      "nested \<noteq> [] \<longrightarrow> c_interval (hd nested) = m" "\<forall>d \<in> set nested. c_interval d dvd m"
      "\<And>pos. 0 \<le> pos \<Longrightarrow> pos < m \<Longrightarrow> in_cut nested pos = inside lrs urs (unrank (map2 (\<lambda>a b. (a, b - a + 1)) los uos) pos)"
    using sp by (auto simp: levels_spec_def)
  have mn: "c_main c = (ur + 1 - lr) * m" by (simp add: c algebra_simps)
  moreover have "0 < (ur + 1 - lr) * m" "0 \<le> (lr - lo) * m" "0 \<le> (uo - ur) * m" using b m(2) by simp_all
  ultimately have ok: "level_ok c" by (simp add: level_ok_def) (simp add: c)
  moreover have "m dvd c_prefix c" "m dvd c_main c" "m dvd c_suffix c" by (simp_all add: mn) (simp_all add: c)
  ultimately have "levels_ok (c # nested)" using lv(1,2) by simp
  moreover have "in_cut (c # nested) pos = inside (lr # lrs) (ur # urs) (unrank (map2 (\<lambda>a b. (a, b - a + 1)) (lo # los) (uo # uos)) pos)"
    if "0 \<le> pos" "pos < (uo + 1 - lo) * m" for pos
  proof -
    have "in_level c pos \<longleftrightarrow> lr \<le> lo + pos div m \<and> lo + pos div m \<le> ur"
      by (rule in_level_div) (use that m(2) in \<open>simp_all add: c\<close>)
    moreover have "in_cut nested pos = in_cut nested (pos mod m)" using in_cut_mod [OF lv(3)] by simp
    ultimately show ?thesis using lv(4) [of "pos mod m"] m by (simp add: in_cut_Cons)
  qed
  moreover have "0 < (uo + 1 - lo) * m" using b m(2) by simp
  ultimately show ?thesis using m(1) lv(3) by (auto simp: levels_spec_def c)
qed

lemma Cut_init_levels:
  assumes "boxes_ok lo uo lr ur" "lo \<noteq> []"
  shows "levels_spec lo uo lr ur (fst (Cut_init lo uo lr ur)) (snd (Cut_init lo uo lr ur)) \<and> fst (Cut_init lo uo lr ur) \<noteq> []"
  using assms
proof (induction lo uo lr ur rule: boxes_ok.induct)
  case (2 lo los uo uos lr lrs ur urs)
  have b: "lo \<le> lr" "lr \<le> ur" "ur \<le> uo" "boxes_ok los uos lrs urs" using 2(2) by simp_all
  show ?case
  proof (cases "los = []")
    case True
    then have e: "uos = []" "lrs = []" "urs = []" using b(4) by (auto elim: boxes_ok.elims)
    have "levels_spec [] [] [] [] [] 1" by (simp add: levels_spec_def)
    from levels_spec_Cons [OF this b(1-3) refl] show ?thesis by (simp add: True e Let_def)
  next
    case False
    obtain ns m where nm: "Cut_init los uos lrs urs = (ns, m)" by fastforce
    have sp: "levels_spec los uos lrs urs ns m" "ns \<noteq> []" using 2(1) [OF b(4) False] nm by simp_all
    define nested where "nested = (if c_prefix (hd ns) = 0 \<and> c_suffix (hd ns) = 0 \<and> tl ns = [] then [] else ns)"
    have "in_cut nested pos = in_cut ns pos" for pos
    proof (cases "nested = ns")
      case False
      then obtain c where c: "ns = [c]" "c_prefix c = 0" "c_suffix c = 0" "nested = []"
        using sp(2) by (cases ns) (auto simp: nested_def split: if_splits)
      then have "0 < c_interval c" using sp(1) by (simp add: levels_spec_def)
      then show ?thesis using c by (simp add: in_cut_def in_level_def)
    qed simp
    then have "levels_spec los uos lrs urs nested m" using sp by (auto simp: levels_spec_def nested_def)
    from levels_spec_Cons [OF this b(1-3) refl] show ?thesis
      by (simp add: False nm nested_def Let_def)
  qed
qed simp_all

lemma unrank_mapper:
  assumes "boxes_ok lo uo lr ur" "lo \<noteq> []" "0 \<le> pos" "pos < prod_list (map2 (\<lambda>a b. b - a + 1) lo uo)"
  shows "pos2coord (CoordinatesMapper_init lo uo) pos = unrank (map2 (\<lambda>a b. (a, b - a + 1)) lo uo) pos"
proof -
  have "list_all2 (\<le>) lo uo" using assms(1) by (induction lo uo lr ur rule: boxes_ok.induct) auto
  then show ?thesis using mapper_pos(4) assms(2-4) by blast
qed

lemma cells_bounds:
  assumes "segs_ok l p ss" "\<forall>x \<in> set (concat (map seg_cells ss)). fst x < n" "s \<in> set ss" "0 \<le> l"
  shows "0 \<le> lPosition s \<and> lPosition s + seg_length s \<le> n"
  using assms
proof (induction ss arbitrary: l p)
  case (Cons t ss)
  show ?case
  proof (cases "s = t")
    case True
    then have "0 < seg_length s" "l \<le> lPosition s" using Cons.prems(1) by simp_all
    moreover from this have "(lPosition s + seg_length s - 1, pPosition s + seg_length s - 1) \<in> set (seg_cells s)"
      by (simp add: mem_seg_cells)
    then have "lPosition s + seg_length s - 1 < n" using Cons.prems(2) True by (metis UnCI concat.simps(2) fst_conv list.simps(9) set_append)
    ultimately show ?thesis using Cons.prems(4) by simp
  next
    case False
    then show ?thesis using Cons.IH [of "lPosition t + seg_length t" "pPosition t + seg_length t"] Cons.prems by auto
  qed
qed simp

text \<open>The bitmaps the constructors make are such: between two cells there are at most as many values as positions.\<close>

lemma dense_gap:
  "segs_ok l p ss \<Longrightarrow> segs_dense p ss \<Longrightarrow> (l', p') \<in> set (concat (map seg_cells ss)) \<Longrightarrow> l \<le> l' \<and> p \<le> p' \<and> p' - p \<le> l' - l"
proof (induction ss arbitrary: l p)
  case (Cons s ss)
  show ?case
  proof (cases "(l', p') \<in> set (seg_cells s)")
    case True
    then show ?thesis using Cons.prems by (auto simp: mem_seg_cells)
  next
    case False
    then show ?thesis using Cons.IH [of "lPosition s + seg_length s" "pPosition s + seg_length s"] Cons.prems by auto
  qed
qed simp

lemma dense_ranked:
  "segs_ok l p ss \<Longrightarrow> segs_dense p ss \<Longrightarrow> 0 \<le> l \<Longrightarrow> 0 \<le> p \<Longrightarrow> ranked (set (concat (map seg_cells ss)))"
proof (induction ss arbitrary: l p)
  case (Cons s ss)
  let ?l = "lPosition s + seg_length s" and ?p = "pPosition s + seg_length s"
  have tl: "segs_ok ?l ?p ss" "segs_dense ?p ss" "0 \<le> ?l" "0 \<le> ?p" using Cons.prems by simp_all
  note IH = Cons.IH [OF tl] and gap = dense_gap [OF tl(1,2)]
  show ?case unfolding ranked_def
  proof (intro ballI, clarify)
    fix l1 p1 l2 p2
    assume c: "(l1, p1) \<in> set (concat (map seg_cells (s # ss)))" "(l2, p2) \<in> set (concat (map seg_cells (s # ss)))"
    have z: "0 \<le> l1" "0 \<le> p1" using dense_gap [OF Cons.prems(1,2) c(1)] Cons.prems(3,4) by simp_all
    consider "(l1, p1) \<in> set (seg_cells s)" "(l2, p2) \<in> set (seg_cells s)"
      | "(l1, p1) \<in> set (seg_cells s)" "(l2, p2) \<in> set (concat (map seg_cells ss))"
      | "(l1, p1) \<in> set (concat (map seg_cells ss))" "(l2, p2) \<in> set (seg_cells s)"
      | "(l1, p1) \<in> set (concat (map seg_cells ss))" "(l2, p2) \<in> set (concat (map seg_cells ss))"
      using c by auto
    then show "0 \<le> l1 \<and> 0 \<le> p1 \<and> (l1 < l2 \<longrightarrow> p1 < p2) \<and> (l2 = l1 + 1 \<longrightarrow> p2 = p1 + 1)"
    proof cases
      case 1
      then show ?thesis using z by (simp add: mem_seg_cells)
    next
      case 2
      then show ?thesis using z gap [OF 2(2)] by (auto simp: mem_seg_cells)
    next
      case 3
      then show ?thesis using z gap [OF 3(1)] by (auto simp: mem_seg_cells)
    next
      case 4
      then show ?thesis using z rankedD(3,4) [OF IH 4(1)] by blast
    qed
  qed
qed (simp add: ranked_def)

section \<open>The cut\<close>

text \<open>C8. \<^verbatim>\<open>ConstRLEEmptyBitmap::cut\<close> implements the selection of a box: for a bitmap over the cells of the origin box it
  returns, and the bitmap it returns has exactly those cells of the source, with their value indexes, whose
  coordinates lie in the result box. The segments are in order and the count is right.\<close>

theorem cut_cells:
  assumes "boxes_ok lo uo lr ur" "lo \<noteq> []" "bitmap_ok bm" "ranked (set (cells bm))"
    and "\<forall>x \<in> set (cells bm). fst x < prod_list (map2 (\<lambda>a b. b - a + 1) lo uo)"
  shows "\<exists>bm'. cut lo uo lr ur bm = Some bm' \<and> bitmap_ok bm' \<and>
    cells bm' = filter (\<lambda>(pos, _). inside lr ur (pos2coord (CoordinatesMapper_init lo uo) pos)) (cells bm)"
proof -
  let ?ss = "bm_segs bm" and ?levels = "fst (Cut_init lo uo lr ur)" and ?n = "prod_list (map2 (\<lambda>a b. b - a + 1) lo uo)"
  have ss: "segs_ok 0 0 ?ss" using assms(3) by (simp add: bitmap_ok_def)
  have cs: "concat (map seg_cells ?ss) = cells bm" by (simp add: cells_def)
  have lv: "levels_ok ?levels" "?levels \<noteq> []" "c_interval (hd ?levels) = ?n"
    and sel: "\<And>pos. 0 \<le> pos \<Longrightarrow> pos < ?n \<Longrightarrow> in_cut ?levels pos = inside lr ur (pos2coord (CoordinatesMapper_init lo uo) pos)"
    using Cut_init_levels [OF assms(1,2)] unrank_mapper [OF assms(1,2)] by (auto simp: levels_spec_def box_size_init)
  note init = BitmapReplicator_state [where ss = ?ss, OF assms(4) _ ss]
  have bound: "\<forall>s \<in> set ?ss. 0 \<le> lPosition s \<and> lPosition s + seg_length s \<le> c_interval (hd ?levels)"
    using cells_bounds [OF ss, of ?n] assms(5) by (simp add: cs lv(3))
  obtain r' where r': "cut_loop (length ?ss) ?levels (BitmapReplicator ?ss) = Some r'" "rp_ok r'"
      "rp_out r' = filter (in_cut ?levels \<circ> fst) (cells bm)"
    using cut_loop_result [OF lv(1,2) init(1) ss _ bound] init(2) by (force simp: cs)
  have "filter (in_cut ?levels \<circ> fst) (cells bm) =
      filter (\<lambda>(pos, _). inside lr ur (pos2coord (CoordinatesMapper_init lo uo) pos)) (cells bm)"
    by (rule filter_cong [OF refl]) (use sel assms(4,5) rankedD(1) in fastforce)
  moreover have "cut lo uo lr ur bm = Some (rp_result r')"
    using r'(1) by (auto simp: cut_def Let_def nSegments_def cut_loop.simps [of 0] cut_loop.simps [of "length ?ss"])
  ultimately show ?thesis using rp_result_cells [OF r'(2)] r'(3) by simp
qed

definition cut_bitmap :: bitmap where
  "cut_bitmap = \<lparr>bm_segs = [\<lparr>lPosition = 0, seg_length = 2, pPosition = 0\<rparr>, \<lparr>lPosition = 5, seg_length = 2, pPosition = 2\<rparr>],
     nNonEmptyElements = 4\<rparr>"

theorem cut_cells_witness:
  "\<exists>bm'. cut [0, 0] [1, 3] [0, 1] [1, 2] cut_bitmap = Some bm' \<and> bitmap_ok bm' \<and> cells bm' = [(1, 1), (5, 2), (6, 3)]"
proof -
  have c: "cells cut_bitmap = [(0, 0), (1, 1), (5, 2), (6, 3)]" by code_simp
  have ok: "bitmap_ok cut_bitmap" by (simp add: bitmap_ok_def c) (simp add: cut_bitmap_def)
  have "ranked (set (cells cut_bitmap))" using dense_ranked [of 0 0 "bm_segs cut_bitmap"] by (simp add: cells_def cut_bitmap_def)
  moreover have "boxes_ok [0, 0] [1, 3] [0, 1] [1, 2 :: int]" by simp
  moreover have "\<forall>x \<in> set (cells cut_bitmap). fst x < prod_list (map2 (\<lambda>a b. b - a + 1) [0, 0] [1, 3])" by (simp add: c)
  moreover have "filter (\<lambda>(pos, _). inside [0, 1] [1, 2] (pos2coord (CoordinatesMapper_init [0, 0] [1, 3]) pos)) (cells cut_bitmap) =
      [(1, 1), (5, 2), (6, 3)]" unfolding c inside_def by code_simp
  ultimately show ?thesis using cut_cells [of "[0, 0]" "[1, 3]" "[0, 1]" "[1, 2]" cut_bitmap] ok by simp
qed

end
