(* ===== verification/Rle_Payload.thy ===== *)
theory Rle_Payload
  imports Rle_Bitmap_Cells
begin

text \<open>
  Run-length encoded payloads: the segments of \<^verbatim>\<open>include/array/RLESegment.h\<close>, the classes
  \<^verbatim>\<open>ConstRLEPayload\<close> and \<^verbatim>\<open>RLEPayload\<close> of \<^verbatim>\<open>include/array/RLE.h\<close> and
  \<^verbatim>\<open>src/array/RLE.cpp\<close>, their iterator and the appender \<^verbatim>\<open>append_iterator\<close>. A payload keeps
  the values of the cells of one attribute: segments that refer to stored values, and the
  stored values as bits, as elements of a fixed size, or as offsets into a part of varying
  size.

  Operations that throw return the exception; the payload they leave behind is not used
  any more. Reading outside of the buffer of values is \<open>None\<close> or
  \<open>Undefined_Behaviour\<close>.
\<close>

unbundle bit_operations_syntax

section \<open>Values\<close>

text \<open>A \<^verbatim>\<open>Value\<close>: missing with a reason between 0 and 127, or bytes.\<close>

datatype val = VNull nat | VData "byte list"

fun val_isNull :: "val \<Rightarrow> bool" where
  "val_isNull (VNull r) \<longleftrightarrow> True"
| "val_isNull (VData bs) \<longleftrightarrow> False"

fun val_data :: "val \<Rightarrow> byte list" where
  "val_data (VNull r) = []"
| "val_data (VData bs) = bs"

definition val_getBool :: "val \<Rightarrow> bool" where
  "val_getBool v \<longleftrightarrow> val_data v \<noteq> [] \<and> hd (val_data v) \<noteq> 0"

definition val_setBool :: "bool \<Rightarrow> val" where
  "val_setBool b = VData [if b then 1 else 0]"

section \<open>Results that may be exceptions\<close>

definition bindE :: "error + 'a \<Rightarrow> ('a \<Rightarrow> error + 'b) \<Rightarrow> error + 'b" where
  "bindE r f = (case r of Inl e \<Rightarrow> Inl e | Inr x \<Rightarrow> f x)"

lemma bindE_simps [simp]: "bindE (Inl e) f = Inl e" "bindE (Inr x) f = f x"
  by (simp_all add: bindE_def)

text \<open>Reading through a pointer that may be outside of its buffer.\<close>

definition orUB :: "'a option \<Rightarrow> error + 'a" where
  "orUB r = (case r of None \<Rightarrow> Inl Undefined_Behaviour | Some x \<Rightarrow> Inr x)"

lemma orUB_simps [simp]: "orUB None = Inl Undefined_Behaviour" "orUB (Some x) = Inr x"
  by (simp_all add: orUB_def)

text \<open>\<^verbatim>\<open>setNull(safe_static_cast<Value::reason>(i))\<close>: a reason is an \<^verbatim>\<open>int8_t\<close>.\<close>

definition val_setNull :: "nat \<Rightarrow> error + val" where
  "val_setNull i = (if 127 < i then Inl LE_ASSERTION_FAILED else Inr (VNull i))"

section \<open>Segments\<close>

record pl_segment =
  startPosition :: nat
  dataIndex :: nat
  isRun :: bool
  isNull :: bool

definition MAX_DATA_INDEX :: nat where "MAX_DATA_INDEX = 0x3FFFFFFF"

definition Segment0 :: pl_segment where
  "Segment0 = \<lparr>startPosition = 0, dataIndex = 0, isRun = False, isNull = False\<rparr>"

definition setDataIndex :: "nat \<Rightarrow> pl_segment \<Rightarrow> error + pl_segment" where
  "setDataIndex i s = (if MAX_DATA_INDEX < i then Inl LE_CHUNK_TOO_POPULATED else Inr (s\<lparr>dataIndex := i\<rparr>))"

definition setValueIndex :: "nat \<Rightarrow> pl_segment \<Rightarrow> error + pl_segment" where
  "setValueIndex vi s = (if 2 ^ 32 \<le> vi then Inl LE_ASSERTION_FAILED else setDataIndex vi s)"

definition addToValueIndex :: "nat \<Rightarrow> pl_segment \<Rightarrow> error + pl_segment" where
  "addToValueIndex incr s =
     (if MAX_DATA_INDEX < dataIndex s + incr then Inl LE_CHUNK_TOO_POPULATED
      else Inr (s\<lparr>dataIndex := dataIndex s + incr\<rparr>))"

definition setPPosition :: "nat \<Rightarrow> pl_segment \<Rightarrow> pl_segment" where
  "setPPosition p s = s\<lparr>startPosition := p\<rparr>"

definition addToPPosition :: "nat \<Rightarrow> pl_segment \<Rightarrow> pl_segment" where
  "addToPPosition incr s = s\<lparr>startPosition := startPosition s + incr\<rparr>"

definition setSame :: "bool \<Rightarrow> pl_segment \<Rightarrow> pl_segment" where
  "setSame b s = s\<lparr>isRun := b\<rparr>"

definition setNull :: "bool \<Rightarrow> pl_segment \<Rightarrow> pl_segment" where
  "setNull b s = s\<lparr>isNull := b\<rparr>"

text \<open>The constructor from the four fields, and a missing value with its code.\<close>

definition Segment :: "nat \<Rightarrow> nat \<Rightarrow> bool \<Rightarrow> bool \<Rightarrow> error + pl_segment" where
  "Segment pos i run null =
     (if MAX_DATA_INDEX < i then Inl LE_CHUNK_TOO_POPULATED
      else Inr \<lparr>startPosition = pos, dataIndex = i, isRun = run, isNull = null\<rparr>)"

definition setMissingCode :: "int \<Rightarrow> pl_segment \<Rightarrow> error + pl_segment" where
  "setMissingCode code s =
     (if code < 0 \<or> 127 < code then Inl LE_BAD_MISSING_REASON
      else setDataIndex (nat code) (setSame True (setNull True s)))"

section \<open>Payloads\<close>

record payload =
  pl_container :: "pl_segment list"
  pl_nSegs :: nat
  pl_elemSize :: nat
  pl_dataSize :: nat
  pl_varOffs :: nat
  pl_isBoolean :: bool
  pl_data :: "byte list"
  pl_valuesCount :: nat

text \<open>\<^verbatim>\<open>RLEPayload(size_t bitSize)\<close>\<close>

definition RLEPayload :: "nat \<Rightarrow> payload" where
  "RLEPayload bitSize =
     \<lparr>pl_container = [], pl_nSegs = 0, pl_elemSize = (bitSize + 7) div 8, pl_dataSize = 0, pl_varOffs = 0,
      pl_isBoolean = (bitSize = 1), pl_data = [], pl_valuesCount = 0\<rparr>"

definition pl_clear :: "payload \<Rightarrow> payload" where
  "pl_clear p = p\<lparr>pl_container := [], pl_data := [], pl_nSegs := 0, pl_dataSize := 0, pl_valuesCount := 0\<rparr>"

definition pl_count :: "payload \<Rightarrow> nat" where
  "pl_count p = (if pl_nSegs p = 0 then 0 else startPosition (pl_container p ! pl_nSegs p))"

definition getSegLength :: "payload \<Rightarrow> nat \<Rightarrow> nat" where
  "getSegLength p i = startPosition (pl_container p ! (i + 1)) - startPosition (pl_container p ! i)"

definition fixedSize :: "payload \<Rightarrow> nat" where
  "fixedSize p = (if pl_elemSize p = 0 then 4 else pl_elemSize p)"

subsection \<open>Reading values\<close>

definition bytes_at :: "byte list \<Rightarrow> nat \<Rightarrow> nat \<Rightarrow> byte list option" where
  "bytes_at bs off n = (if off + n \<le> length bs then Some (take n (drop off bs)) else None)"

text \<open>The lengths of the header and of the datum at the start of \<open>bs\<close>.\<close>

definition getSizeOfVarPartForOneDatum :: "byte list \<Rightarrow> (nat \<times> nat) option" where
  "getSizeOfVarPartForOneDatum bs =
     (case bs of
        [] \<Rightarrow> None
      | b # _ \<Rightarrow> if b \<noteq> 0 then Some (1, unat b) else map_option (\<lambda>n. (5, le_val n)) (bytes_at bs 1 4))"

definition checkBit :: "payload \<Rightarrow> nat \<Rightarrow> bool option" where
  "checkBit p i = (if i div 8 < length (pl_data p) then Some (bit (pl_data p ! (i div 8)) (i mod 8)) else None)"

definition var_datum :: "byte list \<Rightarrow> byte list option" where
  "var_datum src = Option.bind (getSizeOfVarPartForOneDatum src) (\<lambda>(sizeHeader, sizeDatum). bytes_at src sizeHeader sizeDatum)"

definition getValueByIndex :: "payload \<Rightarrow> nat \<Rightarrow> val option" where
  "getValueByIndex p index =
     (if pl_isBoolean p then map_option val_setBool (checkBit p index)
      else if pl_elemSize p = 0 then
        Option.bind (bytes_at (pl_data p) (index * fixedSize p) 4)
          (\<lambda>voff. map_option VData (var_datum (drop (pl_varOffs p + le_val voff) (pl_data p))))
      else map_option VData (bytes_at (pl_data p) (index * fixedSize p) (fixedSize p)))"

definition getValueByPosition :: "payload \<Rightarrow> nat \<Rightarrow> error + val option" where
  "getValueByPosition p pos =
     (let r = bsearch (\<lambda>m. startPosition (pl_container p ! (m + 1)) \<le> pos) 0 (pl_nSegs p) in
      if r = pl_nSegs p then Inr None
      else
        (let s = pl_container p ! r in
         bindE (if isNull s then val_setNull (dataIndex s)
                else orUB (getValueByIndex p (dataIndex s + (if isRun s then 0 else pos - startPosition s))))
           (\<lambda>v. Inr (Some v))))"

text \<open>The search of the iterator stops early at the start of a segment.\<close>

function pl_search :: "payload \<Rightarrow> nat \<Rightarrow> nat \<Rightarrow> nat \<Rightarrow> nat" where
  "pl_search p pos l r =
     (if l < r then
        (let m = (l + r) div 2; mpos = startPosition (pl_container p ! (m + 1)) in
         if mpos = pos then m + 1
         else if mpos < pos then pl_search p pos (m + 1) r
         else pl_search p pos l m)
      else r)"
  by auto

termination by (relation "measure (\<lambda>(p, pos, l, r). r - l)") auto

declare pl_search.simps [simp del]

definition pl_findSegment :: "payload \<Rightarrow> nat \<Rightarrow> nat" where
  "pl_findSegment p pos = pl_search p pos 0 (pl_nSegs p)"

subsection \<open>Adding values\<close>

definition resize :: "nat \<Rightarrow> byte list \<Rightarrow> byte list" where
  "resize n bs = take n bs @ replicate (n - length bs) 0"

definition store_at :: "nat \<Rightarrow> byte list \<Rightarrow> byte list \<Rightarrow> byte list" where
  "store_at off new bs = take off bs @ new @ drop (off + length new) bs"

definition RLE_MAX_VARPART_OFFSET :: nat where "RLE_MAX_VARPART_OFFSET = 2 ^ 32 - 1"

definition appendValueToTheEndOfVarPart :: "byte list \<Rightarrow> val \<Rightarrow> error + byte list" where
  "appendValueToTheEndOfVarPart varPart v =
     (if RLE_MAX_VARPART_OFFSET < length varPart then Inl LE_CHUNK_TOO_HUGE
      else
        (let len = length (val_data v) in
         Inr (if len = 0 \<or> 0xFF < len then varPart @ 0 # le32 len @ val_data v
              else varPart @ word_of_nat len # val_data v)))"

definition appendValue :: "byte list \<Rightarrow> val \<Rightarrow> nat \<Rightarrow> payload \<Rightarrow> error + payload \<times> byte list" where
  "appendValue varPart v valueIndex p =
     (if pl_isBoolean p then
        (let p1 = (if valueIndex mod 8 = 0
                   then p\<lparr>pl_dataSize := pl_dataSize p + 1,
                          pl_data := store_at (pl_dataSize p) [0] (resize (pl_dataSize p + 1) (pl_data p))\<rparr>
                   else p) in
         if val_getBool v then
           (let i = pl_dataSize p1 - 1 in
            if pl_dataSize p1 = 0 \<or> length (pl_data p1) \<le> i then Inl Undefined_Behaviour
            else Inr (p1\<lparr>pl_data := (pl_data p1)[i := pl_data p1 ! i OR push_bit (valueIndex mod 8) 1]\<rparr>, varPart))
         else Inr (p1, varPart))
      else
        (let n = fixedSize p;
             p1 = p\<lparr>pl_data := resize (pl_dataSize p + n) (pl_data p)\<rparr> in
         if pl_elemSize p = 0 then
           (if RLE_MAX_VARPART_OFFSET < length varPart then Inl LE_CHUNK_TOO_HUGE
            else
              bindE (appendValueToTheEndOfVarPart varPart v) (\<lambda>varPart'.
                Inr (p1\<lparr>pl_data := store_at (pl_dataSize p) (le32 (length varPart)) (pl_data p1),
                        pl_dataSize := pl_dataSize p + n\<rparr>, varPart')))
         else if pl_elemSize p < length (val_data v) then Inl LE_TRUNCATION
         else Inr (p1\<lparr>pl_data := store_at (pl_dataSize p) (val_data v) (pl_data p1),
                      pl_dataSize := pl_dataSize p + n\<rparr>, varPart)))"

definition setVarPart :: "byte list \<Rightarrow> payload \<Rightarrow> error + payload" where
  "setVarPart varPart p =
     (if pl_elemSize p \<noteq> 0 then Inl LE_ASSERTION_FAILED
      else
        (let data = pl_data p @ varPart in
         Inr (p\<lparr>pl_varOffs := length (pl_data p), pl_data := data, pl_dataSize := length data\<rparr>)))"

definition pl_addSegment :: "pl_segment \<Rightarrow> payload \<Rightarrow> payload" where
  "pl_addSegment s p =
     p\<lparr>pl_container := pl_container p @ [s], pl_nSegs := length (pl_container p)\<rparr>"

text \<open>The terminating segment tells the length of the last one.\<close>

definition pl_flush :: "nat \<Rightarrow> payload \<Rightarrow> payload" where
  "pl_flush chunkSize p =
     p\<lparr>pl_nSegs := length (pl_container p), pl_container := pl_container p @ [setPPosition chunkSize Segment0]\<rparr>"

definition trim :: "nat \<Rightarrow> payload \<Rightarrow> payload" where
  "trim lastPos p = p\<lparr>pl_container := (pl_container p)[pl_nSegs p := setPPosition lastPos (pl_container p ! pl_nSegs p)]\<rparr>"

text \<open>Room for raw values; the result is the index of the first.\<close>

definition addRawValues :: "nat \<Rightarrow> payload \<Rightarrow> nat \<times> payload" where
  "addRawValues n p =
     (pl_dataSize p div pl_elemSize p,
      p\<lparr>pl_dataSize := pl_dataSize p + pl_elemSize p * n, pl_data := resize (pl_dataSize p + pl_elemSize p * n) (pl_data p)\<rparr>)"

definition addRawVarValues :: "nat \<Rightarrow> payload \<Rightarrow> nat \<times> payload" where
  "addRawVarValues n p =
     (pl_dataSize p div 4, p\<lparr>pl_dataSize := pl_dataSize p + 4 * n, pl_data := resize (pl_dataSize p + 4 * n) (pl_data p)\<rparr>)"

definition addBoolValues :: "nat \<Rightarrow> payload \<Rightarrow> nat \<times> payload" where
  "addBoolValues n p =
     (let valuesCount = pl_valuesCount p + n; dataSize = valuesCount div 8 + 1 in
      (pl_valuesCount p, p\<lparr>pl_valuesCount := valuesCount, pl_dataSize := dataSize, pl_data := resize dataSize (pl_data p)\<rparr>))"

definition getValuesCount :: "payload \<Rightarrow> nat" where
  "getValuesCount p = (if pl_isBoolean p then pl_valuesCount p else pl_dataSize p div fixedSize p)"

text \<open>One literal segment over raw data.\<close>

definition unpackRawData :: "byte list \<Rightarrow> nat \<Rightarrow> nat \<Rightarrow> nat \<Rightarrow> nat \<Rightarrow> bool \<Rightarrow> payload \<Rightarrow> error + payload" where
  "unpackRawData rawData rawSize varOffs elemSize nElems isBoolean p =
     (if length rawData < rawSize then Inl Undefined_Behaviour
      else
        bindE (Segment 0 0 False False) (\<lambda>segm.
          Inr ((pl_clear p)\<lparr>pl_container := [segm, setPPosition nElems segm], pl_nSegs := 1, pl_dataSize := rawSize,
                 pl_varOffs := varOffs, pl_elemSize := elemSize, pl_isBoolean := isBoolean,
                 pl_data := take rawSize rawData, pl_valuesCount := nElems\<rparr>)))"

section \<open>The appender\<close>

record append_iterator =
  ai_result :: payload
  ai_varPart :: "byte list"
  ai_segm :: pl_segment
  ai_prevVal :: val
  ai_valueIndex :: nat
  ai_segLength :: nat

definition append_iterator :: "payload \<Rightarrow> append_iterator" where
  "append_iterator p =
     \<lparr>ai_result = pl_clear p, ai_varPart = [], ai_segm = setPPosition 0 Segment0, ai_prevVal = VNull 0,
      ai_valueIndex = 0, ai_segLength = 0\<rparr>"

text \<open>The current segment is complete.\<close>

definition ai_close :: "append_iterator \<Rightarrow> append_iterator" where
  "ai_close a =
     a\<lparr>ai_result := pl_addSegment (ai_segm a) (ai_result a), ai_segm := addToPPosition (ai_segLength a) (ai_segm a),
       ai_segLength := 0\<rparr>"

definition ai_flush :: "append_iterator \<Rightarrow> error + payload" where
  "ai_flush a =
     (let p1 = (if ai_segLength a \<noteq> 0 then pl_addSegment (ai_segm a) (ai_result a) else ai_result a);
          p2 = p1\<lparr>pl_valuesCount := ai_valueIndex a\<rparr> in
      bindE (if ai_varPart a \<noteq> [] then setVarPart (ai_varPart a) p2 else Inr p2) (\<lambda>p3.
        Inr (pl_flush (startPosition (ai_segm a) + ai_segLength a) p3)))"

text \<open>\<^verbatim>\<open>add(Value const&, uint64_t)\<close>: a missing value, the value added last, or another one.\<close>

definition ai_add_null :: "nat \<Rightarrow> nat \<Rightarrow> append_iterator \<Rightarrow> error + append_iterator" where
  "ai_add_null reason cnt a =
     (let a1 = (if ai_segLength a \<noteq> 0 \<and> (\<not> isNull (ai_segm a) \<or> dataIndex (ai_segm a) \<noteq> reason) then ai_close a else a);
          a2 = a1\<lparr>ai_segLength := ai_segLength a1 + cnt\<rparr> in
      bindE (setValueIndex reason (setSame True (setNull True (ai_segm a2)))) (\<lambda>s. Inr (a2\<lparr>ai_segm := s\<rparr>)))"

definition ai_add_repeated :: "nat \<Rightarrow> append_iterator \<Rightarrow> error + append_iterator" where
  "ai_add_repeated cnt a =
     (if isRun (ai_segm a) then Inr (a\<lparr>ai_segLength := ai_segLength a + cnt\<rparr>)
      else
        (let s = setSame True (addToPPosition (ai_segLength a - 1) (ai_segm a)) in
         bindE (setValueIndex (ai_valueIndex a - 1) s) (\<lambda>s'.
           Inr (a\<lparr>ai_result := pl_addSegment (ai_segm a) (ai_result a), ai_segm := s', ai_segLength := 1 + cnt\<rparr>))))"

definition ai_add_new :: "val \<Rightarrow> nat \<Rightarrow> append_iterator \<Rightarrow> error + append_iterator" where
  "ai_add_new v cnt a =
     bindE
       (if ai_segLength a = 0 \<or> isNull (ai_segm a) \<or> 1 < cnt then
          (let a1 = (if ai_segLength a \<noteq> 0 then ai_close a else a) in
           bindE (setValueIndex (ai_valueIndex a1) (setNull False (setSame True (ai_segm a1)))) (\<lambda>s.
             Inr (a1\<lparr>ai_segm := s\<rparr>)))
        else if 1 < ai_segLength a \<and> isRun (ai_segm a) then
          (let a1 = ai_close a in
           bindE (setValueIndex (ai_valueIndex a1) (ai_segm a1)) (\<lambda>s. Inr (a1\<lparr>ai_segm := s\<rparr>)))
        else Inr (a\<lparr>ai_segm := setSame False (ai_segm a)\<rparr>))
       (\<lambda>a2.
         bindE (appendValue (ai_varPart a2) v (ai_valueIndex a2) (ai_result a2)) (\<lambda>(p, varPart).
           Inr (a2\<lparr>ai_segLength := ai_segLength a2 + cnt, ai_result := p, ai_varPart := varPart,
                   ai_valueIndex := ai_valueIndex a2 + 1, ai_prevVal := v\<rparr>)))"

definition ai_add :: "val \<Rightarrow> nat \<Rightarrow> append_iterator \<Rightarrow> error + append_iterator" where
  "ai_add v cnt a =
     (case v of
        VNull reason \<Rightarrow> ai_add_null reason cnt a
      | VData _ \<Rightarrow>
          if ai_segLength a \<noteq> 0 \<and> \<not> isNull (ai_segm a) \<and> v = ai_prevVal a then ai_add_repeated cnt a
          else ai_add_new v cnt a)"

section \<open>The iterator\<close>

text \<open>
  \<^verbatim>\<open>ConstRLEPayload::iterator\<close>. The pointer \<^verbatim>\<open>_cs\<close> to the current segment is its index; it stays
  behind when the iterator comes to the end.
\<close>

record pl_iterator =
  it_currSeg :: nat
  it_cs :: nat
  it_currPpos :: nat

definition it_end :: "payload \<Rightarrow> pl_iterator \<Rightarrow> bool" where
  "it_end p it \<longleftrightarrow> pl_nSegs p \<le> it_currSeg it"

definition it_segm :: "payload \<Rightarrow> pl_iterator \<Rightarrow> pl_segment" where
  "it_segm p it = pl_container p ! it_cs it"

definition it_enter :: "payload \<Rightarrow> pl_iterator \<Rightarrow> pl_iterator" where
  "it_enter p it =
     (if \<not> it_end p it
      then it\<lparr>it_cs := it_currSeg it, it_currPpos := startPosition (pl_container p ! it_currSeg it)\<rparr> else it)"

definition it_reset :: "payload \<Rightarrow> pl_iterator \<Rightarrow> pl_iterator" where
  "it_reset p it = it_enter p (it\<lparr>it_currSeg := 0\<rparr>)"

definition it_toNextSegment :: "payload \<Rightarrow> pl_iterator \<Rightarrow> pl_iterator" where
  "it_toNextSegment p it = it_enter p (it\<lparr>it_currSeg := it_currSeg it + 1\<rparr>)"

definition it_getValueIndex :: "payload \<Rightarrow> pl_iterator \<Rightarrow> nat" where
  "it_getValueIndex p it =
     (let s = it_segm p it in
      if isRun s \<or> isNull s then dataIndex s else dataIndex s + (it_currPpos it - startPosition s))"

definition it_getSegLength :: "payload \<Rightarrow> pl_iterator \<Rightarrow> nat" where
  "it_getSegLength p it = startPosition (pl_container p ! (it_cs it + 1)) - startPosition (it_segm p it)"

definition it_available :: "payload \<Rightarrow> pl_iterator \<Rightarrow> nat" where
  "it_available p it = it_getSegLength p it + startPosition (it_segm p it) - it_currPpos it"

definition it_getRepeatCount :: "payload \<Rightarrow> pl_iterator \<Rightarrow> nat" where
  "it_getRepeatCount p it =
     (if isRun (it_segm p it) then it_getSegLength p it + startPosition (it_segm p it) - it_currPpos it else 1)"

text \<open>\<^verbatim>\<open>operator ++\<close>\<close>

definition it_next :: "payload \<Rightarrow> pl_iterator \<Rightarrow> pl_iterator" where
  "it_next p it =
     (if it_currPpos it + 1 < startPosition (it_segm p it) + it_getSegLength p it
      then it\<lparr>it_currPpos := it_currPpos it + 1\<rparr>
      else it_enter p (it\<lparr>it_currSeg := it_currSeg it + 1\<rparr>))"

definition it_setPosition :: "payload \<Rightarrow> nat \<Rightarrow> pl_iterator \<Rightarrow> bool \<times> pl_iterator" where
  "it_setPosition p pPos it =
     (let it1 = it\<lparr>it_currSeg := pl_findSegment p pPos\<rparr> in
      if it_end p it1 then (False, it1)
      else (True, it1\<lparr>it_cs := it_currSeg it1, it_currPpos := pPos\<rparr>))"

text \<open>\<^verbatim>\<open>operator +=\<close>\<close>

definition it_plus :: "payload \<Rightarrow> nat \<Rightarrow> pl_iterator \<Rightarrow> pl_iterator" where
  "it_plus p cnt it =
     (let it1 = it\<lparr>it_currPpos := it_currPpos it + cnt\<rparr> in
      if startPosition (it_segm p it1) + it_getSegLength p it1 \<le> it_currPpos it1 then
        (let it2 = it1\<lparr>it_currSeg := it_currSeg it1 + 1\<rparr> in
         if it_currSeg it2 < pl_nSegs p then
           (let it3 = it2\<lparr>it_cs := it_currSeg it2\<rparr> in
            if it_currPpos it3 < startPosition (it_segm p it3) + it_getSegLength p it3 then it3
            else snd (it_setPosition p (it_currPpos it3) it3))
         else snd (it_setPosition p (it_currPpos it2) it2))
      else it1)"

text \<open>The number of bits that are set among \<open>n\<close> bits from \<open>i\<close> on.\<close>

fun count_bits :: "payload \<Rightarrow> nat \<Rightarrow> nat \<Rightarrow> error + nat" where
  "count_bits p i 0 = Inr 0"
| "count_bits p i (Suc n) =
     bindE (orUB (checkBit p i)) (\<lambda>b. bindE (count_bits p (i + 1) n) (\<lambda>k. Inr ((if b then 1 else 0) + k)))"

definition seg_bits :: "payload \<Rightarrow> pl_iterator \<Rightarrow> nat \<Rightarrow> error + nat" where
  "seg_bits p it n =
     (let s = it_segm p it in
      if \<not> pl_isBoolean p then Inr 0
      else if isRun s then bindE (orUB (checkBit p (dataIndex s))) (\<lambda>b. Inr (if b then n else 0))
      else count_bits p (dataIndex s + (it_currPpos it - startPosition s)) n)"

function it_skip :: "payload \<Rightarrow> nat \<Rightarrow> nat \<Rightarrow> pl_iterator \<Rightarrow> error + nat \<times> pl_iterator" where
  "it_skip p cnt setBits it =
     (if it_end p it then Inr (setBits, it)
      else if startPosition (it_segm p it) + it_getSegLength p it \<le> it_currPpos it + cnt then
        (let tail = it_available p it in
         case seg_bits p it tail of
           Inl e \<Rightarrow> Inl e
         | Inr k \<Rightarrow> it_skip p (cnt - tail) (setBits + k) (it_toNextSegment p it))
      else
        bindE (seg_bits p it cnt) (\<lambda>k. Inr (setBits + k, it\<lparr>it_currPpos := it_currPpos it + cnt\<rparr>)))"
  by auto

termination
  by (relation "measure (\<lambda>(p, cnt, setBits, it). pl_nSegs p - it_currSeg it)")
    (auto simp: it_end_def it_toNextSegment_def it_enter_def)

declare it_skip.simps [simp del]

subsection \<open>Items\<close>

text \<open>\<^verbatim>\<open>getRawVarValue\<close>: the offset in the buffer and the size of a stored value.\<close>

definition getRawVarValue :: "payload \<Rightarrow> nat \<Rightarrow> (nat \<times> nat) option" where
  "getRawVarValue p index =
     (if pl_elemSize p = 0 then
        Option.bind (bytes_at (pl_data p) (index * 4) 4) (\<lambda>voff.
          (let src = pl_varOffs p + le_val voff in
           map_option (\<lambda>(sizeHeader, size). (src + sizeHeader, size)) (getSizeOfVarPartForOneDatum (drop src (pl_data p)))))
      else if pl_isBoolean p then Some (index div 8, 1)
      else Some (index * pl_elemSize p, pl_elemSize p))"

definition it_getItem :: "payload \<Rightarrow> pl_iterator \<Rightarrow> error + val" where
  "it_getItem p it =
     (let s = it_segm p it in
      if isNull s then val_setNull (dataIndex s)
      else
        (let index = (if isRun s then dataIndex s else dataIndex s + (it_currPpos it - startPosition s)) in
         bindE (orUB (getRawVarValue p index)) (\<lambda>(off, n).
           bindE (orUB (bytes_at (pl_data p) off n)) (\<lambda>data.
             Inr (if pl_isBoolean p then val_setBool (bit (hd data) (index mod 8)) else VData data)))))"

definition it_isDefaultValue :: "payload \<Rightarrow> val \<Rightarrow> pl_iterator \<Rightarrow> error + bool" where
  "it_isDefaultValue p defaultValue it =
     (let s = it_segm p it in
      case defaultValue of
        VNull reason \<Rightarrow>
          if isNull s then bindE (val_setNull (dataIndex s)) (\<lambda>v. Inr (v = VNull reason)) else Inr False
      | VData bs \<Rightarrow>
          if isNull s \<or> \<not> isRun s then Inr False
          else
            bindE (orUB (getRawVarValue p (dataIndex s))) (\<lambda>(off, n).
              bindE (orUB (bytes_at (pl_data p) off n)) (\<lambda>data.
                Inr (if pl_isBoolean p then val_getBool defaultValue = bit (hd data) (dataIndex s mod 8) else bs = data))))"

section \<open>The segment iterator\<close>

text \<open>The rest of the current segment as a segment with its length.\<close>

definition si_getVirtualSegment :: "payload \<Rightarrow> pl_iterator \<Rightarrow> error + pl_segment \<times> nat" where
  "si_getVirtualSegment p it =
     bindE (setValueIndex (it_getValueIndex p it)
              (setNull (isNull (it_segm p it)) (setSame (isRun (it_segm p it)) (setPPosition (it_currPpos it) Segment0))))
       (\<lambda>s. Inr (s, it_available p it))"

definition si_advanceWithinSegment :: "payload \<Rightarrow> nat \<Rightarrow> pl_iterator \<Rightarrow> error + pl_iterator" where
  "si_advanceWithinSegment p stepSize it = bindE (it_skip p stepSize 0 it) (\<lambda>(setBits, it'). Inr it')"

definition si_advanceBy :: "payload \<Rightarrow> nat \<Rightarrow> pl_iterator \<Rightarrow> error + pl_iterator" where
  "si_advanceBy p stepSize it =
     (if stepSize = it_available p it then Inr (it_toNextSegment p it) else si_advanceWithinSegment p stepSize it)"

section \<open>The packed form\<close>

definition RLE_PAYLOAD_MAGIC :: nat where "RLE_PAYLOAD_MAGIC = 0xDDDDAAAA000EAAAC"

text \<open>The twelve bytes of a segment; the three bit fields share a word.\<close>

definition pack_pl_segment :: "pl_segment \<Rightarrow> byte list" where
  "pack_pl_segment s =
     le64 (startPosition s) @
     le32 (dataIndex s mod 2 ^ 30 + (if isRun s then 2 ^ 30 else 0) + (if isNull s then 2 ^ 31 else 0))"

definition pl_segment_at :: "byte list \<Rightarrow> pl_segment" where
  "pl_segment_at bs =
     (let w = le_val (take 4 (drop 8 bs)) in
      \<lparr>startPosition = le_val (take 8 bs), dataIndex = w mod 2 ^ 30, isRun = odd (w div 2 ^ 30), isNull = odd (w div 2 ^ 31)\<rparr>)"

text \<open>The header has seven bytes of padding that \<^verbatim>\<open>pack\<close> leaves as they are in the buffer.\<close>

definition pl_packedSize :: "payload \<Rightarrow> nat" where
  "pl_packedSize p = 48 + (pl_nSegs p + 1) * 12 + pl_dataSize p"

definition pl_pack :: "payload \<Rightarrow> byte list \<Rightarrow> error + byte list" where
  "pl_pack p dst =
     (if length dst < pl_packedSize p \<or> length (pl_data p) < pl_dataSize p \<or>
         (pl_container p \<noteq> [] \<and> length (pl_container p) < pl_nSegs p + 1) then Inl Undefined_Behaviour
      else
        Inr (le64 RLE_PAYLOAD_MAGIC @ le64 (pl_nSegs p) @ le64 (pl_elemSize p) @ le64 (pl_dataSize p) @ le64 (pl_varOffs p) @
             (if pl_isBoolean p then 1 else 0) # take 7 (drop 41 dst) @
             (if pl_container p \<noteq> [] then concat (map pack_pl_segment (take (pl_nSegs p + 1) (pl_container p)))
              else le64 0 @ take 4 (drop 56 dst)) @
             take (pl_dataSize p) (pl_data p) @ drop (pl_packedSize p) dst))"

text \<open>
  The constructor \<^verbatim>\<open>ConstRLEPayload(char const*)\<close>: pointers into the buffer. The magic is only
  asserted.
\<close>

definition ConstRLEPayload :: "byte list option \<Rightarrow> error + payload" where
  "ConstRLEPayload src =
     (case src of
        None \<Rightarrow> Inr \<lparr>pl_container = [], pl_nSegs = 0, pl_elemSize = 0, pl_dataSize = 0, pl_varOffs = 0,
                      pl_isBoolean = False, pl_data = [], pl_valuesCount = 0\<rparr>
      | Some bs \<Rightarrow>
          if length bs < 48 then Inl Undefined_Behaviour
          else
            (let n = le_val (take 8 (drop 8 bs)) in
             if length bs < 48 + (n + 1) * 12 then Inl Undefined_Behaviour
             else
               Inr \<lparr>pl_container = map (\<lambda>i. pl_segment_at (drop (48 + i * 12) bs)) [0..<n + 1],
                    pl_nSegs = n, pl_elemSize = le_val (take 8 (drop 16 bs)), pl_dataSize = le_val (take 8 (drop 24 bs)),
                    pl_varOffs = le_val (take 8 (drop 32 bs)), pl_isBoolean = (bs ! 40 \<noteq> 0),
                    pl_data = drop (48 + (n + 1) * 12) bs, pl_valuesCount = 0\<rparr>))"

section \<open>Appending a payload\<close>

text \<open>Adding a number to every 32-bit offset of a buffer.\<close>

fun add_to_offsets :: "nat \<Rightarrow> byte list \<Rightarrow> byte list" where
  "add_to_offsets k (a # b # c # d # bs) = le32 (le_val [a, b, c, d] + k) @ add_to_offsets k bs"
| "add_to_offsets k bs = bs"

text \<open>The values of \<open>payload\<close> behind those of \<open>p\<close>, and how many items \<open>p\<close> had.\<close>

definition append_values :: "payload \<Rightarrow> payload \<Rightarrow> error + payload \<times> nat" where
  "append_values payload p =
     (if \<not> pl_isBoolean p then
        if pl_elemSize p = 0 then
          if length (pl_data p) < pl_varOffs p \<or> length (pl_data payload) < pl_varOffs payload then Inl Undefined_Behaviour
          else
            (let offsets = take (pl_varOffs payload) (pl_data payload); varHead = pl_dataSize p - pl_varOffs p in
             if offsets \<noteq> [] \<and> RLE_MAX_VARPART_OFFSET < varHead + le_val (drop (pl_varOffs payload - 4) offsets)
             then Inl LE_CHUNK_TOO_HUGE
             else
               Inr (p\<lparr>pl_data := take (pl_varOffs p) (pl_data p) @ add_to_offsets varHead offsets @ drop (pl_varOffs p) (pl_data p) @
                                drop (pl_varOffs payload) (pl_data payload),
                      pl_varOffs := pl_varOffs p + pl_varOffs payload\<rparr>, pl_varOffs p div 4))
        else Inr (p\<lparr>pl_data := pl_data p @ pl_data payload\<rparr>, pl_dataSize p div pl_elemSize p)
      else
        Inr (p\<lparr>pl_data := pl_data p @ pl_data payload, pl_valuesCount := pl_valuesCount p + pl_valuesCount payload\<rparr>,
             pl_dataSize p * 8))"

fun shift_segments :: "nat \<Rightarrow> nat \<Rightarrow> pl_segment list \<Rightarrow> error + pl_segment list" where
  "shift_segments headItems lastHeadPosition [] = Inr []"
| "shift_segments headItems lastHeadPosition (s # ss) =
     bindE (if \<not> isNull s then addToValueIndex headItems s else Inr s) (\<lambda>s1.
       bindE (shift_segments headItems lastHeadPosition ss) (\<lambda>ss1. Inr (addToPPosition lastHeadPosition s1 # ss1)))"

definition pl_append :: "payload \<Rightarrow> payload \<Rightarrow> error + payload" where
  "pl_append payload p =
     (if pl_count payload < 1 \<or> pl_container payload = [] then Inr p
      else
        (let lastHeadPosition = (if pl_container p \<noteq> [] then startPosition (last (pl_container p)) else 0);
             head = butlast (pl_container p) in
         bindE
           (if head = [] then
              Inr (p\<lparr>pl_container := pl_container payload, pl_data := pl_data payload, pl_varOffs := pl_varOffs payload\<rparr>)
            else
              bindE (append_values payload p) (\<lambda>(p1, headItems).
                bindE (shift_segments headItems lastHeadPosition (pl_container payload)) (\<lambda>ss.
                  Inr (p1\<lparr>pl_container := head @ ss\<rparr>))))
           (\<lambda>p2. Inr (p2\<lparr>pl_nSegs := length (pl_container p2) - 1, pl_dataSize := pl_dataSize p2 + pl_dataSize payload\<rparr>))))"

section \<open>Bitmaps and tiles\<close>

text \<open>\<^verbatim>\<open>RLEPayload::unPackTile(ConstRLEEmptyBitmap const&, position_t, position_t)\<close>: the part of a bitmap as booleans.\<close>

fun tile_loop :: "bm_segment list \<Rightarrow> int \<Rightarrow> int \<Rightarrow> nat \<Rightarrow> pl_segment list \<Rightarrow> pl_segment list \<times> nat" where
  "tile_loop [] vStart vEnd pos container = (container, pos)"
| "tile_loop (es # ess) vStart vEnd pos container =
     (if lPosition es < vEnd then
        (let inStart = max (lPosition es) vStart;
             inEnd = min (lPosition es + seg_length es) vEnd;
             zeros = (if inStart - vStart \<noteq> int pos
                      then [\<lparr>startPosition = pos, dataIndex = 0, isRun = True, isNull = False\<rparr>] else []);
             start = nat (inStart - vStart) in
         tile_loop ess vStart vEnd (start + nat (inEnd - inStart))
           (container @ zeros @ [\<lparr>startPosition = start, dataIndex = 1, isRun = True, isNull = False\<rparr>]))
      else (container, pos))"

definition unPackTile :: "bitmap \<Rightarrow> int \<Rightarrow> int \<Rightarrow> payload \<Rightarrow> payload" where
  "unPackTile emptyMap vStart vEnd p =
     (case tile_loop (drop (findSegment vStart emptyMap) (bm_segs emptyMap)) vStart vEnd 0 [] of
        (container, pos) \<Rightarrow>
          (let segs = (if int pos \<noteq> vEnd - vStart
                       then container @ [\<lparr>startPosition = pos, dataIndex = 0, isRun = True, isNull = False\<rparr>]
                       else container) in
           (pl_clear p)\<lparr>pl_data := [2], pl_elemSize := 1, pl_dataSize := 1, pl_isBoolean := True,
              pl_nSegs := length segs,
              pl_container := segs @ [\<lparr>startPosition = nat (vEnd - vStart),
                dataIndex = (if segs = [] then 0 else dataIndex (last segs)), isRun = True, isNull = False\<rparr>],
              pl_valuesCount := 2\<rparr>))"

text \<open>\<^verbatim>\<open>RLEEmptyBitmap(RLEPayload&)\<close>: the segments so far and the segment that grows.\<close>

definition set_range :: "int \<Rightarrow> int \<Rightarrow> bm_segment list \<times> bm_segment \<Rightarrow> bm_segment list \<times> bm_segment" where
  "set_range pos len st =
     (case st of (container, bs) \<Rightarrow>
        if lPosition bs + seg_length bs = pos then (container, bs\<lparr>seg_length := seg_length bs + len\<rparr>)
        else
          (if seg_length bs \<noteq> 0 then container @ [bs] else container,
           bs\<lparr>lPosition := pos, seg_length := len, pPosition := pPosition bs + (if seg_length bs \<noteq> 0 then seg_length bs else 0)\<rparr>))"

fun literal_bits :: "payload \<Rightarrow> nat \<Rightarrow> int \<Rightarrow> nat \<Rightarrow> bm_segment list \<times> bm_segment \<Rightarrow> error + bm_segment list \<times> bm_segment" where
  "literal_bits p b pos 0 st = Inr st"
| "literal_bits p b pos (Suc n) st =
     bindE (orUB (checkBit p b)) (\<lambda>x. literal_bits p (b + 1) (pos + 1) n (if x then set_range pos 1 st else st))"

definition segment_bits :: "payload \<Rightarrow> nat \<Rightarrow> bm_segment list \<times> bm_segment \<Rightarrow> error + bm_segment list \<times> bm_segment" where
  "segment_bits p i st =
     (let ps = pl_container p ! i; len = getSegLength p i in
      if isRun ps then
        bindE (orUB (checkBit p (dataIndex ps))) (\<lambda>x. Inr (if x then set_range (int (startPosition ps)) (int len) st else st))
      else literal_bits p (dataIndex ps) (int (startPosition ps)) len st)"

fun payload_bits :: "payload \<Rightarrow> nat list \<Rightarrow> bm_segment list \<times> bm_segment \<Rightarrow> error + bm_segment list \<times> bm_segment" where
  "payload_bits p [] st = Inr st"
| "payload_bits p (i # is) st = bindE (segment_bits p i st) (payload_bits p is)"

definition bitmap_of_payload :: "payload \<Rightarrow> error + bitmap" where
  "bitmap_of_payload p =
     bindE (payload_bits p [0..<pl_nSegs p] ([], \<lparr>lPosition = 0, seg_length = 0, pPosition = 0\<rparr>)) (\<lambda>(container, bs).
       Inr \<lparr>bm_segs = (if seg_length bs \<noteq> 0 then container @ [bs] else container),
            nNonEmptyElements = pPosition bs + seg_length bs\<rparr>)"

end
