(* ===== verification/Rle_Payload_Values.thy ===== *)
theory Rle_Payload_Values
  imports Rle_Payload
begin

text \<open>
  What a payload means: the list of the values of its cells. A complete payload stores a table
  of values (\<open>stores\<close>) that its segments refer to (\<open>decodes\<close>); \<open>holds\<close> puts the two together.
  The interface \<open>value_encoding\<close> says what the appender relies on when it stores a value; it is
  interpreted for the three encodings, bits, elements of a fixed size and values of varying size.
\<close>

unbundle bit_operations_syntax

lemma val_getBool_setBool [simp]: "val_getBool (val_setBool b) = b"
  by (simp add: val_getBool_def val_setBool_def)

section \<open>Stored values\<close>

text \<open>
  How a complete payload stores values: bits, elements of a fixed size, or offsets followed by
  the values with their sizes.
\<close>

definition fits_bool :: "val \<Rightarrow> bool" where
  "fits_bool v \<longleftrightarrow> v = VData [0] \<or> v = VData [1]"

definition fits_fixed :: "nat \<Rightarrow> val \<Rightarrow> bool" where
  "fits_fixed k v \<longleftrightarrow> \<not> val_isNull v \<and> length (val_data v) = k"

definition fits_var :: "val \<Rightarrow> bool" where
  "fits_var v \<longleftrightarrow> \<not> val_isNull v \<and> length (val_data v) < 2 ^ 32"

definition var_bytes :: "val \<Rightarrow> byte list" where
  "var_bytes v =
     (let len = length (val_data v) in
      if len = 0 \<or> 0xFF < len then 0 # le32 len @ val_data v else word_of_nat len # val_data v)"

definition var_part :: "val list \<Rightarrow> byte list" where
  "var_part tbl = concat (map var_bytes tbl)"

definition var_offsets :: "val list \<Rightarrow> byte list" where
  "var_offsets tbl = concat (map (\<lambda>i. le32 (length (var_part (take i tbl)))) [0..<length tbl])"

definition stores_bits :: "byte list \<Rightarrow> val list \<Rightarrow> bool" where
  "stores_bits bs tbl \<longleftrightarrow> length bs = (length tbl + 7) div 8 \<and>
     (\<forall>i < length tbl. tbl ! i = val_setBool (bit_at bs i)) \<and>
     (\<forall>i. length tbl \<le> i \<and> i < 8 * length bs \<longrightarrow> \<not> bit_at bs i)"

definition stores :: "payload \<Rightarrow> val list \<Rightarrow> bool" where
  "stores p tbl \<longleftrightarrow> pl_dataSize p = length (pl_data p) \<and>
     (if pl_isBoolean p then pl_elemSize p = 1 \<and> stores_bits (pl_data p) tbl
      else if pl_elemSize p = 0 then
        pl_data p = var_offsets tbl @ var_part tbl \<and> pl_varOffs p = length tbl * 4 \<and>
        length (var_part tbl) \<le> RLE_MAX_VARPART_OFFSET \<and> (\<forall>v \<in> set tbl. fits_var v)
      else pl_data p = concat (map val_data tbl) \<and> (\<forall>v \<in> set tbl. fits_fixed (pl_elemSize p) v))"

lemma fits_VData:
  "fits_fixed k v \<Longrightarrow> VData (val_data v) = v" "fits_var v \<Longrightarrow> VData (val_data v) = v"
  by (cases v; simp add: fits_fixed_def fits_var_def)+

lemma length_concat_fixed: "\<forall>v \<in> set tbl. fits_fixed k v \<Longrightarrow> length (concat (map val_data tbl)) = length tbl * k"
  by (induction tbl) (simp_all add: fits_fixed_def)

lemma bytes_at_append: "length xs = off \<Longrightarrow> length ys = n \<Longrightarrow> bytes_at (xs @ ys @ zs) off n = Some ys"
  by (simp add: bytes_at_def)

lemma concat_split: "i < length xss \<Longrightarrow> concat xss = concat (take i xss) @ xss ! i @ concat (drop (Suc i) xss)"
  using arg_cong [OF id_take_nth_drop, of i xss concat] by simp

lemma bytes_at_fixed:
  assumes "\<forall>v \<in> set tbl. fits_fixed k v" "i < length tbl"
  shows "bytes_at (concat (map val_data tbl)) (i * k) k = Some (val_data (tbl ! i))"
proof -
  have "length (concat (take i (map val_data tbl))) = i * k"
    using length_concat_fixed [of "take i tbl" k] assms by (auto simp: take_map dest: in_set_takeD)
  moreover have "length (val_data (tbl ! i)) = k" using assms by (simp add: fits_fixed_def)
  moreover have "concat (map val_data tbl) =
      concat (take i (map val_data tbl)) @ val_data (tbl ! i) @ concat (drop (Suc i) (map val_data tbl))"
    using concat_split [of i "map val_data tbl"] assms(2) by simp
  ultimately show ?thesis by (simp only: bytes_at_append)
qed

lemma var_part_simps [simp]: "var_part [] = []" "var_part (tbl @ us) = var_part tbl @ var_part us" "var_part (v # us) = var_bytes v @ var_part us"
  by (simp_all add: var_part_def)

lemma var_offsets_snoc: "var_offsets (tbl @ [v]) = var_offsets tbl @ le32 (length (var_part tbl))"
proof -
  have "concat (map (\<lambda>i. le32 (length (var_part (take i (tbl @ [v]))))) [0..<length tbl]) = var_offsets tbl"
    unfolding var_offsets_def by (intro arg_cong [where f = concat] map_cong) simp_all
  moreover have "take (length tbl) (tbl @ [v]) = tbl" by simp
  ultimately show ?thesis unfolding var_offsets_def [of "tbl @ [v]"] length_append by (simp del: take_append)
qed

lemma length_var_offsets [simp]: "length (var_offsets tbl) = length tbl * 4"
  by (induction tbl rule: rev_induct) (simp_all add: var_offsets_snoc, simp add: var_offsets_def)

lemma var_datum_bytes:
  assumes "fits_var v"
  shows "var_datum (var_bytes v @ rest) = Some (val_data v)"
proof -
  define len where "len = length (val_data v)"
  have len: "len < 2 ^ 32" using assms by (simp add: fits_var_def len_def)
  have dl: "length (val_data v) = len" by (simp add: len_def)
  show ?thesis
  proof (cases "len = 0 \<or> 0xFF < len")
    case True
    then have b: "var_bytes v = 0 # le32 len @ val_data v" by (simp add: var_bytes_def len_def Let_def)
    have "getSizeOfVarPartForOneDatum (var_bytes v @ rest) = Some (5, len)"
      using le_val_le32 [OF len] by (simp add: getSizeOfVarPartForOneDatum_def b bytes_at_def)
    moreover have "bytes_at (var_bytes v @ rest) 5 len = Some (val_data v)"
      unfolding b append_Cons append_assoc by (rule bytes_at_append [of "0 # le32 len", OF _ dl, unfolded append_Cons]) simp
    ultimately show ?thesis by (simp add: var_datum_def)
  next
    case False
    then have b: "var_bytes v = word_of_nat len # val_data v" and l: "0 < len" "len < 256" by (simp_all add: var_bytes_def len_def Let_def)
    have u: "unat (word_of_nat len :: byte) = len" using l by (simp add: unat_of_nat take_bit_eq_mod)
    then have "(word_of_nat len :: byte) \<noteq> 0" using l by (metis unat_eq_zero less_irrefl)
    then have "getSizeOfVarPartForOneDatum (var_bytes v @ rest) = Some (1, len)"
      using u by (simp add: getSizeOfVarPartForOneDatum_def b)
    moreover have "bytes_at (var_bytes v @ rest) 1 len = Some (val_data v)"
      unfolding b append_Cons by (rule bytes_at_append [of "[word_of_nat len]", OF _ dl, unfolded append_Cons append_Nil]) simp
    ultimately show ?thesis by (simp add: var_datum_def)
  qed
qed

lemma var_offset_at:
  assumes "i < length tbl"
  shows "bytes_at (var_offsets tbl @ rest) (i * 4) 4 = Some (le32 (length (var_part (take i tbl))))"
proof -
  let ?f = "\<lambda>i. le32 (length (var_part (take i tbl)))"
  have "length (concat (map ?f [0..<i])) = i * 4" by (induction i) simp_all
  moreover have "var_offsets tbl = concat (map ?f [0..<i]) @ ?f i @ concat (map ?f [Suc i..<length tbl])"
  proof -
    have "[0..<length tbl] = [0..<i] @ i # [Suc i..<length tbl]" 
      using upt_add_eq_append [of 0 i "length tbl - i"] upt_conv_Cons [OF assms] assms by simp
    then show ?thesis by (simp add: var_offsets_def)
  qed
  ultimately show ?thesis using bytes_at_append [of "concat (map ?f [0..<i])" "i * 4" "?f i" 4] by simp
qed

lemma byte_of_bit: "i < n \<Longrightarrow> i div 8 < (n + 7) div (8::nat)"
proof -
  assume "i < n"
  then have "(i + 8) div 8 \<le> (n + 7) div 8" by (intro div_le_mono) simp
  then show ?thesis by simp
qed

lemma bytes_of_bits: "r < 8 \<Longrightarrow> (8 * q + r + 7) div 8 = q + (if r = 0 then 0 else (1::nat))"
  by (rule div_nat_eqI) (auto split: if_splits)

lemma byte_of_bit_mult: "i < 8 * n \<Longrightarrow> i div 8 < (n::nat)"
  by (simp add: less_mult_imp_div_less mult.commute)

lemma stores_read_bool:
  assumes "stores_bits (pl_data p) tbl" "i < length tbl"
  shows "checkBit p i = Some (val_getBool (tbl ! i))"
proof -
  have "length (pl_data p) = (length tbl + 7) div 8" using assms(1) by (simp add: stores_bits_def)
  then have "i div 8 < length (pl_data p)" using byte_of_bit [OF assms(2)] by simp
  then show ?thesis using assms by (simp add: checkBit_def stores_bits_def bit_at_def)
qed

lemma stores_read_var:
  assumes "pl_data p = var_offsets tbl @ var_part tbl" "pl_varOffs p = length tbl * 4"
      "length (var_part tbl) \<le> RLE_MAX_VARPART_OFFSET" "\<forall>v \<in> set tbl. fits_var v" and i: "i < length tbl"
  shows "Option.bind (bytes_at (pl_data p) (i * 4) 4)
    (\<lambda>voff. map_option VData (var_datum (drop (pl_varOffs p + le_val voff) (pl_data p)))) = Some (tbl ! i)"
proof -
  let ?off = "length (var_part (take i tbl))"
  have f: "fits_var (tbl ! i)" using assms(4) i by simp
  have split: "var_part tbl = var_part (take i tbl) @ var_bytes (tbl ! i) @ var_part (drop (Suc i) tbl)"
    using concat_split [of i "map var_bytes tbl"] i by (simp add: var_part_def take_map drop_map)
  then have off: "?off < 2 ^ 32" using assms(3) by (simp add: RLE_MAX_VARPART_OFFSET_def)
  have "drop (pl_varOffs p + ?off) (pl_data p) = var_bytes (tbl ! i) @ var_part (drop (Suc i) tbl)"
    unfolding assms(1,2) by (subst split) simp
  then have "var_datum (drop (pl_varOffs p + ?off) (pl_data p)) = Some (val_data (tbl ! i))"
    using var_datum_bytes [OF f] by simp
  moreover have "bytes_at (pl_data p) (i * 4) 4 = Some (le32 ?off)" using var_offset_at [OF i] by (simp add: assms(1))
  ultimately show ?thesis using fits_VData(2) [OF f] le_val_le32 [OF off] by simp
qed

lemma stores_read:
  assumes "stores p tbl" "i < length tbl"
  shows "getValueByIndex p i = Some (tbl ! i)"
proof -
  consider "pl_isBoolean p" | "\<not> pl_isBoolean p" "pl_elemSize p = 0" | "\<not> pl_isBoolean p" "pl_elemSize p \<noteq> 0" by blast
  then show ?thesis
  proof cases
    case 1
    then have b: "stores_bits (pl_data p) tbl" using assms(1) by (simp add: stores_def)
    then have "tbl ! i = val_setBool (val_getBool (tbl ! i))" using assms(2) by (simp add: stores_bits_def)
    then show ?thesis using 1 stores_read_bool [OF b assms(2)] by (simp add: getValueByIndex_def)
  next
    case 2
    then have "Option.bind (bytes_at (pl_data p) (i * 4) 4)
        (\<lambda>voff. map_option VData (var_datum (drop (pl_varOffs p + le_val voff) (pl_data p)))) = Some (tbl ! i)"
      using assms(1) by (intro stores_read_var [OF _ _ _ _ assms(2)]) (simp_all add: stores_def)
    then show ?thesis using 2 by (simp add: getValueByIndex_def fixedSize_def)
  next
    case 3
    then have "\<forall>v \<in> set tbl. fits_fixed (pl_elemSize p) v" "pl_data p = concat (map val_data tbl)"
      using assms(1) by (simp_all add: stores_def)
    then show ?thesis using 3 bytes_at_fixed [of tbl "pl_elemSize p" i] assms(2) fits_VData(1) [of "pl_elemSize p" "tbl ! i"] by (simp add: getValueByIndex_def fixedSize_def)
  qed
qed

lemma stores_segments [simp]:
  "stores (p\<lparr>pl_container := c, pl_nSegs := n\<rparr>) tbl = stores p tbl" "stores (p\<lparr>pl_valuesCount := k\<rparr>) tbl = stores p tbl"
  by (simp_all add: stores_def)

section \<open>What segments mean\<close>

text \<open>The values of a segment, given the stored values.\<close>

definition seg_vals :: "val list \<Rightarrow> pl_segment \<Rightarrow> nat \<Rightarrow> val list" where
  "seg_vals tbl s len =
     (if isNull s then replicate len (VNull (dataIndex s))
      else if isRun s then replicate len (tbl ! dataIndex s)
      else take len (drop (dataIndex s) tbl))"

definition seg_ok :: "val list \<Rightarrow> pl_segment \<Rightarrow> nat \<Rightarrow> bool" where
  "seg_ok tbl s len \<longleftrightarrow> 0 < len \<and> dataIndex s \<le> MAX_DATA_INDEX \<and>
     (if isNull s then isRun s \<and> dataIndex s \<le> 127 else dataIndex s + (if isRun s then 1 else len) \<le> length tbl)"

inductive decodes :: "val list \<Rightarrow> nat \<Rightarrow> pl_segment list \<Rightarrow> nat \<Rightarrow> val list \<Rightarrow> bool" where
  decodes_Nil: "decodes tbl pos [] pos []"
| decodes_Cons: "startPosition s = pos \<Longrightarrow> seg_ok tbl s len \<Longrightarrow> decodes tbl (pos + len) ss e vs \<Longrightarrow>
     decodes tbl pos (s # ss) e (seg_vals tbl s len @ vs)"

inductive_simps decodes_Nil_iff [simp]: "decodes tbl pos [] e vs"
inductive_cases decodes_ConsE: "decodes tbl pos (s # ss) e vs"

lemma length_seg_vals [simp]: "seg_ok tbl s len \<Longrightarrow> length (seg_vals tbl s len) = len"
  by (auto simp: seg_ok_def seg_vals_def split: if_splits)

lemma decodes_snoc:
  "decodes tbl pos ss e vs \<Longrightarrow> startPosition s = e \<Longrightarrow> seg_ok tbl s len \<Longrightarrow>
   decodes tbl pos (ss @ [s]) (e + len) (vs @ seg_vals tbl s len)"
proof (induction rule: decodes.induct)
  case (decodes_Nil tbl pos)
  then show ?case using decodes_Cons [of s pos tbl len "[]" "pos + len" "[]"] by simp
next
  case (decodes_Cons t pos tbl n ss e vs)
  then show ?case using decodes.decodes_Cons [of t pos tbl n "ss @ [s]"] by simp
qed

lemma decodes_length: "decodes tbl pos ss e vs \<Longrightarrow> e = pos + length vs"
  by (induction rule: decodes.induct) simp_all

lemma seg_ok_append: "seg_ok tbl s len \<Longrightarrow> seg_ok (tbl @ us) s len \<and> seg_vals (tbl @ us) s len = seg_vals tbl s len"
  by (auto simp: seg_ok_def seg_vals_def nth_append)

lemma decodes_append: "decodes tbl pos ss e vs \<Longrightarrow> decodes (tbl @ us) pos ss e vs"
proof (induction rule: decodes.induct)
  case (decodes_Cons s pos tbl len ss e vs)
  then show ?case using decodes.decodes_Cons [of s pos "tbl @ us" len ss e vs] seg_ok_append [of tbl s len us] by simp
qed (rule decodes.decodes_Nil)

text \<open>The segments with the terminating one behind them.\<close>

lemma decodes_nth:
  assumes "decodes tbl pos ss e vs" "startPosition t = e" "k < length ss"
  shows "pos \<le> startPosition (ss ! k) \<and> startPosition (ss ! k) < startPosition ((ss @ [t]) ! Suc k) \<and>
    startPosition ((ss @ [t]) ! Suc k) \<le> e \<and>
    seg_ok tbl (ss ! k) (startPosition ((ss @ [t]) ! Suc k) - startPosition (ss ! k)) \<and>
    (\<forall>i. startPosition (ss ! k) \<le> i \<and> i < startPosition ((ss @ [t]) ! Suc k) \<longrightarrow>
       vs ! (i - pos) = seg_vals tbl (ss ! k) (startPosition ((ss @ [t]) ! Suc k) - startPosition (ss ! k)) ! (i - startPosition (ss ! k)))"
  using assms
proof (induction arbitrary: k rule: decodes.induct)
  case (decodes_Cons s pos tbl len ss e vs)
  have len: "0 < len" using decodes_Cons.hyps(2) by (simp add: seg_ok_def)
  have next_start: "startPosition ((ss @ [t]) ! 0) = pos + len"
    using decodes_Cons.hyps(3) decodes_Cons.prems(1) by (cases rule: decodes.cases) (auto simp: nth_append)
  have e: "pos + len \<le> e" using decodes_length [OF decodes_Cons.hyps(3)] by simp
  show ?case
  proof (cases k)
    case 0
    then show ?thesis using len next_start e decodes_Cons.hyps(1,2) by (auto simp: nth_append)
  next
    case (Suc j)
    then have j: "j < length ss" using decodes_Cons.prems(2) by simp
    note IH = decodes_Cons.IH [OF decodes_Cons.prems(1) j]
    have "(seg_vals tbl s len @ vs) ! (i - pos) = vs ! (i - (pos + len))" if "pos + len \<le> i" for i
      using that decodes_Cons.hyps(2) by (auto simp: nth_append)
    then show ?thesis using IH Suc by (auto simp: nth_append split: if_splits)
  qed
qed simp

lemma decodes_index:
  "decodes us pos ss e ws \<Longrightarrow> s \<in> set ss \<Longrightarrow> \<not> isNull s \<Longrightarrow> dataIndex s \<le> length us"
proof (induction rule: decodes.induct)
  case (decodes_Cons t pos tbl len ss e vs)
  then show ?case by (cases "s = t") (auto simp: seg_ok_def split: if_splits)
qed simp

lemma decodes_starts:
  assumes "decodes tbl pos ss e vs" "startPosition t = e" "i < j" "j \<le> length ss"
  shows "startPosition ((ss @ [t]) ! i) < startPosition ((ss @ [t]) ! j)"
  using assms(3,4)
proof (induction j)
  case (Suc j)
  have "startPosition ((ss @ [t]) ! j) < startPosition ((ss @ [t]) ! Suc j)"
    using decodes_nth [OF assms(1,2), of j] Suc.prems by (simp add: nth_append)
  then show ?case using Suc by (cases "i = j") auto
qed simp

section \<open>Reading at a position\<close>

text \<open>A payload that is complete, with its stored values and the values it stands for.\<close>

definition holds :: "payload \<Rightarrow> val list \<Rightarrow> val list \<Rightarrow> bool" where
  "holds p tbl vs \<longleftrightarrow>
     (\<exists>ss t. pl_container p = ss @ [t] \<and> pl_nSegs p = length ss \<and> startPosition t = length vs \<and>
        (isNull t \<or> dataIndex t \<le> length tbl) \<and> decodes tbl 0 ss (length vs) vs) \<and>
     stores p tbl"

lemma holds_read:
  assumes "holds p tbl vs"
  shows "\<forall>i < length tbl. getValueByIndex p i = Some (tbl ! i)" "pl_isBoolean p \<longrightarrow> pl_elemSize p \<noteq> 0"
  using assms stores_read by (auto simp: holds_def stores_def)

lemma seg_value:
  assumes "seg_ok tbl s len" "i < len" "\<forall>i < length tbl. getValueByIndex p i = Some (tbl ! i)"
  shows "(if isNull s then val_setNull (dataIndex s) else orUB (getValueByIndex p (dataIndex s + (if isRun s then 0 else i)))) =
    Inr (seg_vals tbl s len ! i)"
  using assms by (auto simp: seg_ok_def seg_vals_def val_setNull_def)

lemma holds_segment:
  assumes "holds p tbl vs" "k < pl_nSegs p"
  defines "a \<equiv> startPosition (pl_container p ! k)" and "b \<equiv> startPosition (pl_container p ! (k + 1))"
  shows "a < b" "b \<le> length vs" "seg_ok tbl (pl_container p ! k) (b - a)"
    "a \<le> i \<Longrightarrow> i < b \<Longrightarrow> vs ! i = seg_vals tbl (pl_container p ! k) (b - a) ! (i - a)"
proof -
  obtain ss t where p: "pl_container p = ss @ [t]" "pl_nSegs p = length ss" "startPosition t = length vs"
      "decodes tbl 0 ss (length vs) vs" using assms(1) by (auto simp: holds_def)
  note n = decodes_nth [OF p(4,3), of k]
  show "a < b" "b \<le> length vs" "seg_ok tbl (pl_container p ! k) (b - a)"
    "a \<le> i \<Longrightarrow> i < b \<Longrightarrow> vs ! i = seg_vals tbl (pl_container p ! k) (b - a) ! (i - a)"
    using n assms(2) p(1,2) by (auto simp: a_def b_def nth_append)
qed

lemma holds_starts:
  assumes "holds p tbl vs" "i < j" "j \<le> pl_nSegs p"
  shows "startPosition (pl_container p ! i) < startPosition (pl_container p ! j)"
  using assms decodes_starts by (auto simp: holds_def)

lemma holds_ends:
  assumes "holds p tbl vs"
  shows "startPosition (pl_container p ! pl_nSegs p) = length vs" "startPosition (pl_container p ! 0) = 0"
proof -
  obtain ss t where p: "pl_container p = ss @ [t]" "pl_nSegs p = length ss" "startPosition t = length vs"
      "decodes tbl 0 ss (length vs) vs" using assms(1) by (auto simp: holds_def)
  show "startPosition (pl_container p ! pl_nSegs p) = length vs" using p by simp
  show "startPosition (pl_container p ! 0) = 0"
    using p(4,1,3) by (cases rule: decodes.cases) auto
qed

text \<open>The segment of a position.\<close>

lemma segment_of_position:
  assumes "holds p tbl vs" "bsearch (\<lambda>m. startPosition (pl_container p ! (m + 1)) \<le> pos) 0 (pl_nSegs p) = r"
  shows "pos < length vs \<Longrightarrow> r < pl_nSegs p \<and> startPosition (pl_container p ! r) \<le> pos \<and> pos < startPosition (pl_container p ! (r + 1))"
    "length vs \<le> pos \<Longrightarrow> r = pl_nSegs p"
proof -
  let ?st = "\<lambda>i. startPosition (pl_container p ! i)"
  have mono: "\<forall>i j. i \<le> j \<and> j < pl_nSegs p \<and> ?st (j + 1) \<le> pos \<longrightarrow> ?st (i + 1) \<le> pos"
  proof (intro allI impI, elim conjE)
    fix i j assume ij: "i \<le> j" "j < pl_nSegs p" "?st (j + 1) \<le> pos"
    have "?st (i + 1) \<le> ?st (j + 1)"
      using holds_starts [OF assms(1), of "i + 1" "j + 1"] ij(1,2) by (cases "i = j") auto
    then show "?st (i + 1) \<le> pos" using ij(3) by simp
  qed
  note b = bsearch_least [OF mono assms(2)]
  have e: "?st (pl_nSegs p) = length vs" "?st 0 = 0" using holds_ends [OF assms(1)] by simp_all
  show "r = pl_nSegs p" if "length vs \<le> pos"
  proof (rule ccontr)
    assume "r \<noteq> pl_nSegs p"
    then have r: "r < pl_nSegs p" using b(1) by simp
    have "?st (r + 1) \<le> length vs" using holds_segment(2) [OF assms(1) r] .
    then show False using b(3) [OF r] that by simp
  qed
  show "r < pl_nSegs p \<and> ?st r \<le> pos \<and> pos < ?st (r + 1)" if l: "pos < length vs"
  proof -
    have "r < pl_nSegs p"
    proof (rule ccontr)
      assume "\<not> r < pl_nSegs p"
      then have rn: "r = pl_nSegs p" using b(1) by simp
      then show False using b(2) [of "r - 1"] e l by (cases r) auto
    qed
    moreover have "?st r \<le> pos" using b(2) [of "r - 1"] e(2) by (cases r) auto
    ultimately show ?thesis using b(3) by simp
  qed
qed

lemma holds_position:
  assumes "holds p tbl vs"
  shows "getValueByPosition p pos = Inr (if pos < length vs then Some (vs ! pos) else None)"
proof -
  obtain r where r: "bsearch (\<lambda>m. startPosition (pl_container p ! (m + 1)) \<le> pos) 0 (pl_nSegs p) = r" by simp
  note s = segment_of_position [OF assms r]
  show ?thesis
  proof (cases "pos < length vs")
    case True
    let ?s = "pl_container p ! r" and ?len = "startPosition (pl_container p ! (r + 1)) - startPosition (pl_container p ! r)"
    have b: "r < pl_nSegs p" "startPosition ?s \<le> pos" "pos < startPosition (pl_container p ! (r + 1))" using s(1) True by simp_all
    have "seg_ok tbl ?s ?len" by (rule holds_segment(3) [OF assms b(1)])
    moreover have "vs ! pos = seg_vals tbl ?s ?len ! (pos - startPosition ?s)" by (rule holds_segment(4) [OF assms b])
    moreover have "\<forall>i < length tbl. getValueByIndex p i = Some (tbl ! i)" by (rule holds_read(1) [OF assms])
    ultimately show ?thesis
      using seg_value [of tbl ?s ?len "pos - startPosition ?s" p] b True r
      by (auto simp: getValueByPosition_def Let_def split: if_splits)
  next
    case False
    then show ?thesis using s(2) r by (simp add: getValueByPosition_def)
  qed
qed

section \<open>The encodings of values\<close>

text \<open>
  What the appender relies on. \<open>enc p varPart tbl\<close>: the payload and the part of varying
  size that is still outside of it store the values \<open>tbl\<close>; \<open>room\<close> bounds how many values
  and bytes there may be.
\<close>

definition runs :: "(val \<times> nat) list \<Rightarrow> val list" where
  "runs xs = concat (map (\<lambda>(v, cnt). replicate cnt v) xs)"

fun ai_add_all :: "(val \<times> nat) list \<Rightarrow> append_iterator \<Rightarrow> error + append_iterator" where
  "ai_add_all [] a = Inr a"
| "ai_add_all ((v, cnt) # xs) a = bindE (ai_add v cnt a) (ai_add_all xs)"

text \<open>What is stored of some values has no more of anything than they have.\<close>

definition within :: "val list \<Rightarrow> val list \<Rightarrow> bool" where
  "within tbl us \<longleftrightarrow> (\<forall>w :: val \<Rightarrow> nat. sum_list (map w tbl) \<le> sum_list (map w us))"

lemma within_sum: "within tbl us \<Longrightarrow> sum_list (map w tbl) \<le> sum_list (map w us)" for w :: "val \<Rightarrow> nat"
  by (simp add: within_def)

lemma within_length: "within tbl us \<Longrightarrow> length tbl \<le> length us"
  using within_sum [of tbl us "\<lambda>_. 1"] by (simp add: sum_list_triv)

lemma within_refl [simp]: "within tbl tbl"
  by (simp add: within_def)

definition append_all :: "(val \<times> nat) list \<Rightarrow> payload \<Rightarrow> error + payload" where
  "append_all xs p = bindE (ai_add_all xs (append_iterator p)) ai_flush"

lemma small_reason: "reason \<le> 127 \<Longrightarrow> reason \<le> MAX_DATA_INDEX"
  by (simp add: MAX_DATA_INDEX_def)

lemma setValueIndex_ok: "i \<le> MAX_DATA_INDEX \<Longrightarrow> setValueIndex i s = Inr (s\<lparr>dataIndex := i\<rparr>)"
  by (simp add: setValueIndex_def setDataIndex_def MAX_DATA_INDEX_def)

locale value_encoding =
  fixes enc :: "payload \<Rightarrow> byte list \<Rightarrow> val list \<Rightarrow> bool"
    and fits :: "val \<Rightarrow> bool"
    and room :: "val list \<Rightarrow> bool"
  assumes enc_segments: "enc (p\<lparr>pl_container := c, pl_nSegs := n\<rparr>) varPart tbl \<longleftrightarrow> enc p varPart tbl"
    and enc_append: "enc p varPart tbl \<Longrightarrow> fits v \<Longrightarrow> room (tbl @ [v]) \<Longrightarrow>
      \<exists>p' varPart'. appendValue varPart v (length tbl) p = Inr (p', varPart') \<and> enc p' varPart' (tbl @ [v]) \<and>
        pl_container p' = pl_container p"
    and enc_finish: "enc p varPart tbl \<Longrightarrow>
      \<exists>p'. (if varPart \<noteq> [] then setVarPart varPart (p\<lparr>pl_valuesCount := k\<rparr>) else Inr (p\<lparr>pl_valuesCount := k\<rparr>)) = Inr p' \<and>
        pl_container p' = pl_container p \<and> stores p' tbl"
    and fits_data: "fits v \<Longrightarrow> \<exists>bs. v = VData bs"
    and room_prefix: "room (tbl @ us) \<Longrightarrow> room tbl"
    and room_drop: "room (tbl @ v # us) \<Longrightarrow> room (tbl @ us)"
    and room_bound: "room tbl \<Longrightarrow> length tbl \<le> MAX_DATA_INDEX + 1"
begin

text \<open>The state of the appender: the stored values and the values it stands for.\<close>

definition ai_ok :: "val list \<Rightarrow> val list \<Rightarrow> append_iterator \<Rightarrow> bool" where
  "ai_ok tbl vs a \<longleftrightarrow>
     enc (ai_result a) (ai_varPart a) tbl \<and> room tbl \<and> length tbl = ai_valueIndex a \<and> (vs = [] \<longrightarrow> tbl = []) \<and>
     (\<exists>ws. decodes tbl 0 (pl_container (ai_result a)) (startPosition (ai_segm a)) ws \<and>
        (if ai_segLength a = 0 then vs = ws
         else seg_ok tbl (ai_segm a) (ai_segLength a) \<and> vs = ws @ seg_vals tbl (ai_segm a) (ai_segLength a) \<and>
           (\<not> isNull (ai_segm a) \<longrightarrow> tbl \<noteq> [] \<and> ai_prevVal a = last tbl \<and>
              (if isRun (ai_segm a) then dataIndex (ai_segm a) + 1 = length tbl
               else 1 < ai_segLength a \<and> dataIndex (ai_segm a) + ai_segLength a = length tbl))))"

lemma enc_addSegment [simp]: "enc (pl_addSegment s p) varPart tbl \<longleftrightarrow> enc p varPart tbl"
  unfolding pl_addSegment_def by (rule enc_segments)

lemma ai_close_ok:
  assumes "ai_ok tbl vs a" "ai_segLength a \<noteq> 0"
  shows "ai_ok tbl vs (ai_close a)"
proof -
  obtain ws where ws: "decodes tbl 0 (pl_container (ai_result a)) (startPosition (ai_segm a)) ws"
      "seg_ok tbl (ai_segm a) (ai_segLength a)" "vs = ws @ seg_vals tbl (ai_segm a) (ai_segLength a)"
    using assms by (auto simp: ai_ok_def)
  have "decodes tbl 0 (pl_container (ai_result (ai_close a))) (startPosition (ai_segm (ai_close a))) vs"
    using decodes_snoc [OF ws(1) refl ws(2)] unfolding ws(3) by (simp add: ai_close_def addToPPosition_def pl_addSegment_def)
  moreover have "enc (ai_result a) (ai_varPart a) tbl" "room tbl" "length tbl = ai_valueIndex a" "vs = [] \<longrightarrow> tbl = []"
    using assms(1) by (simp_all add: ai_ok_def)
  ultimately show ?thesis by (simp add: ai_ok_def) (simp add: ai_close_def)
qed

lemma ai_add_null_ok:
  assumes "ai_ok tbl vs a" "reason \<le> 127" "0 < cnt"
  shows "\<exists>a'. ai_add_null reason cnt a = Inr a' \<and> ai_ok tbl (vs @ replicate cnt (VNull reason)) a'"
proof -
  define a1 where "a1 = (if ai_segLength a \<noteq> 0 \<and> (\<not> isNull (ai_segm a) \<or> dataIndex (ai_segm a) \<noteq> reason) then ai_close a else a)"
  have a1: "ai_ok tbl vs a1" "ai_segLength a1 \<noteq> 0 \<longrightarrow> isNull (ai_segm a1) \<and> dataIndex (ai_segm a1) = reason"
    using assms(1) ai_close_ok by (auto simp: a1_def ai_close_def)
  define a' where "a' = a1\<lparr>ai_segLength := ai_segLength a1 + cnt,
    ai_segm := (setSame True (setNull True (ai_segm a1)))\<lparr>dataIndex := reason\<rparr>\<rparr>"
  have "ai_add_null reason cnt a = Inr a'"
    unfolding ai_add_null_def a1_def [symmetric] by (simp add: Let_def setValueIndex_ok [OF small_reason [OF assms(2)]] a'_def)
  moreover have "ai_ok tbl (vs @ replicate cnt (VNull reason)) a'"
    using a1 assms(2,3) small_reason [OF assms(2)]
    by (cases "ai_segLength a1 = 0")
      (auto simp: ai_ok_def a'_def setSame_def setNull_def seg_ok_def seg_vals_def replicate_add)
  ultimately show ?thesis by blast
qed

lemma ai_ok_open:
  assumes "ai_ok tbl vs a" "ai_segLength a \<noteq> 0"
  obtains ws where "decodes tbl 0 (pl_container (ai_result a)) (startPosition (ai_segm a)) ws" "seg_ok tbl (ai_segm a) (ai_segLength a)"
    "vs = ws @ seg_vals tbl (ai_segm a) (ai_segLength a)"
    "\<not> isNull (ai_segm a) \<Longrightarrow> tbl \<noteq> [] \<and> ai_prevVal a = last tbl \<and>
       (if isRun (ai_segm a) then dataIndex (ai_segm a) + 1 = length tbl
        else 1 < ai_segLength a \<and> dataIndex (ai_segm a) + ai_segLength a = length tbl)"
  using assms by (auto simp: ai_ok_def)

lemma ai_okI:
  assumes "enc (ai_result a) (ai_varPart a) tbl" "room tbl" "length tbl = ai_valueIndex a"
    and "decodes tbl 0 (pl_container (ai_result a)) (startPosition (ai_segm a)) ws" "seg_ok tbl (ai_segm a) (ai_segLength a)"
    and "vs = ws @ seg_vals tbl (ai_segm a) (ai_segLength a)" "\<not> isNull (ai_segm a)" "tbl \<noteq> []" "ai_prevVal a = last tbl"
    and "if isRun (ai_segm a) then dataIndex (ai_segm a) + 1 = length tbl
        else 1 < ai_segLength a \<and> dataIndex (ai_segm a) + ai_segLength a = length tbl"
  shows "ai_ok tbl vs a"
proof -
  have "0 < ai_segLength a" using assms(5) by (simp add: seg_ok_def)
  moreover from this have "vs \<noteq> []" using length_seg_vals [OF assms(5)] assms(6) by auto
  ultimately show ?thesis unfolding ai_ok_def using assms by (intro conjI exI [of _ ws]) simp_all
qed

lemma ai_ok_index:
  assumes "ai_ok tbl vs a"
  shows "enc (ai_result a) (ai_varPart a) tbl" "room tbl" "length tbl = ai_valueIndex a" "ai_valueIndex a \<le> MAX_DATA_INDEX + 1"
  using assms room_bound [of tbl] by (auto simp: ai_ok_def)

lemma last_segment_value: "tbl \<noteq> [] \<Longrightarrow> i + 1 = length tbl \<Longrightarrow> tbl ! i = last tbl"
  by (metis add_diff_cancel_right' last_conv_nth)

lemma literal_last:
  assumes "dataIndex s + n = length tbl" "1 < n" "\<not> isNull s" "\<not> isRun s"
  shows "seg_vals tbl s n = seg_vals tbl s (n - 1) @ [last tbl]"
proof -
  define ds where "ds = drop (dataIndex s) tbl"
  have l: "length ds = n" using assms(1) by (simp add: ds_def)
  then have ne: "ds \<noteq> []" using assms(2) by auto
  have "last ds = last tbl" using ne by (simp add: ds_def)
  then have "ds = butlast ds @ [last tbl]" using ne by (metis append_butlast_last_id)
  moreover have "butlast ds = take (n - 1) ds" using l by (simp add: butlast_conv_take)
  ultimately show ?thesis using assms(3,4) l by (simp add: seg_vals_def ds_def)
qed

lemma ai_add_repeated_ok:
  assumes ok: "ai_ok tbl vs a" and n: "ai_segLength a \<noteq> 0" "\<not> isNull (ai_segm a)" "0 < cnt"
  shows "\<exists>a'. ai_add_repeated cnt a = Inr a' \<and> ai_ok tbl (vs @ replicate cnt (ai_prevVal a)) a'"
proof -
  let ?s = "ai_segm a" and ?n = "ai_segLength a"
  note i = ai_ok_index [OF ok]
  obtain ws where ws: "decodes tbl 0 (pl_container (ai_result a)) (startPosition ?s) ws" "seg_ok tbl ?s ?n"
      "vs = ws @ seg_vals tbl ?s ?n" "tbl \<noteq> []" "ai_prevVal a = last tbl"
      "if isRun ?s then dataIndex ?s + 1 = length tbl else 1 < ?n \<and> dataIndex ?s + ?n = length tbl"
    using ai_ok_open [OF ok n(1)] n(2) by metis
  show ?thesis
  proof (cases "isRun ?s")
    case True
    have v: "tbl ! dataIndex ?s = last tbl" using last_segment_value [OF ws(4)] ws(6) True by simp
    have "ai_ok tbl (vs @ replicate cnt (ai_prevVal a)) (a\<lparr>ai_segLength := ?n + cnt\<rparr>)"
      by (rule ai_okI [where ws = ws]) (use i ws n True v in \<open>simp_all add: seg_ok_def seg_vals_def replicate_add\<close>)
    then show ?thesis using True by (simp add: ai_add_repeated_def)
  next
    case False
    define s' where "s' = (setSame True (addToPPosition (?n - 1) ?s))\<lparr>dataIndex := ai_valueIndex a - 1\<rparr>"
    define a' where "a' = a\<lparr>ai_result := pl_addSegment ?s (ai_result a), ai_segm := s', ai_segLength := 1 + cnt\<rparr>"
    have idx: "ai_valueIndex a - 1 \<le> MAX_DATA_INDEX" using i(4) by simp
    have eq: "ai_add_repeated cnt a = Inr a'"
      using setValueIndex_ok [OF idx] by (simp add: ai_add_repeated_def False Let_def s'_def a'_def)
    have m: "1 < ?n" "dataIndex ?s + ?n = length tbl" using ws(6) False by simp_all
    have so: "seg_ok tbl ?s (?n - 1)" using ws(2) m False n(2) by (simp add: seg_ok_def)
    have "ai_ok tbl (vs @ replicate cnt (ai_prevVal a)) a'"
    proof (rule ai_okI [where ws = "ws @ seg_vals tbl ?s (?n - 1)"])
      show "decodes tbl 0 (pl_container (ai_result a')) (startPosition (ai_segm a')) (ws @ seg_vals tbl ?s (?n - 1))"
        using decodes_snoc [OF ws(1) refl so] by (simp add: a'_def pl_addSegment_def s'_def setSame_def addToPPosition_def)
      have last: "tbl ! (ai_valueIndex a - 1) = last tbl" using ws(4) i(3) by (simp add: last_conv_nth)
      have sv: "seg_vals tbl s' (1 + cnt) = last tbl # replicate cnt (last tbl)"
        using last n(2) by (simp add: seg_vals_def s'_def setSame_def addToPPosition_def)
      show "vs @ replicate cnt (ai_prevVal a) = (ws @ seg_vals tbl ?s (?n - 1)) @ seg_vals tbl (ai_segm a') (ai_segLength a')"
        using literal_last [OF m(2,1) n(2) False] ws(3,5) sv by (simp add: a'_def)
      have "0 < ai_valueIndex a" using ws(4) i(3) by (cases tbl) auto
      then show "seg_ok tbl (ai_segm a') (ai_segLength a')"
          "if isRun (ai_segm a') then dataIndex (ai_segm a') + 1 = length tbl
           else 1 < ai_segLength a' \<and> dataIndex (ai_segm a') + ai_segLength a' = length tbl"
        using i(3) idx n(2) by (simp_all add: seg_ok_def a'_def s'_def setSame_def addToPPosition_def)
    qed (use i ws n in \<open>simp_all add: a'_def s'_def setSame_def addToPPosition_def\<close>)
    with eq show ?thesis by blast
  qed
qed

lemma ai_ok_closed:
  assumes "ai_ok tbl vs a" "ai_segLength a = 0"
  shows "decodes tbl 0 (pl_container (ai_result a)) (startPosition (ai_segm a)) vs"
  using assms by (auto simp: ai_ok_def)

text \<open>A value of its own: the segment is ready for it, then it is stored.\<close>

definition ready :: "nat \<Rightarrow> append_iterator \<Rightarrow> bool" where
  "ready cnt a \<longleftrightarrow> \<not> isNull (ai_segm a) \<and>
     (if ai_segLength a = 0 then isRun (ai_segm a) \<and> dataIndex (ai_segm a) = ai_valueIndex a
      else cnt = 1 \<and> \<not> isRun (ai_segm a))"

lemma ai_store_ok:
  assumes enc: "enc (ai_result a) (ai_varPart a) tbl" "length tbl = ai_valueIndex a" and v: "fits v" "room (tbl @ [v])" "0 < cnt"
    and d: "decodes tbl 0 (pl_container (ai_result a)) (startPosition (ai_segm a)) ws"
    and vs: "vs = ws @ (if ai_segLength a = 0 then [] else seg_vals tbl (ai_segm a) (ai_segLength a))"
    and r: "ready cnt a" "ai_segLength a \<noteq> 0 \<Longrightarrow> dataIndex (ai_segm a) + ai_segLength a = length tbl"
  shows "\<exists>p varPart. appendValue (ai_varPart a) v (ai_valueIndex a) (ai_result a) = Inr (p, varPart) \<and>
    ai_ok (tbl @ [v]) (vs @ replicate cnt v) (a\<lparr>ai_segLength := ai_segLength a + cnt, ai_result := p, ai_varPart := varPart,
                   ai_valueIndex := ai_valueIndex a + 1, ai_prevVal := v\<rparr>)"
proof -
  obtain p varPart where p: "appendValue (ai_varPart a) v (ai_valueIndex a) (ai_result a) = Inr (p, varPart)"
      "enc p varPart (tbl @ [v])" "pl_container p = pl_container (ai_result a)"
    using enc_append [OF enc(1) v(1,2)] enc(2) by auto
  have idx: "length tbl \<le> MAX_DATA_INDEX" using room_bound [OF v(2)] by simp
  define a' where "a' = a\<lparr>ai_segLength := ai_segLength a + cnt, ai_result := p, ai_varPart := varPart,
                   ai_valueIndex := ai_valueIndex a + 1, ai_prevVal := v\<rparr>"
  have "ai_ok (tbl @ [v]) (vs @ replicate cnt v) a'"
  proof (rule ai_okI [where ws = ws])
    show "decodes (tbl @ [v]) 0 (pl_container (ai_result a')) (startPosition (ai_segm a')) ws"
      using decodes_append [OF d] p(3) by (simp add: a'_def)
    show "seg_ok (tbl @ [v]) (ai_segm a') (ai_segLength a')"
        "if isRun (ai_segm a') then dataIndex (ai_segm a') + 1 = length (tbl @ [v])
           else 1 < ai_segLength a' \<and> dataIndex (ai_segm a') + ai_segLength a' = length (tbl @ [v])"
      using r enc(2) idx v(3) by (auto simp: ready_def seg_ok_def a'_def split: if_splits)
    show "vs @ replicate cnt v = ws @ seg_vals (tbl @ [v]) (ai_segm a') (ai_segLength a')"
      using r enc(2) vs by (auto simp: ready_def seg_vals_def a'_def nth_append split: if_splits)
  qed (use p(2) v(2) enc(2) r(1) in \<open>simp_all add: a'_def ready_def\<close>)
  then show ?thesis using p(1) by (auto simp: a'_def)
qed

lemma ai_add_new_ok:
  assumes ok: "ai_ok tbl vs a" and v: "fits v" "room (tbl @ [v])" "0 < cnt"
  shows "\<exists>a'. ai_add_new v cnt a = Inr a' \<and> ai_ok (tbl @ [v]) (vs @ replicate cnt v) a'"
proof -
  note i = ai_ok_index [OF ok]
  have idx: "ai_valueIndex a \<le> MAX_DATA_INDEX" using room_bound [OF v(2)] i(3) by simp
  define closed where "closed = (if ai_segLength a \<noteq> 0 then ai_close a else a)"
  have cl: "ai_ok tbl vs closed" "ai_segLength closed = 0" "ai_valueIndex closed = ai_valueIndex a"
    using ok ai_close_ok by (auto simp: closed_def ai_close_def)
  note ci = ai_ok_index [OF cl(1)] and cd = ai_ok_closed [OF cl(1,2)]
  have fin: ?thesis
    if a2: "(if ai_segLength a = 0 \<or> isNull (ai_segm a) \<or> 1 < cnt then
          (let a1 = closed in
           bindE (setValueIndex (ai_valueIndex a1) (setNull False (setSame True (ai_segm a1)))) (\<lambda>s.
             Inr (a1\<lparr>ai_segm := s\<rparr>)))
        else if 1 < ai_segLength a \<and> isRun (ai_segm a) then
          (let a1 = ai_close a in
           bindE (setValueIndex (ai_valueIndex a1) (ai_segm a1)) (\<lambda>s. Inr (a1\<lparr>ai_segm := s\<rparr>)))
        else Inr (a\<lparr>ai_segm := setSame False (ai_segm a)\<rparr>)) = Inr a2"
      and st: "\<exists>p varPart. appendValue (ai_varPart a2) v (ai_valueIndex a2) (ai_result a2) = Inr (p, varPart) \<and>
        ai_ok (tbl @ [v]) (vs @ replicate cnt v) (a2\<lparr>ai_segLength := ai_segLength a2 + cnt, ai_result := p, ai_varPart := varPart,
                   ai_valueIndex := ai_valueIndex a2 + 1, ai_prevVal := v\<rparr>)" for a2
  proof -
    obtain p varPart where "appendValue (ai_varPart a2) v (ai_valueIndex a2) (ai_result a2) = Inr (p, varPart)"
        "ai_ok (tbl @ [v]) (vs @ replicate cnt v) (a2\<lparr>ai_segLength := ai_segLength a2 + cnt, ai_result := p, ai_varPart := varPart,
                   ai_valueIndex := ai_valueIndex a2 + 1, ai_prevVal := v\<rparr>)" using st by blast
    then show ?thesis unfolding ai_add_new_def closed_def [symmetric] a2 by simp
  qed
  consider "ai_segLength a = 0 \<or> isNull (ai_segm a) \<or> 1 < cnt"
    | "ai_segLength a \<noteq> 0" "\<not> isNull (ai_segm a)" "cnt = 1" "1 < ai_segLength a" "isRun (ai_segm a)"
    | "ai_segLength a \<noteq> 0" "\<not> isNull (ai_segm a)" "cnt = 1" "\<not> (1 < ai_segLength a \<and> isRun (ai_segm a))"
    using v(3) by linarith
  then show ?thesis
  proof cases
    case 1
    define a2 where "a2 = closed\<lparr>ai_segm := (setNull False (setSame True (ai_segm closed)))\<lparr>dataIndex := ai_valueIndex a\<rparr>\<rparr>"
    show ?thesis
    proof (rule fin [of a2])
      show "\<exists>p varPart. appendValue (ai_varPart a2) v (ai_valueIndex a2) (ai_result a2) = Inr (p, varPart) \<and>
        ai_ok (tbl @ [v]) (vs @ replicate cnt v) (a2\<lparr>ai_segLength := ai_segLength a2 + cnt, ai_result := p, ai_varPart := varPart,
                   ai_valueIndex := ai_valueIndex a2 + 1, ai_prevVal := v\<rparr>)"
        by (rule ai_store_ok [where ws = vs])
          (use ci cd cl v in \<open>simp_all add: a2_def ready_def setNull_def setSame_def\<close>)
    qed (use 1 in \<open>simp add: a2_def cl(3) setValueIndex_ok [OF idx]\<close>)
  next
    case 2
    have c: "closed = ai_close a" using 2 by (simp add: closed_def)
    have f: "\<not> isNull (ai_segm closed)" "isRun (ai_segm closed)" using 2 by (simp_all add: c ai_close_def addToPPosition_def)
    define a2 where "a2 = closed\<lparr>ai_segm := (ai_segm closed)\<lparr>dataIndex := ai_valueIndex a\<rparr>\<rparr>"
    show ?thesis
    proof (rule fin [of a2])
      show "\<exists>p varPart. appendValue (ai_varPart a2) v (ai_valueIndex a2) (ai_result a2) = Inr (p, varPart) \<and>
        ai_ok (tbl @ [v]) (vs @ replicate cnt v) (a2\<lparr>ai_segLength := ai_segLength a2 + cnt, ai_result := p, ai_varPart := varPart,
                   ai_valueIndex := ai_valueIndex a2 + 1, ai_prevVal := v\<rparr>)"
        by (rule ai_store_ok [where ws = vs]) (use ci cd cl v f in \<open>simp_all add: a2_def ready_def\<close>)
    qed (use 2 cl(3) in \<open>simp add: a2_def c setValueIndex_ok [OF idx] Let_def\<close>)
  next
    case 3
    obtain ws where ws: "decodes tbl 0 (pl_container (ai_result a)) (startPosition (ai_segm a)) ws"
        "vs = ws @ seg_vals tbl (ai_segm a) (ai_segLength a)"
        "tbl \<noteq> []" "if isRun (ai_segm a) then dataIndex (ai_segm a) + 1 = length tbl
           else 1 < ai_segLength a \<and> dataIndex (ai_segm a) + ai_segLength a = length tbl"
      using ai_ok_open [OF ok 3(1)] 3(2) by metis
    define a2 where "a2 = a\<lparr>ai_segm := setSame False (ai_segm a)\<rparr>"
    have one: "isRun (ai_segm a) \<Longrightarrow> ai_segLength a = 1" using 3 by simp
    have sv: "seg_vals tbl (ai_segm a2) (ai_segLength a2) = seg_vals tbl (ai_segm a) (ai_segLength a)"
      using 3(2) one ws(4) by (cases "isRun (ai_segm a)")
        (simp_all add: a2_def setSame_def seg_vals_def take_Suc_conv_app_nth Cons_nth_drop_Suc [symmetric])
    show ?thesis
    proof (rule fin [of a2])
      show "\<exists>p varPart. appendValue (ai_varPart a2) v (ai_valueIndex a2) (ai_result a2) = Inr (p, varPart) \<and>
        ai_ok (tbl @ [v]) (vs @ replicate cnt v) (a2\<lparr>ai_segLength := ai_segLength a2 + cnt, ai_result := p, ai_varPart := varPart,
                   ai_valueIndex := ai_valueIndex a2 + 1, ai_prevVal := v\<rparr>)"
      proof (rule ai_store_ok [where ws = ws])
        show "vs = ws @ (if ai_segLength a2 = 0 then [] else seg_vals tbl (ai_segm a2) (ai_segLength a2))"
          unfolding sv using ws(2) 3(1) by (simp add: a2_def)
        show "dataIndex (ai_segm a2) + ai_segLength a2 = length tbl" using ws(4) one by (auto simp: a2_def setSame_def split: if_splits)
      qed (use i ws v 3 in \<open>simp_all add: a2_def ready_def setSame_def\<close>)
    qed (use 3 in \<open>auto simp: a2_def\<close>)
  qed
qed

lemma ai_add_ok:
  assumes ok: "ai_ok tbl vs a" and v: "case v of VNull reason \<Rightarrow> reason \<le> 127 | VData _ \<Rightarrow> fits v \<and> room (tbl @ [v])" "0 < cnt"
  shows "\<exists>a' tbl'. ai_add v cnt a = Inr a' \<and> ai_ok tbl' (vs @ replicate cnt v) a' \<and>
    (tbl' = tbl \<or> \<not> val_isNull v \<and> tbl' = tbl @ [v])"
proof (cases v)
  case (VNull reason)
  then have "ai_add v cnt a = ai_add_null reason cnt a" by (simp add: ai_add_def)
  then show ?thesis using ai_add_null_ok [OF ok, of reason cnt] v VNull by auto
next
  case (VData bs)
  show ?thesis
  proof (cases "ai_segLength a \<noteq> 0 \<and> \<not> isNull (ai_segm a) \<and> v = ai_prevVal a")
    case True
    then have "ai_add v cnt a = ai_add_repeated cnt a" using VData by (auto simp: ai_add_def split: val.split)
    then show ?thesis using ai_add_repeated_ok [OF ok, of cnt] True v(2) by auto
  next
    case False
    then have "ai_add v cnt a = ai_add_new v cnt a" using VData by (auto simp: ai_add_def)
    then show ?thesis using ai_add_new_ok [OF ok, of v cnt] v VData by auto
  qed
qed

lemma ai_add_all_ok:
  assumes "ai_ok tbl vs a" "\<forall>(v, cnt) \<in> set xs. 0 < cnt \<and> (case v of VNull reason \<Rightarrow> reason \<le> 127 | VData _ \<Rightarrow> fits v)"
    and "room (tbl @ filter (\<lambda>v. \<not> val_isNull v) (map fst xs))"
  shows "\<exists>a' tbl'. ai_add_all xs a = Inr a' \<and> ai_ok tbl' (vs @ runs xs) a' \<and>
    within tbl' (tbl @ filter (\<lambda>v. \<not> val_isNull v) (map fst xs))"
  using assms
proof (induction xs arbitrary: tbl vs a)
  case (Cons x xs)
  obtain v cnt where x: "x = (v, cnt)" by fastforce
  let ?rest = "filter (\<lambda>v. \<not> val_isNull v) (map fst xs)"
  have "case v of VNull reason \<Rightarrow> reason \<le> 127 | VData _ \<Rightarrow> fits v \<and> room (tbl @ [v])"
    using Cons.prems(2,3) room_prefix [of "tbl @ [v]" ?rest] x by (cases v) auto
  then obtain a' tbl' where a': "ai_add v cnt a = Inr a'" "ai_ok tbl' (vs @ replicate cnt v) a'"
      "tbl' = tbl \<or> \<not> val_isNull v \<and> tbl' = tbl @ [v]"
    using ai_add_ok [OF Cons.prems(1), of v cnt] Cons.prems(2) x by auto
  have "room (tbl' @ ?rest)"
    using a'(3) Cons.prems(3) x room_drop [of tbl v ?rest] by (cases "val_isNull v") auto
  then obtain a2 tbl2 where a2: "ai_add_all xs a' = Inr a2" "ai_ok tbl2 ((vs @ replicate cnt v) @ runs xs) a2" "within tbl2 (tbl' @ ?rest)"
    using Cons.IH [OF a'(2)] Cons.prems(2) by auto
  have "within tbl2 (tbl @ filter (\<lambda>v. \<not> val_isNull v) (map fst (x # xs)))"
    using a2(3) a'(3) x unfolding within_def by (cases "val_isNull v") (auto intro: order_trans)
  then show ?case using a'(1) a2(1,2) x by (auto simp: runs_def)
qed (auto simp: runs_def intro: within_refl)

lemma ai_flush_ok:
  assumes "ai_ok tbl vs a"
  shows "\<exists>p. ai_flush a = Inr p \<and> holds p tbl vs \<and> (vs = [] \<longrightarrow> tbl = [])"
proof -
  define p1 where "p1 = (if ai_segLength a \<noteq> 0 then pl_addSegment (ai_segm a) (ai_result a) else ai_result a)"
  define e where "e = startPosition (ai_segm a) + ai_segLength a"
  have d: "decodes tbl 0 (pl_container p1) e vs"
  proof (cases "ai_segLength a = 0")
    case True
    then show ?thesis using ai_ok_closed [OF assms] by (simp add: p1_def e_def)
  next
    case False
    obtain ws where ws: "decodes tbl 0 (pl_container (ai_result a)) (startPosition (ai_segm a)) ws"
        "seg_ok tbl (ai_segm a) (ai_segLength a)" "vs = ws @ seg_vals tbl (ai_segm a) (ai_segLength a)"
      using ai_ok_open [OF assms False] by metis
    from decodes_snoc [OF ws(1) refl ws(2)] show ?thesis using False ws(3) by (simp add: p1_def e_def pl_addSegment_def)
  qed
  have "enc p1 (ai_varPart a) tbl" using ai_ok_index(1) [OF assms] by (simp add: p1_def)
  then obtain p3 where p3: "(if ai_varPart a \<noteq> [] then setVarPart (ai_varPart a) (p1\<lparr>pl_valuesCount := ai_valueIndex a\<rparr>)
        else Inr (p1\<lparr>pl_valuesCount := ai_valueIndex a\<rparr>)) = Inr p3"
      "pl_container p3 = pl_container p1" "stores p3 tbl"
    using enc_finish by blast
  have "ai_flush a = Inr (pl_flush e p3)"
    unfolding ai_flush_def Let_def p1_def [symmetric] p3(1) by (simp add: e_def)
  moreover have "holds (pl_flush e p3) tbl vs"
    using d decodes_length [OF d] p3(2,3)
    by (auto simp: holds_def pl_flush_def setPPosition_def stores_def Segment0_def)
  moreover have "vs = [] \<longrightarrow> tbl = []" using assms by (simp add: ai_ok_def)
  ultimately show ?thesis by blast
qed

theorem append_all_ok:
  assumes "enc (pl_clear p) [] []" "room (filter (\<lambda>v. \<not> val_isNull v) (map fst xs))"
    and "\<forall>(v, cnt) \<in> set xs. 0 < cnt \<and> (case v of VNull reason \<Rightarrow> reason \<le> 127 | VData _ \<Rightarrow> fits v)"
  shows "\<exists>p' tbl. append_all xs p = Inr p' \<and> holds p' tbl (runs xs) \<and> (runs xs = [] \<longrightarrow> tbl = []) \<and>
    within tbl (filter (\<lambda>v. \<not> val_isNull v) (map fst xs))"
proof -
  have "room []" using room_prefix [of "[]"] assms(2) by simp
  then have "ai_ok [] [] (append_iterator p)"
    using assms(1) by (auto simp: ai_ok_def append_iterator_def pl_clear_def setPPosition_def Segment0_def)
  then obtain a tbl where "ai_add_all xs (append_iterator p) = Inr a" "ai_ok tbl (runs xs) a"
      "within tbl (filter (\<lambda>v. \<not> val_isNull v) (map fst xs))"
    using ai_add_all_ok [of "[]" "[]" "append_iterator p" xs] assms(2,3) by auto
  then show ?thesis using ai_flush_ok [of tbl "runs xs" a] by (auto simp: append_all_def)
qed

end

definition room_count :: "val list \<Rightarrow> bool" where
  "room_count tbl \<longleftrightarrow> length tbl \<le> MAX_DATA_INDEX + 1"

lemma store_at_resize: "n = length bs \<Longrightarrow> length new = k \<Longrightarrow> store_at n new (resize (n + k) bs) = bs @ new"
  by (simp add: store_at_def resize_def)

subsection \<open>Elements of a fixed size\<close>

definition enc_fixed :: "nat \<Rightarrow> payload \<Rightarrow> byte list \<Rightarrow> val list \<Rightarrow> bool" where
  "enc_fixed k p varPart tbl \<longleftrightarrow> \<not> pl_isBoolean p \<and> pl_elemSize p = k \<and> 0 < k \<and> varPart = [] \<and> stores p tbl"

interpretation fixed_enc: value_encoding "enc_fixed k" "fits_fixed k" room_count for k
proof unfold_locales
  fix p varPart tbl v
  assume e: "enc_fixed k p varPart tbl" and v: "fits_fixed k v"
  have "appendValue varPart v (length tbl) p = Inr (p\<lparr>pl_data := pl_data p @ val_data v, pl_dataSize := pl_dataSize p + k\<rparr>, varPart)"
    using e v store_at_resize [of "pl_dataSize p" "pl_data p" "val_data v" k]
    by (simp add: appendValue_def enc_fixed_def stores_def fits_fixed_def fixedSize_def Let_def)
  then show "\<exists>p' varPart'. appendValue varPart v (length tbl) p = Inr (p', varPart') \<and> enc_fixed k p' varPart' (tbl @ [v]) \<and>
      pl_container p' = pl_container p"
    using e v by (auto simp: enc_fixed_def stores_def fits_fixed_def)
next
  show "\<exists>bs. v = VData bs" if "fits_fixed k v" for v using fits_VData(1) [OF that] by metis
qed (auto simp: enc_fixed_def room_count_def)

subsection \<open>Values of varying size\<close>

definition room_var :: "val list \<Rightarrow> bool" where
  "room_var tbl \<longleftrightarrow> length tbl \<le> MAX_DATA_INDEX + 1 \<and> length (var_part tbl) \<le> RLE_MAX_VARPART_OFFSET"

definition enc_var :: "payload \<Rightarrow> byte list \<Rightarrow> val list \<Rightarrow> bool" where
  "enc_var p varPart tbl \<longleftrightarrow>
     \<not> pl_isBoolean p \<and> pl_elemSize p = 0 \<and> pl_dataSize p = length (pl_data p) \<and> pl_data p = var_offsets tbl \<and> pl_varOffs p = 0 \<and>
     varPart = var_part tbl \<and> length varPart \<le> RLE_MAX_VARPART_OFFSET \<and> (\<forall>v \<in> set tbl. fits_var v)"

lemma enc_var_append:
  assumes e: "enc_var p varPart tbl" and v: "fits_var v" "room_var (tbl @ [v])"
  shows "\<exists>p' varPart'. appendValue varPart v (length tbl) p = Inr (p', varPart') \<and> enc_var p' varPart' (tbl @ [v]) \<and>
    pl_container p' = pl_container p"
proof -
  have e': "\<not> pl_isBoolean p" "pl_elemSize p = 0" "pl_dataSize p = length (pl_data p)" "pl_data p = var_offsets tbl \<and> pl_varOffs p = 0"
      "varPart = var_part tbl" "length varPart \<le> RLE_MAX_VARPART_OFFSET" "\<forall>v \<in> set tbl. fits_var v"
    using e unfolding enc_var_def by blast+
  have vp: "appendValueToTheEndOfVarPart varPart v = Inr (varPart @ var_bytes v)"
    using e'(6) by (simp add: appendValueToTheEndOfVarPart_def var_bytes_def Let_def)
  define p' where "p' = p\<lparr>pl_data := pl_data p @ le32 (length varPart), pl_dataSize := pl_dataSize p + 4\<rparr>"
  have st: "store_at (pl_dataSize p) (le32 (length varPart)) (resize (pl_dataSize p + 4) (pl_data p)) = pl_data p @ le32 (length varPart)"
    using store_at_resize [of "pl_dataSize p" "pl_data p" "le32 (length varPart)" 4] e'(3) by simp
  have "appendValue varPart v (length tbl) p = Inr (p', varPart @ var_bytes v)"
    using e'(1,2,6) st by (simp add: appendValue_def Let_def fixedSize_def vp p'_def)
  moreover have "enc_var p' (varPart @ var_bytes v) (tbl @ [v])"
    using e' v by (simp add: enc_var_def p'_def var_offsets_snoc room_var_def)
  ultimately show ?thesis by (simp add: p'_def)
qed

interpretation var_enc: value_encoding enc_var fits_var room_var
proof unfold_locales
  fix p varPart tbl n
  assume e: "enc_var p varPart tbl"
  have "var_bytes v \<noteq> []" for v by (simp add: var_bytes_def Let_def)
  then have "varPart = [] \<longleftrightarrow> tbl = []" using e by (cases tbl) (simp_all add: enc_var_def)
  then show "\<exists>p'. (if varPart \<noteq> [] then setVarPart varPart (p\<lparr>pl_valuesCount := n\<rparr>) else Inr (p\<lparr>pl_valuesCount := n\<rparr>)) = Inr p' \<and>
        pl_container p' = pl_container p \<and> stores p' tbl"
    using e by (auto simp: enc_var_def stores_def setVarPart_def Let_def)
next
  show "\<exists>p' varPart'. appendValue varPart v (length tbl) p = Inr (p', varPart') \<and> enc_var p' varPart' (tbl @ [v]) \<and>
      pl_container p' = pl_container p" if "enc_var p varPart tbl" "fits_var v" "room_var (tbl @ [v])" for p varPart tbl v
    using enc_var_append that by blast
  show "\<exists>bs. v = VData bs" if "fits_var v" for v using fits_VData(2) [OF that] by metis
qed (auto simp: enc_var_def room_var_def)

subsection \<open>Booleans\<close>

definition enc_bool :: "payload \<Rightarrow> byte list \<Rightarrow> val list \<Rightarrow> bool" where
  "enc_bool p varPart tbl \<longleftrightarrow> pl_isBoolean p \<and> varPart = [] \<and> stores p tbl"

text \<open>Setting a bit of a buffer.\<close>

lemma bit_at_set:
  assumes "n div 8 < length bs" "i div 8 < length bs"
  shows "bit_at (bs[n div 8 := bs ! (n div 8) OR push_bit (n mod 8) 1]) i \<longleftrightarrow> bit_at bs i \<or> i = n"
proof (cases "i div 8 = n div 8")
  case True
  have "bit (push_bit (n mod 8) 1 :: byte) (i mod 8) \<longleftrightarrow> i mod 8 = n mod 8" by (auto simp: bit_exp_iff)
  moreover have "i mod 8 = n mod 8 \<longleftrightarrow> i = n" using True by (metis div_mult_mod_eq)
  ultimately show ?thesis using True assms by (simp add: bit_at_def bit_or_iff)
next
  case False
  then show ?thesis using assms by (auto simp: bit_at_def)
qed

lemma enc_bool_append:
  assumes e: "enc_bool p varPart tbl" and v: "fits_bool v"
  shows "\<exists>p' varPart'. appendValue varPart v (length tbl) p = Inr (p', varPart') \<and> enc_bool p' varPart' (tbl @ [v]) \<and>
    pl_container p' = pl_container p"
proof -
  let ?n = "length tbl"
  have e': "pl_isBoolean p" "varPart = [] \<and> pl_elemSize p = 1" "pl_dataSize p = length (pl_data p)" "length (pl_data p) = (?n + 7) div 8"
      "\<forall>i < ?n. tbl ! i = val_setBool (bit_at (pl_data p) i)"
      "\<forall>i. ?n \<le> i \<and> i < 8 * length (pl_data p) \<longrightarrow> \<not> bit_at (pl_data p) i"
  proof -
    have "pl_isBoolean p" "varPart = []" "stores p tbl" using e by (simp_all add: enc_bool_def)
    moreover from this have "stores_bits (pl_data p) tbl" "pl_elemSize p = 1" "pl_dataSize p = length (pl_data p)"
      by (simp_all add: stores_def)
    ultimately show "pl_isBoolean p" "varPart = [] \<and> pl_elemSize p = 1" "pl_dataSize p = length (pl_data p)" "length (pl_data p) = (?n + 7) div 8"
      "\<forall>i < ?n. tbl ! i = val_setBool (bit_at (pl_data p) i)"
      "\<forall>i. ?n \<le> i \<and> i < 8 * length (pl_data p) \<longrightarrow> \<not> bit_at (pl_data p) i"
      unfolding stores_bits_def by blast+
  qed
  define data1 where "data1 = (if ?n mod 8 = 0 then pl_data p @ [0] else pl_data p)"
  define p1 where "p1 = p\<lparr>pl_dataSize := length data1, pl_data := data1\<rparr>"
  have len: "length data1 = ?n div 8 + 1"
    using bytes_of_bits [of "?n mod 8" "?n div 8"] e'(4) by (simp add: data1_def)
  have p1: "(if ?n mod 8 = 0
                   then p\<lparr>pl_dataSize := pl_dataSize p + 1,
                          pl_data := store_at (pl_dataSize p) [0] (resize (pl_dataSize p + 1) (pl_data p))\<rparr>
                   else p) = p1"
    using e'(3) store_at_resize [of "pl_dataSize p" "pl_data p" "[0]" 1] by (cases p) (auto simp: p1_def data1_def)
  have old: "bit_at data1 i = bit_at (pl_data p) i" if "i < ?n" for i
  proof -
    have "i div 8 < length (pl_data p)" using byte_of_bit [OF that] e'(4) by simp
    then show ?thesis by (simp add: data1_def bit_at_def nth_append)
  qed
  have zero: "\<not> bit_at data1 i" if "?n \<le> i" "i < 8 * length data1" for i
  proof (cases "i < 8 * length (pl_data p)")
    case True
    then have "i div 8 < length (pl_data p)" by (rule byte_of_bit_mult)
    then show ?thesis using e'(6) that True by (simp add: data1_def bit_at_def nth_append)
  next
    case False
    then have "data1 = pl_data p @ [0]" using that(2) by (auto simp: data1_def split: if_splits)
    moreover from this False that(2) have "i div 8 = length (pl_data p)" by (simp add: div_nat_eqI)
    ultimately show ?thesis by (simp add: bit_at_def)
  qed
  define data2 where "data2 = (if val_getBool v then data1[?n div 8 := data1 ! (?n div 8) OR push_bit (?n mod 8) 1] else data1)"
  have "appendValue varPart v ?n p = Inr (p\<lparr>pl_dataSize := length data1, pl_data := data2\<rparr>, varPart)"
    unfolding appendValue_def p1 using e'(1) len by (auto simp: Let_def p1_def data2_def)
  moreover have bits: "bit_at data2 i \<longleftrightarrow> (if i < ?n then bit_at (pl_data p) i else i = ?n \<and> val_getBool v)" if "i < 8 * length data1" for i
  proof -
    have "i div 8 < length data1" using that by (rule byte_of_bit_mult)
    then show ?thesis using bit_at_set [of ?n data1 i] len old [of i] zero [of i] that by (auto simp: data2_def)
  qed
  have "v = val_setBool (val_getBool v)" using v by (auto simp: fits_bool_def val_setBool_def val_getBool_def)
  then have "\<forall>i < length (tbl @ [v]). (tbl @ [v]) ! i = val_setBool (bit_at data2 i)"
    using bits e'(5) len by (auto simp: nth_append less_Suc_eq)
  moreover have "length data2 = length data1" by (simp add: data2_def)
  moreover have "length data1 = (length (tbl @ [v]) + 7) div 8" using len by simp
  ultimately show ?thesis using e'(1,2) bits by (auto simp: enc_bool_def stores_def stores_bits_def)
qed

interpretation bool_enc: value_encoding enc_bool fits_bool room_count
proof unfold_locales
  show "\<exists>p' varPart'. appendValue varPart v (length tbl) p = Inr (p', varPart') \<and> enc_bool p' varPart' (tbl @ [v]) \<and>
      pl_container p' = pl_container p" if "enc_bool p varPart tbl" "fits_bool v" for p varPart tbl v
    using enc_bool_append that by blast
qed (auto simp: enc_bool_def fits_bool_def room_count_def)

end
