(* ===== verification/Rle_Payload_Ops.thy ===== *)
theory Rle_Payload_Ops
  imports Rle_Payload_Values
begin

text \<open>
  The operations on complete payloads: the iterator, the packed form, appending one payload to
  another, and the conversions between bitmaps and tiles of booleans.
\<close>

unbundle bit_operations_syntax

section \<open>The iterator reads the values in their order\<close>

definition it_at :: "payload \<Rightarrow> pl_iterator \<Rightarrow> nat \<Rightarrow> bool" where
  "it_at p it i \<longleftrightarrow> it_currSeg it < pl_nSegs p \<and> it_cs it = it_currSeg it \<and> it_currPpos it = i \<and>
     startPosition (it_segm p it) \<le> i \<and> i < startPosition (pl_container p ! (it_currSeg it + 1))"

definition cursor :: "payload \<Rightarrow> val list \<Rightarrow> pl_iterator \<Rightarrow> nat \<Rightarrow> bool" where
  "cursor p vs it i \<longleftrightarrow> (if i < length vs then it_at p it i else it_end p it)"

lemma cursor_end: "cursor p vs it i \<Longrightarrow> it_end p it \<longleftrightarrow> length vs \<le> i"
  by (auto simp: cursor_def it_at_def it_end_def split: if_splits)

lemma it_at_less: "holds p tbl vs \<Longrightarrow> it_at p it i \<Longrightarrow> i < length vs"
  using holds_segment(2) [of p tbl vs "it_currSeg it"] by (auto simp: it_at_def)

lemma cursor_at: "holds p tbl vs \<Longrightarrow> it_at p it i \<Longrightarrow> cursor p vs it i"
  using it_at_less by (simp add: cursor_def)

lemma it_seg_end: "holds p tbl vs \<Longrightarrow> it_at p it i \<Longrightarrow>
    startPosition (it_segm p it) + it_getSegLength p it = startPosition (pl_container p ! (it_currSeg it + 1))"
  using holds_segment(1) [of p tbl vs "it_currSeg it"] by (auto simp: it_at_def it_getSegLength_def it_segm_def)

lemma it_enter_at:
  assumes "holds p tbl vs" "it_currSeg it \<le> pl_nSegs p"
  shows "cursor p vs (it_enter p it) (startPosition (pl_container p ! it_currSeg it))"
proof (cases "it_end p it")
  case True
  then show ?thesis using assms holds_ends(1) [OF assms(1)] by (simp add: cursor_def it_end_def it_enter_def)
next
  case False
  then have k: "it_currSeg it < pl_nSegs p" by (simp add: it_end_def)
  show ?thesis using holds_segment(1) [OF assms(1) k] False k
    by (intro cursor_at [OF assms(1)]) (simp add: it_at_def it_enter_def it_segm_def)
qed

lemma it_reset_cursor: "holds p tbl vs \<Longrightarrow> cursor p vs (it_reset p it) 0"
  using it_enter_at [of p tbl vs "it\<lparr>it_currSeg := 0\<rparr>"] holds_ends(2) by (simp add: it_reset_def)

lemma it_toNextSegment_cursor:
  "holds p tbl vs \<Longrightarrow> it_at p it i \<Longrightarrow> cursor p vs (it_toNextSegment p it) (startPosition (pl_container p ! (it_currSeg it + 1)))"
  using it_enter_at [of p tbl vs "it\<lparr>it_currSeg := it_currSeg it + 1\<rparr>"] by (simp add: it_toNextSegment_def it_at_def)

lemma it_next_cursor:
  assumes h: "holds p tbl vs" and at: "it_at p it i"
  shows "cursor p vs (it_next p it) (i + 1)"
proof (cases "i + 1 < startPosition (pl_container p ! (it_currSeg it + 1))")
  case True
  then have "it_next p it = it\<lparr>it_currPpos := i + 1\<rparr>"
    using at it_seg_end [OF h at] by (simp add: it_next_def it_at_def)
  then show ?thesis using at True by (intro cursor_at [OF h]) (auto simp: it_at_def it_segm_def)
next
  case False
  then have "i + 1 = startPosition (pl_container p ! (it_currSeg it + 1))" using at by (simp add: it_at_def)
  moreover have "it_next p it = it_toNextSegment p it"
    using False at it_seg_end [OF h at] by (simp add: it_next_def it_at_def it_toNextSegment_def)
  ultimately show ?thesis using it_toNextSegment_cursor [OF h at] by simp
qed

subsection \<open>Finding a position\<close>

lemma pl_search_segment:
  assumes "holds p tbl vs" "l \<le> r" "r \<le> pl_nSegs p" "startPosition (pl_container p ! l) \<le> pos"
    and "r < pl_nSegs p \<Longrightarrow> pos < startPosition (pl_container p ! (r + 1))"
    and "pl_search p pos l r = k"
  shows "k \<le> pl_nSegs p \<and> startPosition (pl_container p ! k) \<le> pos \<and>
    (k < pl_nSegs p \<longrightarrow> pos < startPosition (pl_container p ! (k + 1)))"
  using assms
proof (induction p pos l r rule: pl_search.induct)
  case (1 p pos l r)
  define m where "m = (l + r) div 2"
  have s: "pl_search p pos l r =
     (if l < r then
        if startPosition (pl_container p ! (m + 1)) = pos then m + 1
        else if startPosition (pl_container p ! (m + 1)) < pos then pl_search p pos (m + 1) r
        else pl_search p pos l m
      else r)" by (subst pl_search.simps) (simp add: m_def Let_def)
  show ?case
  proof (cases "l < r")
    case True
    then have m: "l \<le> m" "m < r" by (auto simp: m_def)
    consider "startPosition (pl_container p ! (m + 1)) = pos" | "startPosition (pl_container p ! (m + 1)) < pos"
      | "pos < startPosition (pl_container p ! (m + 1))" by linarith
    then show ?thesis
    proof cases
      case eq: 1
      then have "k = m + 1" using True s "1.prems"(6) by simp
      then show ?thesis using eq m(2) "1.prems"(3) holds_segment(1) [OF "1.prems"(1), of "m + 1"] by auto
    next
      case 2
      then show ?thesis using "1.IH"(1) [OF True m_def refl _ 2 "1.prems"(1) _ "1.prems"(3)] m "1.prems"(5,6) s True by auto
    next
      case 3
      then show ?thesis using "1.IH"(2) [OF True m_def refl _ _ "1.prems"(1)] m "1.prems"(3,4,6) s True by auto
    qed
  next
    case False
    then show ?thesis using "1.prems" s by auto
  qed
qed

lemma it_setPosition_cursor:
  assumes "holds p tbl vs"
  shows "fst (it_setPosition p pos it) \<longleftrightarrow> pos < length vs" "cursor p vs (snd (it_setPosition p pos it)) pos"
proof -
  let ?k = "pl_findSegment p pos"
  have k: "?k \<le> pl_nSegs p" "startPosition (pl_container p ! ?k) \<le> pos"
      "?k < pl_nSegs p \<Longrightarrow> pos < startPosition (pl_container p ! (?k + 1))"
    using pl_search_segment [OF assms, of 0 "pl_nSegs p" pos ?k] holds_ends(2) [OF assms] by (auto simp: pl_findSegment_def)
  have "(fst (it_setPosition p pos it) \<longleftrightarrow> pos < length vs) \<and> cursor p vs (snd (it_setPosition p pos it)) pos"
  proof (cases "?k = pl_nSegs p")
    case True
    then have "length vs \<le> pos" using k(2) holds_ends(1) [OF assms] by simp
    then show ?thesis using True by (simp add: it_setPosition_def it_end_def cursor_def)
  next
    case False
    then have n: "?k < pl_nSegs p" using k(1) by simp
    then have "pos < length vs" using k(3) holds_segment(2) [OF assms n] by simp
    then show ?thesis using n k by (simp add: it_setPosition_def it_end_def cursor_def it_at_def it_segm_def)
  qed
  then show "fst (it_setPosition p pos it) \<longleftrightarrow> pos < length vs" "cursor p vs (snd (it_setPosition p pos it)) pos" by blast+
qed

lemma it_plus_cursor:
  assumes h: "holds p tbl vs" and at: "it_at p it i"
  shows "cursor p vs (it_plus p n it) (i + n)"
proof -
  let ?k = "it_currSeg it"
  define it1 where "it1 = it\<lparr>it_currPpos := i + n\<rparr>"
  define it2 where "it2 = it1\<lparr>it_currSeg := ?k + 1\<rparr>"
  define it3 where "it3 = it2\<lparr>it_cs := ?k + 1\<rparr>"
  have e: "startPosition (it_segm p it1) + it_getSegLength p it1 = startPosition (pl_container p ! (?k + 1))"
    using it_seg_end [OF h at] by (simp add: it1_def it_segm_def it_getSegLength_def)
  have pl: "it_plus p n it = (if startPosition (pl_container p ! (?k + 1)) \<le> i + n then
      if ?k + 1 < pl_nSegs p then
        if i + n < startPosition (it_segm p it3) + it_getSegLength p it3 then it3 else snd (it_setPosition p (i + n) it3)
      else snd (it_setPosition p (i + n) it2)
    else it1)"
    using at e by (simp add: it_plus_def Let_def it_at_def it1_def it2_def it3_def)
  have e3: "?k + 1 < pl_nSegs p \<Longrightarrow> startPosition (it_segm p it3) + it_getSegLength p it3 = startPosition (pl_container p ! (?k + 2))"
    using holds_segment(1) [OF h, of "?k + 1"] by (simp add: it3_def it_segm_def it_getSegLength_def)
  consider "i + n < startPosition (pl_container p ! (?k + 1))"
    | "startPosition (pl_container p ! (?k + 1)) \<le> i + n" "?k + 1 < pl_nSegs p" "i + n < startPosition (pl_container p ! (?k + 2))"
    | "startPosition (pl_container p ! (?k + 1)) \<le> i + n" "\<not> (?k + 1 < pl_nSegs p \<and> i + n < startPosition (pl_container p ! (?k + 2)))"
    by linarith
  then show ?thesis
  proof cases
    case 1
    then have "it_at p it1 (i + n)" using at by (auto simp: it_at_def it1_def it_segm_def)
    then show ?thesis using pl 1 cursor_at [OF h] by simp
  next
    case 2
    then have "it_at p it3 (i + n)" by (simp add: it_at_def it1_def it2_def it3_def it_segm_def)
    then show ?thesis using pl 2 e3 cursor_at [OF h] by simp
  next
    case 3
    then show ?thesis using pl e3 it_setPosition_cursor(2) [OF h] by simp
  qed
qed

subsection \<open>Items\<close>

text \<open>\<^verbatim>\<open>getItem\<close> and \<^verbatim>\<open>getValueByIndex\<close> read the same.\<close>

lemma getSizeOfVarPart_inside: "getSizeOfVarPartForOneDatum (drop k bs) = Some x \<Longrightarrow> k < length bs"
  by (rule ccontr) (simp add: getSizeOfVarPartForOneDatum_def)

lemma getRawVarValue_value:
  assumes "pl_isBoolean p \<longrightarrow> pl_elemSize p \<noteq> 0" "getValueByIndex p i = Some v"
  shows "\<exists>off n data. getRawVarValue p i = Some (off, n) \<and> bytes_at (pl_data p) off n = Some data \<and>
    v = (if pl_isBoolean p then val_setBool (bit (hd data) (i mod 8)) else VData data)"
proof -
  consider "pl_isBoolean p" "pl_elemSize p \<noteq> 0" | "\<not> pl_isBoolean p" "pl_elemSize p \<noteq> 0" | "\<not> pl_isBoolean p" "pl_elemSize p = 0"
    using assms(1) by blast
  then show ?thesis
  proof cases
    case 1
    then show ?thesis using assms(2)
      by (auto simp: getValueByIndex_def getRawVarValue_def checkBit_def bytes_at_def take_Suc hd_drop_conv_nth split: if_splits)
  next
    case 2
    then show ?thesis using assms(2) by (auto simp: getValueByIndex_def getRawVarValue_def fixedSize_def)
  next
    case 3
    let ?d = "pl_data p"
    obtain voff h n where v: "bytes_at ?d (i * 4) 4 = Some voff"
        "getSizeOfVarPartForOneDatum (drop (pl_varOffs p + le_val voff) ?d) = Some (h, n)"
        "map_option VData (bytes_at (drop (pl_varOffs p + le_val voff) ?d) h n) = Some v"
      using 3 assms(2) by (auto simp: getValueByIndex_def fixedSize_def var_datum_def bind_eq_Some_conv)
    have "pl_varOffs p + le_val voff < length ?d" using getSizeOfVarPart_inside [OF v(2)] .
    then have "bytes_at (drop (pl_varOffs p + le_val voff) ?d) h n = bytes_at ?d (pl_varOffs p + le_val voff + h) n"
      by (simp add: bytes_at_def add.commute) linarith
    then show ?thesis using v 3 by (auto simp: getRawVarValue_def)
  qed
qed

lemma it_getItem_value:
  assumes h: "holds p tbl vs" and at: "it_at p it i"
  shows "it_getItem p it = Inr (vs ! i)"
proof -
  let ?s = "it_segm p it"
  let ?len = "startPosition (pl_container p ! (it_currSeg it + 1)) - startPosition ?s"
  have k: "it_currSeg it < pl_nSegs p" "?s = pl_container p ! it_currSeg it" "it_currPpos it = i"
      "startPosition ?s \<le> i" "i < startPosition (pl_container p ! (it_currSeg it + 1))"
    using at by (auto simp: it_at_def it_segm_def)
  have so: "seg_ok tbl ?s ?len" using holds_segment(3) [OF h k(1)] k(2) by simp
  have v: "vs ! i = seg_vals tbl ?s ?len ! (i - startPosition ?s)" using holds_segment(4) [OF h k(1)] k by simp
  have hp: "\<forall>i < length tbl. getValueByIndex p i = Some (tbl ! i)" "pl_isBoolean p \<longrightarrow> pl_elemSize p \<noteq> 0"
    using holds_read [OF h] by simp_all
  have "i - startPosition ?s < ?len" using k(4,5) by linarith
  note sv = seg_value [OF so this hp(1)]
  show ?thesis
  proof (cases "isNull ?s")
    case True
    then show ?thesis using sv v by (simp add: it_getItem_def Let_def)
  next
    case False
    define j where "j = dataIndex ?s + (if isRun ?s then 0 else i - startPosition ?s)"
    have "getValueByIndex p j = Some (vs ! i)"
      using sv False v k(4,5) by (cases "getValueByIndex p j") (auto simp: j_def)
    then obtain off n data where "getRawVarValue p j = Some (off, n)" "bytes_at (pl_data p) off n = Some data"
        "vs ! i = (if pl_isBoolean p then val_setBool (bit (hd data) (j mod 8)) else VData data)"
      using getRawVarValue_value [OF hp(2)] by blast
    moreover have "(if isRun ?s then dataIndex ?s else dataIndex ?s + (it_currPpos it - startPosition ?s)) = j"
      using k(3) by (simp add: j_def)
    ultimately show ?thesis using False by (simp add: it_getItem_def Let_def)
  qed
qed

subsection \<open>Skipping\<close>

definition set_bits :: "val list \<Rightarrow> nat" where
  "set_bits vs = length (filter val_getBool vs)"

lemma stored_bit:
  assumes "holds p tbl vs" "pl_isBoolean p" "i < length tbl"
  shows "checkBit p i = Some (val_getBool (tbl ! i))"
  using assms by (intro stores_read_bool) (simp_all add: holds_def stores_def)

lemma count_bits_table:
  assumes "holds p tbl vs" "pl_isBoolean p" "i + n \<le> length tbl"
  shows "count_bits p i n = Inr (set_bits (take n (drop i tbl)))"
  using assms(3)
proof (induction n arbitrary: i)
  case (Suc n)
  then have "drop i tbl = tbl ! i # drop (i + 1) tbl" by (simp add: Cons_nth_drop_Suc)
  then show ?case using Suc stored_bit [OF assms(1,2), of i] by (simp add: set_bits_def)
qed (simp add: set_bits_def)

lemma segment_slice:
  assumes h: "holds p tbl vs" and at: "it_at p it i" and n: "i + n \<le> startPosition (pl_container p ! (it_currSeg it + 1))"
  defines "s \<equiv> it_segm p it"
  shows "take n (drop i vs) =
    take n (drop (i - startPosition s) (seg_vals tbl s (startPosition (pl_container p ! (it_currSeg it + 1)) - startPosition s)))"
proof (rule nth_equalityI)
  have k: "it_currSeg it < pl_nSegs p" "s = pl_container p ! it_currSeg it" "startPosition s \<le> i"
    using at by (auto simp: it_at_def it_segm_def s_def)
  let ?len = "startPosition (pl_container p ! (it_currSeg it + 1)) - startPosition s"
  have so: "length (seg_vals tbl s ?len) = ?len" using holds_segment(3) [OF h k(1)] k(2) by simp
  have b: "startPosition (pl_container p ! (it_currSeg it + 1)) \<le> length vs" by (rule holds_segment(2) [OF h k(1)])
  show "length (take n (drop i vs)) = length (take n (drop (i - startPosition s) (seg_vals tbl s ?len)))"
    using so b n k(3) by simp
  show "take n (drop i vs) ! j = take n (drop (i - startPosition s) (seg_vals tbl s ?len)) ! j"
    if "j < length (take n (drop i vs))" for j
    using that b n k so holds_segment(4) [OF h k(1), of "i + j"] by auto
qed

lemma seg_bits_slice:
  assumes h: "holds p tbl vs" and at: "it_at p it i" and n: "i + n \<le> startPosition (pl_container p ! (it_currSeg it + 1))"
    and nn: "pl_isBoolean p \<Longrightarrow> \<forall>v \<in> set vs. \<not> val_isNull v"
  shows "seg_bits p it n = Inr (if pl_isBoolean p then set_bits (take n (drop i vs)) else 0)"
proof (cases "pl_isBoolean p")
  case True
  let ?s = "it_segm p it"
  let ?len = "startPosition (pl_container p ! (it_currSeg it + 1)) - startPosition ?s"
  have k: "it_currSeg it < pl_nSegs p" "?s = pl_container p ! it_currSeg it" "it_currPpos it = i"
      "startPosition ?s \<le> i" "i < startPosition (pl_container p ! (it_currSeg it + 1))"
    using at by (auto simp: it_at_def it_segm_def)
  have so: "seg_ok tbl ?s ?len" using holds_segment(3) [OF h k(1)] k(2) by simp
  note sl = segment_slice [OF h at n]
  have "vs ! i = seg_vals tbl ?s ?len ! (i - startPosition ?s)" using holds_segment(4) [OF h k(1)] k by simp
  moreover have "\<not> val_isNull (vs ! i)" using nn [OF True] it_at_less [OF h at] by simp
  ultimately have nl: "\<not> isNull ?s" using k(4,5) by (auto simp: seg_vals_def)
  show ?thesis
  proof (cases "isRun ?s")
    case run: True
    have "dataIndex ?s < length tbl" using so nl run by (simp add: seg_ok_def)
    moreover have "take n (drop i vs) = replicate n (tbl ! dataIndex ?s)"
      using sl nl run k(4,5) n by (simp add: seg_vals_def min_def)
    ultimately show ?thesis using stored_bit [OF h True] True run by (simp add: seg_bits_def set_bits_def)
  next
    case False
    have "dataIndex ?s + ?len \<le> length tbl" using so nl False by (simp only: seg_ok_def if_False)
    moreover have "take n (drop i vs) = take n (drop (dataIndex ?s + (i - startPosition ?s)) tbl)"
    proof -
      have "min n (?len - (i - startPosition ?s)) = n" using n k(4) by linarith
      then show ?thesis using sl nl False by (simp add: seg_vals_def drop_take add.commute)
    qed
    moreover from calculation(1) have "dataIndex ?s + (i - startPosition ?s) + n \<le> length tbl" using k(4) n by linarith
    ultimately show ?thesis
      using count_bits_table [OF h True, of "dataIndex ?s + (i - startPosition ?s)" n] True False k(3)
      by (simp only: seg_bits_def Let_def if_False not_True_eq_False if_True)
  qed
qed (simp add: seg_bits_def)

lemma it_skip_cursor:
  assumes "holds p tbl vs" "pl_isBoolean p \<Longrightarrow> \<forall>v \<in> set vs. \<not> val_isNull v" "cursor p vs it i"
  shows "\<exists>it'. it_skip p n b it = Inr (b + (if pl_isBoolean p then set_bits (take n (drop i vs)) else 0), it') \<and>
    cursor p vs it' (i + n)"
  using assms
proof (induction p n b it arbitrary: i rule: it_skip.induct)
  case (1 p n b it)
  show ?case
  proof (cases "it_end p it")
    case True
    then have "length vs \<le> i" using cursor_end [OF "1.prems"(3)] by simp
    then show ?thesis using True by (subst it_skip.simps) (simp add: cursor_def set_bits_def)
  next
    case False
    have i: "i < length vs" using cursor_end [OF "1.prems"(3)] False by simp
    then have at: "it_at p it i" using "1.prems"(3) by (simp add: cursor_def)
    let ?e = "startPosition (pl_container p ! (it_currSeg it + 1))"
    have e: "startPosition (it_segm p it) + it_getSegLength p it = ?e" "it_currPpos it = i" "i < ?e" "?e \<le> length vs"
      using it_seg_end [OF "1.prems"(1) at] at holds_segment(2) [OF "1.prems"(1), of "it_currSeg it"] by (auto simp: it_at_def)
    show ?thesis
    proof (cases "?e \<le> i + n")
      case True
      have av: "it_available p it = ?e - i" using e(1,2) by (simp add: it_available_def add.commute)
      let ?k = "if pl_isBoolean p then set_bits (take (?e - i) (drop i vs)) else 0"
      have sb: "seg_bits p it (it_available p it) = Inr ?k"
        unfolding av by (rule seg_bits_slice [OF "1.prems"(1) at _ "1.prems"(2)]) (use e(3) in simp_all)
      have sk: "it_skip p n b it = it_skip p (n - (?e - i)) (b + ?k) (it_toNextSegment p it)"
        by (subst it_skip.simps) (simp only: False e True if_True if_False Let_def sb [unfolded av] sum.case av)
      obtain it' where it': "it_skip p (n - (?e - i)) (b + ?k) (it_toNextSegment p it) =
          Inr (b + ?k + (if pl_isBoolean p then set_bits (take (n - (?e - i)) (drop ?e vs)) else 0), it')"
          "cursor p vs it' (?e + (n - (?e - i)))"
        using "1.IH" [OF False _ refl sb "1.prems"(1,2) it_toNextSegment_cursor [OF "1.prems"(1) at]] e True av by auto
      have "take n (drop i vs) = take (?e - i) (drop i vs) @ take (n - (?e - i)) (drop ?e vs)"
        using take_add [of "?e - i" "n - (?e - i)" "drop i vs"] e(3) True by simp
      then have "set_bits (take n (drop i vs)) = set_bits (take (?e - i) (drop i vs)) + set_bits (take (n - (?e - i)) (drop ?e vs))"
        by (simp add: set_bits_def)
      then have "b + (if pl_isBoolean p then set_bits (take n (drop i vs)) else 0) =
          b + ?k + (if pl_isBoolean p then set_bits (take (n - (?e - i)) (drop ?e vs)) else 0)"
        by (cases "pl_isBoolean p") (simp_all only: if_True if_False add.assoc add_0_right)
      moreover have "?e + (n - (?e - i)) = i + n" using True e(3) by linarith
      ultimately show ?thesis using it' unfolding sk by metis
    next
      case n: False
      have "seg_bits p it n = Inr (if pl_isBoolean p then set_bits (take n (drop i vs)) else 0)"
        by (rule seg_bits_slice [OF "1.prems"(1) at _ "1.prems"(2)]) (use n in simp_all)
      moreover have "it_at p (it\<lparr>it_currPpos := i + n\<rparr>) (i + n)" using at n by (auto simp: it_at_def it_segm_def)
      ultimately show ?thesis using cursor_at [OF "1.prems"(1)] False n e by (subst it_skip.simps) simp
    qed
  qed
qed

section \<open>The packed form keeps the payload\<close>

definition seg_fits :: "pl_segment \<Rightarrow> bool" where
  "seg_fits s \<longleftrightarrow> startPosition s < 2 ^ 64 \<and> dataIndex s \<le> MAX_DATA_INDEX"

definition pl_wf :: "payload \<Rightarrow> bool" where
  "pl_wf p \<longleftrightarrow> length (pl_container p) = pl_nSegs p + 1 \<and> list_all seg_fits (pl_container p) \<and>
     pl_nSegs p < 2 ^ 64 \<and> pl_elemSize p < 2 ^ 64 \<and> pl_dataSize p < 2 ^ 64 \<and> pl_varOffs p < 2 ^ 64 \<and>
     pl_dataSize p = length (pl_data p)"

lemma length_pack_pl_segment [simp]: "length (pack_pl_segment s) = 12"
  by (simp add: pack_pl_segment_def)

lemma segment_word:
  fixes d :: nat and r n :: bool
  assumes "d < 2 ^ 30"
  defines "w \<equiv> d + (if r then 2 ^ 30 else 0) + (if n then 2 ^ 31 else 0)"
  shows "w < 2 ^ 32" "w mod 2 ^ 30 = d" "odd (w div 2 ^ 30) = r" "odd (w div 2 ^ 31) = n"
proof -
  have w: "w = d + 2 ^ 30 * (of_bool r + 2 * of_bool n)" by (auto simp: w_def)
  then have d30: "w div 2 ^ 30 = of_bool r + 2 * of_bool n" using assms(1) by simp
  have "w div 2 ^ 31 = w div 2 ^ 30 div 2" by (simp flip: div_mult2_eq)
  then have "w div 2 ^ 31 = of_bool n" using d30 by simp
  then show "odd (w div 2 ^ 31) = n" by simp
  show "odd (w div 2 ^ 30) = r" using d30 by simp
  show "w mod 2 ^ 30 = d" unfolding w mod_mult_self2 using assms(1) by (rule mod_less)
  show "w < 2 ^ 32" using assms(1) by (auto simp: w_def)
qed

lemma pl_segment_at_pack: "seg_fits s \<Longrightarrow> pl_segment_at (pack_pl_segment s @ rest) = s"
proof -
  assume s: "seg_fits s"
  let ?w = "dataIndex s + (if isRun s then 2 ^ 30 else 0) + (if isNull s then 2 ^ 31 else 0)"
  have d: "dataIndex s < 2 ^ 30" using s by (simp add: seg_fits_def MAX_DATA_INDEX_def)
  note w = segment_word [OF d, of "isRun s" "isNull s"]
  have "le_val (le32 ?w) = ?w" by (rule le_val_le32 [OF w(1)])
  moreover have "pack_pl_segment s = le64 (startPosition s) @ le32 ?w" using d by (simp add: pack_pl_segment_def)
  moreover have "startPosition s < 2 ^ 64" using s by (simp add: seg_fits_def)
  ultimately show ?thesis using w(2-4) by (simp add: pl_segment_at_def Let_def)
qed

lemma length_concat_pack [simp]: "length (concat (map pack_pl_segment ss)) = length ss * 12"
  by (induction ss) simp_all

lemma drop_concat_pack:
  assumes "i < length ss"
  shows "drop (i * 12) (concat (map pack_pl_segment ss) @ rest) =
    pack_pl_segment (ss ! i) @ concat (map pack_pl_segment (drop (Suc i) ss)) @ rest"
proof -
  have "length (concat (map pack_pl_segment (take i ss))) = i * 12" using assms by simp
  then show ?thesis using concat_split [of i "map pack_pl_segment ss"] assms by (simp add: take_map drop_map)
qed

lemma payload_unpack:
  assumes wf: "pl_wf p" and dst: "length dst = pl_packedSize p"
  shows "\<exists>bs. pl_pack p dst = Inr bs \<and> length bs = pl_packedSize p \<and>
    ConstRLEPayload (Some bs) = Inr (p\<lparr>pl_valuesCount := 0\<rparr>)"
proof -
  let ?h = "le64 RLE_PAYLOAD_MAGIC @ le64 (pl_nSegs p) @ le64 (pl_elemSize p) @ le64 (pl_dataSize p) @ le64 (pl_varOffs p)"
  define segs where "segs = concat (map pack_pl_segment (pl_container p))"
  define b :: byte where "b = (if pl_isBoolean p then 1 else 0)"
  define bs where "bs = ?h @ b # take 7 (drop 41 dst) @ segs @ pl_data p"
  have c: "length (pl_container p) = pl_nSegs p + 1" "pl_container p \<noteq> []" "pl_dataSize p = length (pl_data p)"
      "list_all seg_fits (pl_container p)"
      "pl_nSegs p < 2 ^ 64" "pl_elemSize p < 2 ^ 64" "pl_dataSize p < 2 ^ 64" "pl_varOffs p < 2 ^ 64"
    using wf by (auto simp: pl_wf_def)
  have pad: "length (take 7 (drop 41 dst)) = 7" using dst by (simp add: pl_packedSize_def)
  have "pl_pack p dst = Inr bs"
    using c(1-3) dst by (simp add: pl_pack_def bs_def segs_def b_def)
  moreover have len: "length bs = pl_packedSize p" using pad c(1,3) by (simp add: bs_def segs_def pl_packedSize_def)
  moreover have "ConstRLEPayload (Some bs) = Inr (p\<lparr>pl_valuesCount := 0\<rparr>)"
  proof -
    have f: "le_val (take 8 (drop 8 bs)) = pl_nSegs p" "le_val (take 8 (drop 16 bs)) = pl_elemSize p"
        "le_val (take 8 (drop 24 bs)) = pl_dataSize p" "le_val (take 8 (drop 32 bs)) = pl_varOffs p" "bs ! 40 = b"
      using c(5-8) by (simp_all add: bs_def nth_append)
    have d: "drop (48 + k) bs = drop k (segs @ pl_data p)" for k
      using pad by (simp add: bs_def drop_Cons' numeral_eq_Suc)
    have "pl_segment_at (drop (48 + i * 12) bs) = pl_container p ! i" if "i < pl_nSegs p + 1" for i
      unfolding d segs_def using drop_concat_pack [of i "pl_container p"] pl_segment_at_pack that c(1,4)
      by (simp add: list_all_length)
    then have "map (\<lambda>i. pl_segment_at (drop (48 + i * 12) bs)) [0..<pl_nSegs p + 1] = pl_container p"
      using c(1) by (intro nth_equalityI) (simp_all del: upt_Suc)
    moreover have "drop (48 + (pl_nSegs p + 1) * 12) bs = pl_data p" unfolding d using c(1) by (simp add: segs_def)
    moreover have "(b \<noteq> 0) = pl_isBoolean p" by (simp add: b_def)
    ultimately show ?thesis
      using len by (simp add: ConstRLEPayload_def f Let_def pl_packedSize_def)
  qed
  ultimately show ?thesis by blast
qed

section \<open>Appending a payload appends its values\<close>

subsection \<open>Segments\<close>

lemma decodes_concat: "decodes tbl a ss b vs \<Longrightarrow> decodes tbl b ss' c ws \<Longrightarrow> decodes tbl a (ss @ ss') c (vs @ ws)"
proof (induction rule: decodes.induct)
  case (decodes_Cons s pos tbl len ss e vs)
  then show ?case using decodes.decodes_Cons [of s pos tbl len "ss @ ss'"] by simp
qed simp

definition shift_segment :: "nat \<Rightarrow> nat \<Rightarrow> pl_segment \<Rightarrow> pl_segment" where
  "shift_segment h l s = s\<lparr>startPosition := startPosition s + l, dataIndex := (if isNull s then dataIndex s else dataIndex s + h)\<rparr>"

lemma shift_segment_simps [simp]:
  "startPosition (shift_segment h l s) = startPosition s + l" "isNull (shift_segment h l s) = isNull s"
  "isRun (shift_segment h l s) = isRun s" "dataIndex (shift_segment h l s) = (if isNull s then dataIndex s else dataIndex s + h)"
  by (simp_all add: shift_segment_def)

lemma shift_segments_map:
  assumes "\<forall>s \<in> set ss. \<not> isNull s \<longrightarrow> dataIndex s + h \<le> MAX_DATA_INDEX"
  shows "shift_segments h l ss = Inr (map (shift_segment h l) ss)"
  using assms
proof (induction ss)
  case (Cons s ss)
  then have "(if \<not> isNull s then addToValueIndex h s else Inr s) = Inr (s\<lparr>dataIndex := (if isNull s then dataIndex s else dataIndex s + h)\<rparr>)"
    by (cases s) (auto simp: addToValueIndex_def)
  then show ?case using Cons by (simp add: addToPPosition_def shift_segment_def)
qed simp

lemma seg_shift:
  assumes "seg_ok us s len" "length pad + length us \<le> MAX_DATA_INDEX"
  shows "seg_ok (pad @ us) (shift_segment (length pad) l s) len"
    "seg_vals (pad @ us) (shift_segment (length pad) l s) len = seg_vals us s len"
  using assms by (auto simp: seg_ok_def seg_vals_def nth_append)

lemma decodes_shift:
  "decodes us pos ss e ws \<Longrightarrow> length pad + length us \<le> MAX_DATA_INDEX \<Longrightarrow>
   decodes (pad @ us) (pos + l) (map (shift_segment (length pad) l) ss) (e + l) ws"
proof (induction rule: decodes.induct)
  case (decodes_Cons s pos tbl len ss e vs)
  note sh = seg_shift [OF decodes_Cons.hyps(2) decodes_Cons.prems, of l]
  have "decodes (pad @ tbl) (pos + l) (shift_segment (length pad) l s # map (shift_segment (length pad) l) ss) (e + l)
      (seg_vals (pad @ tbl) (shift_segment (length pad) l s) len @ vs)"
    using decodes_Cons sh(1) by (intro decodes.decodes_Cons) (simp_all add: ac_simps)
  then show ?case unfolding sh(2) by simp
qed (simp add: decodes.decodes_Nil)

subsection \<open>Values\<close>

lemma stores_cong:
  assumes "pl_data r = pl_data p" "pl_dataSize r = pl_dataSize p" "pl_varOffs r = pl_varOffs p" "pl_isBoolean r = pl_isBoolean p"
    "pl_elemSize r = pl_elemSize p"
  shows "stores r tbl = stores p tbl"
  unfolding stores_def assms by (rule refl)

text \<open>The values of the first payload with the unused bits of its last byte.\<close>

definition padded :: "payload \<Rightarrow> val list \<Rightarrow> val list" where
  "padded p tbl =
     tbl @ (if pl_isBoolean p then replicate (8 * pl_dataSize p - length tbl) (val_setBool False) else [])"

lemma stores_bits_append:
  assumes "stores_bits as tbl" "stores_bits bs us"
  shows "stores_bits (as @ bs) ((tbl @ replicate (8 * length as - length tbl) (val_setBool False)) @ us)"
proof -
  let ?pad = "tbl @ replicate (8 * length as - length tbl) (val_setBool False)"
  have la: "length as = (length tbl + 7) div 8" and lb: "length bs = (length us + 7) div 8"
    using assms by (simp_all add: stores_bits_def)
  have lp: "length ?pad = 8 * length as" using la by simp
  have pad: "?pad ! i = val_setBool (bit_at as i)" if "i < 8 * length as" for i
    using assms(1) that by (auto simp: stores_bits_def nth_append)
  have low: "bit_at (as @ bs) i = bit_at as i" if "i < 8 * length as" for i
  proof -
    have "i div 8 < length as" using that by (rule byte_of_bit_mult)
    then show ?thesis by (simp add: bit_at_def nth_append)
  qed
  have high: "bit_at (as @ bs) i = bit_at bs (i - 8 * length as)" if hi: "8 * length as \<le> i" for i
  proof -
    obtain j where j: "i = 8 * length as + j" using le_Suc_ex [OF hi] by blast
    have d: "i div 8 = length as + j div 8" "i mod 8 = j mod 8" "i - 8 * length as = j" unfolding j by simp_all
    show ?thesis unfolding bit_at_def d by (simp add: nth_append)
  qed
  show ?thesis
    unfolding stores_bits_def
  proof (intro conjI allI impI)
    show "length (as @ bs) = (length (?pad @ us) + 7) div 8" using lp lb by (simp only: length_append)
    show "(?pad @ us) ! i = val_setBool (bit_at (as @ bs) i)" if "i < length (?pad @ us)" for i
    proof (cases "i < 8 * length as")
      case True
      then show ?thesis using pad low lp by (simp only: nth_append [of ?pad] if_True)
    next
      case False
      then have "us ! (i - 8 * length as) = val_setBool (bit_at bs (i - 8 * length as))"
        using assms(2) that unfolding length_append [of ?pad] lp by (simp add: stores_bits_def)
      moreover have "bit_at (as @ bs) i = bit_at bs (i - 8 * length as)" using False by (intro high) simp
      ultimately show ?thesis unfolding nth_append [of ?pad] lp using False by (simp only: if_False)
    qed
    show "\<not> bit_at (as @ bs) i" if "length (?pad @ us) \<le> i \<and> i < 8 * length (as @ bs)" for i
    proof -
      have "8 * length as \<le> i" "length us \<le> i - 8 * length as" "i - 8 * length as < 8 * length bs"
        using that unfolding length_append [of ?pad] lp by auto
      then show ?thesis using high [of i] assms(2) by (simp add: stores_bits_def)
    qed
  qed
qed

lemma add_to_offsets_le32:
  assumes "\<forall>n \<in> set ns. n < 2 ^ 32"
  shows "add_to_offsets k (concat (map le32 ns)) = concat (map (\<lambda>n. le32 (n + k)) ns)"
  using assms
proof (induction ns)
  case (Cons n ns)
  obtain a b c d where l: "le32 n = [a, b, c, d]"
    using length_le32 [of n] by (auto simp: numeral_eq_Suc length_Suc_conv simp del: length_le32)
  have "le_val [a, b, c, d] = n" using le_val_le32 [of n] Cons.prems l by simp
  then show ?case using Cons l by simp
qed simp

lemma var_offsets_map: "var_offsets tbl = concat (map le32 (map (\<lambda>i. length (var_part (take i tbl))) [0..<length tbl]))"
  by (simp add: var_offsets_def comp_def)

lemma var_offsets_append:
  assumes "length (var_part us) \<le> RLE_MAX_VARPART_OFFSET"
  shows "var_offsets (tbl @ us) = var_offsets tbl @ add_to_offsets (length (var_part tbl)) (var_offsets us)"
proof -
  have "length (var_part (take i us)) \<le> length (var_part us)" for i
    using arg_cong [OF var_part_simps(2) [of "take i us" "drop i us"], of length] by simp
  moreover have "length (var_part us) < 2 ^ 32" using assms by (simp add: RLE_MAX_VARPART_OFFSET_def)
  ultimately have "length (var_part (take i us)) < 2 ^ 32" for i by (rule le_less_trans)
  then have "\<forall>n \<in> set (map (\<lambda>i. length (var_part (take i us))) [0..<length us]). n < 2 ^ 32" by simp
  from add_to_offsets_le32 [OF this, of "length (var_part tbl)"]
  have a: "add_to_offsets (length (var_part tbl)) (var_offsets us) =
      concat (map (\<lambda>i. le32 (length (var_part (take i us)) + length (var_part tbl))) [0..<length us])"
    by (simp add: var_offsets_map comp_def)
  have u: "[0..<length (tbl @ us)] = [0..<length tbl] @ map (\<lambda>i. i + length tbl) [0..<length us]"
    using upt_add_eq_append [of 0 "length tbl" "length us"] by (simp add: map_add_upt add.commute)
  have "concat (map (\<lambda>i. le32 (length (var_part (take i (tbl @ us))))) [0..<length tbl]) = var_offsets tbl"
    unfolding var_offsets_def by (intro arg_cong [where f = concat] map_cong) simp_all
  then show ?thesis unfolding a var_offsets_def [of "tbl @ us"] u by (simp add: comp_def add.commute)
qed

lemma append_values_ok:
  assumes p: "stores p tbl" and q: "stores q us" and same: "pl_isBoolean q = pl_isBoolean p" "pl_elemSize q = pl_elemSize p"
    and var: "\<not> pl_isBoolean p \<Longrightarrow> pl_elemSize p = 0 \<Longrightarrow> length (var_part tbl) + length (var_part us) \<le> RLE_MAX_VARPART_OFFSET"
  shows "\<exists>p'. append_values q p = Inr (p', length (padded p tbl)) \<and> pl_dataSize p' = pl_dataSize p \<and>
    stores (p'\<lparr>pl_dataSize := pl_dataSize p + pl_dataSize q\<rparr>) (padded p tbl @ us)"
proof -
  consider "pl_isBoolean p" | "\<not> pl_isBoolean p" "pl_elemSize p = 0" | "\<not> pl_isBoolean p" "pl_elemSize p \<noteq> 0" by blast
  then show ?thesis
  proof cases
    case 1
    then have s: "stores_bits (pl_data p) tbl" "stores_bits (pl_data q) us" "pl_dataSize p = length (pl_data p)"
        "pl_dataSize q = length (pl_data q)" "pl_elemSize p = 1"
      using p q same by (simp_all add: stores_def)
    have "length tbl \<le> 8 * pl_dataSize p" using s(1,3) by (simp add: stores_bits_def)
    then have "length (padded p tbl) = pl_dataSize p * 8" using 1 by (simp add: padded_def)
    then show ?thesis using 1 s stores_bits_append [OF s(1,2)] by (auto simp: append_values_def stores_def padded_def)
  next
    case 2
    let ?k = "length (var_part tbl)"
    have s: "pl_data p = var_offsets tbl @ var_part tbl" "pl_varOffs p = length tbl * 4" "\<forall>v \<in> set tbl. fits_var v"
        "pl_data q = var_offsets us @ var_part us" "pl_varOffs q = length us * 4" "\<forall>v \<in> set us. fits_var v"
        "pl_dataSize p = length (pl_data p)" "pl_dataSize q = length (pl_data q)"
      using p q same 2 by (auto simp: stores_def)
    have b: "length (var_part us) \<le> RLE_MAX_VARPART_OFFSET" "?k + length (var_part us) \<le> RLE_MAX_VARPART_OFFSET"
      using var [OF 2] by simp_all
    have "le_val (drop (pl_varOffs q - 4) (var_offsets us)) + ?k \<le> RLE_MAX_VARPART_OFFSET" if "us \<noteq> []"
    proof -
      obtain ws w where us: "us = ws @ [w]" using \<open>us \<noteq> []\<close> by (metis append_butlast_last_id)
      have "length (var_part ws) < 2 ^ 32" using b(1) by (simp add: us RLE_MAX_VARPART_OFFSET_def)
      then have "le_val (le32 (length (var_part ws))) = length (var_part ws)" by (rule le_val_le32)
      then show ?thesis using b(2) s(5) by (simp add: us var_offsets_snoc)
    qed
    moreover have "var_offsets us \<noteq> [] \<longleftrightarrow> us \<noteq> []"
      unfolding length_greater_0_conv [symmetric] length_var_offsets by simp
    ultimately have "append_values q p = Inr (p\<lparr>pl_data := var_offsets tbl @ add_to_offsets ?k (var_offsets us) @ var_part tbl @ var_part us,
        pl_varOffs := length tbl * 4 + length us * 4\<rparr>, length tbl)"
      using 2 s by (auto simp: append_values_def Let_def add.commute)
    moreover have "length (add_to_offsets ?k (var_offsets us)) = length us * 4"
      using arg_cong [OF var_offsets_append [OF b(1), of tbl], of length] by simp
    ultimately show ?thesis using 2 s b(2) var_offsets_append [OF b(1), of tbl] by (auto simp: stores_def padded_def)
  next
    case 3
    then show ?thesis using p q same length_concat_fixed [of tbl "pl_elemSize p"]
      by (auto simp: append_values_def stores_def padded_def)
  qed
qed

theorem holds_append:
  assumes p: "holds p tbl vs" and q: "holds q us ws" and same: "pl_isBoolean q = pl_isBoolean p" "pl_elemSize q = pl_elemSize p"
    and e: "vs = [] \<Longrightarrow> tbl = []"
    and var: "\<not> pl_isBoolean p \<Longrightarrow> pl_elemSize p = 0 \<Longrightarrow> length (var_part tbl) + length (var_part us) \<le> RLE_MAX_VARPART_OFFSET"
    and bound: "length (padded p tbl) + length us \<le> MAX_DATA_INDEX"
  shows "\<exists>r tbl'. pl_append q p = Inr r \<and> holds r tbl' (vs @ ws)"
proof -
  obtain ss t where P: "pl_container p = ss @ [t]" "pl_nSegs p = length ss" "startPosition t = length vs"
      "decodes tbl 0 ss (length vs) vs" "stores p tbl" using p by (auto simp: holds_def)
  obtain ss' t' where Q: "pl_container q = ss' @ [t']" "pl_nSegs q = length ss'" "startPosition t' = length ws"
      "isNull t' \<or> dataIndex t' \<le> length us" "decodes us 0 ss' (length ws) ws" "stores q us" using q by (auto simp: holds_def)
  have cnt: "pl_count q = length ws" using Q by (auto simp: pl_count_def)
  consider "ws = []" | "ws \<noteq> []" "ss = []" | "ws \<noteq> []" "ss \<noteq> []" by blast
  then show ?thesis
  proof cases
    case 1
    then show ?thesis using cnt p by (auto simp: pl_append_def)
  next
    case 2
    then have vs: "vs = []" using P(4) by (auto elim: decodes.cases)
    then have "stores p []" using P(5) e by simp
    then have d: "pl_dataSize p = 0" by (cases "pl_isBoolean p") (auto simp: stores_def stores_bits_def var_offsets_def split: if_splits)
    define r where "r = p\<lparr>pl_container := pl_container q, pl_data := pl_data q, pl_varOffs := pl_varOffs q,
      pl_nSegs := length ss', pl_dataSize := pl_dataSize q\<rparr>"
    have "pl_append q p = Inr r" using 2 cnt P(1) Q(1) d by (simp add: pl_append_def Let_def r_def)
    moreover have "holds r us ws" using Q same by (auto simp: holds_def r_def stores_def)
    ultimately show ?thesis using vs by auto
  next
    case 3
    obtain p' where p': "append_values q p = Inr (p', length (padded p tbl))" "pl_dataSize p' = pl_dataSize p"
        "stores (p'\<lparr>pl_dataSize := pl_dataSize p + pl_dataSize q\<rparr>) (padded p tbl @ us)"
      using append_values_ok [OF P(5) Q(6) same var] by blast
    let ?h = "length (padded p tbl)" and ?L = "length vs"
    have "\<forall>s \<in> set (pl_container q). \<not> isNull s \<longrightarrow> dataIndex s + ?h \<le> MAX_DATA_INDEX"
      using decodes_index [OF Q(5)] Q(1,4) bound by fastforce
    from shift_segments_map [OF this, of ?L]
    have sh: "shift_segments ?h ?L (pl_container q) = Inr (map (shift_segment ?h ?L) ss' @ [shift_segment ?h ?L t'])" by (simp add: Q(1))
    define r where "r = p'\<lparr>pl_container := ss @ map (shift_segment ?h ?L) ss' @ [shift_segment ?h ?L t'],
      pl_nSegs := length ss + length ss', pl_dataSize := pl_dataSize p + pl_dataSize q\<rparr>"
    have "pl_append q p = Inr r" using 3 cnt P(1,3) Q(1) p'(1,2) sh by (simp add: pl_append_def Let_def r_def)
    moreover have "holds r (padded p tbl @ us) (vs @ ws)"
    proof -
      have "decodes (padded p tbl @ us) 0 ss ?L vs" using decodes_append [OF P(4)] by (simp add: padded_def)
      moreover have "decodes (padded p tbl @ us) ?L (map (shift_segment ?h ?L) ss') (?L + length ws) ws"
        using decodes_shift [OF Q(5) bound, of ?L] by (simp add: add.commute)
      ultimately have "decodes (padded p tbl @ us) 0 (ss @ map (shift_segment ?h ?L) ss') (?L + length ws) (vs @ ws)" by (rule decodes_concat)
      moreover have "stores r (padded p tbl @ us)" by (rule iffD2 [OF stores_cong p'(3)]) (simp_all add: r_def)
      ultimately show ?thesis
        unfolding holds_def using Q(3,4)
        by (intro conjI exI [of _ "ss @ map (shift_segment ?h ?L) ss'"] exI [of _ "shift_segment ?h ?L t'"]) (auto simp: r_def)
    qed
    ultimately show ?thesis by blast
  qed
qed

section \<open>A bitmap as a tile of booleans\<close>

definition tile_table :: "val list" where
  "tile_table = [val_setBool False, val_setBool True]"

definition tile_seg :: "nat \<Rightarrow> bool \<Rightarrow> pl_segment" where
  "tile_seg pos b = \<lparr>startPosition = pos, dataIndex = of_bool b, isRun = True, isNull = False\<rparr>"

lemma tile_seg_ok: "0 < len \<Longrightarrow> seg_ok tile_table (tile_seg pos b) len"
  by (cases b) (simp_all add: seg_ok_def tile_seg_def tile_table_def MAX_DATA_INDEX_def)

lemma tile_seg_vals: "seg_vals tile_table (tile_seg pos b) len = replicate len (val_setBool b)"
  by (cases b) (simp_all add: seg_vals_def tile_seg_def tile_table_def)

lemma take_extend:
  assumes "a \<le> b" "b \<le> length xs" "\<forall>i. a \<le> i \<and> i < b \<longrightarrow> xs ! i = x"
  shows "take b xs = take a xs @ replicate (b - a) x"
  using assms by (intro nth_equalityI) (auto simp: nth_append)

lemma decodes_tile:
  assumes "decodes tile_table 0 c a (take a xs)" "a < b" "b \<le> length xs" "\<forall>i. a \<le> i \<and> i < b \<longrightarrow> xs ! i = val_setBool v"
  shows "decodes tile_table 0 (c @ [tile_seg a v]) b (take b xs)"
  using decodes_snoc [OF assms(1), of "tile_seg a v" "b - a"] tile_seg_ok [of "b - a" a v] tile_seg_vals [of a v "b - a"] take_extend [of a b xs "val_setBool v"] assms(2-4)
  by (simp add: tile_seg_def)

definition covered :: "bm_segment list \<Rightarrow> int \<Rightarrow> bool" where
  "covered ess pos \<longleftrightarrow> (\<exists>es \<in> set ess. lPosition es \<le> pos \<and> pos < lPosition es + seg_length es)"

lemma covered_Cons: "covered (es # ess) pos \<longleftrightarrow> (lPosition es \<le> pos \<and> pos < lPosition es + seg_length es) \<or> covered ess pos"
  by (auto simp: covered_def)

lemma covered_from: "segs_ok l q ess \<Longrightarrow> covered ess pos \<Longrightarrow> l \<le> pos"
  using segs_ok_nth(1) by (fastforce simp: covered_def in_set_conv_nth)

text \<open>The first segment may begin before the tile.\<close>

lemma tile_loop_result:
  assumes "decodes tile_table 0 container pos (take pos vs)" "pos \<le> length vs" "length vs = nat (vEnd - vStart) \<and> vStart < vEnd"
    and "segs_ok l q ess" "ess \<noteq> [] \<Longrightarrow> vStart < lPosition (hd ess) + seg_length (hd ess) \<and> (pos = 0 \<or> vStart + int pos \<le> lPosition (hd ess))"
    and "\<forall>i. pos \<le> i \<and> i < length vs \<longrightarrow> vs ! i = val_setBool (covered ess (vStart + int i))"
    and "tile_loop ess vStart vEnd pos container = (container', pos')" and "\<forall>s \<in> set container. \<not> isNull s"
  shows "decodes tile_table 0 container' pos' (take pos' vs) \<and> pos' \<le> length vs \<and>
    (\<forall>i. pos' \<le> i \<and> i < length vs \<longrightarrow> vs ! i = val_setBool False) \<and> (\<forall>s \<in> set container'. \<not> isNull s)"
  using assms
proof (induction ess arbitrary: pos container l q)
  case Nil
  then show ?case by (simp add: covered_def)
next
  case (Cons es ess)
  show ?case
  proof (cases "lPosition es < vEnd")
    case False
    have "\<not> covered (es # ess) (vStart + int i)" if "i < length vs" for i
    proof -
      have "vStart + int i < lPosition es" using that Cons.prems(3) False by linarith
      then show ?thesis using covered_from [of "lPosition es + seg_length es" _ ess] Cons.prems(4) by (force simp: covered_Cons)
    qed
    then show ?thesis using Cons.prems False by auto
  next
    case True
    define start where "start = nat (max (lPosition es) vStart - vStart)"
    define stop where "stop = nat (min (lPosition es + seg_length es) vEnd - vStart)"
    have es: "0 < seg_length es" "segs_ok (lPosition es + seg_length es) (pPosition es + seg_length es) ess"
      using Cons.prems(4) by simp_all
    have hd: "vStart < lPosition es + seg_length es" "pos = 0 \<or> vStart + int pos \<le> lPosition es" using Cons.prems(5) by simp_all
    have V: "vStart < vEnd" using Cons.prems(3) by simp
    have b: "pos \<le> start" "start < stop" "stop \<le> length vs" "int start = max (lPosition es) vStart - vStart"
        "int stop = min (lPosition es + seg_length es) vEnd - vStart"
      using hd es(1) True V Cons.prems(3) by (auto simp: start_def stop_def max_def min_def split: if_splits)
    define c1 where "c1 = container @ (if start \<noteq> pos then [tile_seg pos False] else [])"
    have loop: "tile_loop (es # ess) vStart vEnd pos container = tile_loop ess vStart vEnd stop (c1 @ [tile_seg start True])"
    proof -
      have "max (lPosition es) vStart - vStart \<noteq> int pos \<longleftrightarrow> start \<noteq> pos" using b(4) by linarith
      moreover have "start + nat (min (lPosition es + seg_length es) vEnd - max (lPosition es) vStart) = stop"
        using b(2,4,5) by linarith
      ultimately show ?thesis using True by (simp add: Let_def c1_def tile_seg_def flip: start_def)
    qed
    have bit: "vs ! i = val_setBool (covered (es # ess) (vStart + int i))" if "pos \<le> i" "i < length vs" for i
      using Cons.prems(6) that by blast
    have zeros: "vs ! i = val_setBool False" if "pos \<le> i" "i < start" for i
    proof -
      have "vStart + int i < lPosition es" using that b(4) by linarith
      then have "\<not> covered (es # ess) (vStart + int i)" using covered_from [OF es(2)] es(1) by (force simp: covered_Cons)
      then show ?thesis using bit [of i] that b(2,3) by simp
    qed
    have ones: "vs ! i = val_setBool True" if "start \<le> i" "i < stop" for i
    proof -
      have "lPosition es \<le> vStart + int i" "vStart + int i < lPosition es + seg_length es" using that b(4,5) by linarith+
      then have "covered (es # ess) (vStart + int i)" by (simp add: covered_Cons)
      then show ?thesis using bit [of i] that b(1,3) by simp
    qed
    have "decodes tile_table 0 c1 start (take start vs)"
      using Cons.prems(1) decodes_tile [of container pos vs start False] zeros b by (auto simp: c1_def)
    then have d2: "decodes tile_table 0 (c1 @ [tile_seg start True]) stop (take stop vs)"
      using ones b by (intro decodes_tile) auto
    have hd2: "vStart < lPosition (hd ess) + seg_length (hd ess) \<and> (stop = 0 \<or> vStart + int stop \<le> lPosition (hd ess))"
      if "ess \<noteq> []"
      using that es hd(1) b(5) by (cases ess) auto
    have bits2: "\<forall>i. stop \<le> i \<and> i < length vs \<longrightarrow> vs ! i = val_setBool (covered ess (vStart + int i))"
    proof (intro allI impI, elim conjE)
      fix i assume i: "stop \<le> i" "i < length vs"
      then have "lPosition es + seg_length es \<le> vStart + int i" using b(5) Cons.prems(3) by linarith
      then show "vs ! i = val_setBool (covered ess (vStart + int i))" using bit [of i] i b(1,2) by (simp add: covered_Cons)
    qed
    have nn2: "\<forall>s \<in> set (c1 @ [tile_seg start True]). \<not> isNull s" using Cons.prems(8) by (auto simp: c1_def tile_seg_def)
    show ?thesis
      by (rule Cons.IH [OF d2 b(3) Cons.prems(3) es(2) hd2 bits2 _ nn2]) (use Cons.prems(7) loop in simp_all)
  qed
qed

lemma covered_cells:
  assumes "segs_ok l q (bm_segs bm)" "vStart \<le> pos"
  shows "covered (drop (findSegment vStart bm) (bm_segs bm)) pos \<longleftrightarrow> \<not> isEmpty pos bm"
proof -
  let ?ss = "bm_segs bm"
  obtain k where k: "findSegment vStart bm = k" "k \<le> nSegments bm"
    "\<And>i. i < k \<Longrightarrow> lPosition (?ss ! i) + seg_length (?ss ! i) \<le> vStart"
    using findSegment_result [OF assms(1)] by metis
  have mem: "es \<in> set (drop k ?ss) \<longleftrightarrow> (\<exists>i. k \<le> i \<and> i < nSegments bm \<and> ?ss ! i = es)" for es
  proof
    assume "es \<in> set (drop k ?ss)"
    then obtain j where "j < length ?ss - k" "?ss ! (k + j) = es" using k(2) by (auto simp: in_set_conv_nth nSegments_def)
    then show "\<exists>i. k \<le> i \<and> i < nSegments bm \<and> ?ss ! i = es" by (intro exI [of _ "k + j"]) (simp add: nSegments_def less_diff_conv)
  next
    assume "\<exists>i. k \<le> i \<and> i < nSegments bm \<and> ?ss ! i = es"
    then obtain i where "k \<le> i" "i < length ?ss" "?ss ! i = es" by (auto simp: nSegments_def)
    then show "es \<in> set (drop k ?ss)" by (auto simp: in_set_conv_nth intro!: exI [of _ "i - k"])
  qed
  have "\<not> isEmpty pos bm \<longleftrightarrow> (\<exists>i < nSegments bm. lPosition (?ss ! i) \<le> pos \<and> pos < lPosition (?ss ! i) + seg_length (?ss ! i))"
    unfolding isEmpty_iff [OF assms(1)] by (auto simp: image_iff Bex_def mem_cells mem_seg_cells)
  also have "\<dots> \<longleftrightarrow> covered (drop k ?ss) pos"
  proof
    assume "\<exists>i < nSegments bm. lPosition (?ss ! i) \<le> pos \<and> pos < lPosition (?ss ! i) + seg_length (?ss ! i)"
    then obtain i where i: "i < nSegments bm" "lPosition (?ss ! i) \<le> pos" "pos < lPosition (?ss ! i) + seg_length (?ss ! i)" by blast
    then have "k \<le> i" using k(3) [of i] assms(2) by linarith
    then have "?ss ! i \<in> set (drop k ?ss)" using i(1) by (auto simp: mem)
    then show "covered (drop k ?ss) pos" using i(2,3) unfolding covered_def by blast
  qed (auto simp: covered_def mem)
  finally show ?thesis using k(1) by simp
qed

lemma segs_ok_drop: "segs_ok l q ss \<Longrightarrow> \<exists>l' q'. segs_ok l' q' (drop k ss)"
proof (induction ss arbitrary: l q k)
  case (Cons s ss)
  then show ?case by (cases k) (auto intro: exI [of _ l] exI [of _ q])
qed simp

lemma tile_bits: "stores_bits [2] tile_table"
proof -
  have b: "bit (2 :: byte) i \<longleftrightarrow> i = 1" for i by (auto simp: bit_2_iff)
  have "tile_table ! i = val_setBool (bit_at [2] i)" if "i < 2" for i
  proof -
    have "i = 0 \<or> i = 1" using that by linarith
    then show ?thesis by (auto simp: tile_table_def bit_at_def b)
  qed
  moreover have "\<not> bit_at [2] i" if "2 \<le> i" "i < 8" for i
  proof -
    have "i div 8 = 0" "i mod 8 = i" using that by simp_all
    then show ?thesis using b [of i] that(1) by (simp add: bit_at_def del: bit_numeral_simps)
  qed
  ultimately show ?thesis by (simp add: stores_bits_def tile_table_def)
qed

theorem unPackTile_holds:
  assumes ok: "segs_ok l q (bm_segs bm)" and V: "vStart < vEnd"
  shows "holds (unPackTile bm vStart vEnd p) tile_table (map (\<lambda>i. val_setBool (\<not> isEmpty (vStart + int i) bm)) [0..<nat (vEnd - vStart)])"
proof -
  define vs where "vs = map (\<lambda>i. val_setBool (\<not> isEmpty (vStart + int i) bm)) [0..<nat (vEnd - vStart)]"
  define ess where "ess = drop (findSegment vStart bm) (bm_segs bm)"
  obtain c pos where loop: "tile_loop ess vStart vEnd 0 [] = (c, pos)" by fastforce
  obtain l' q' where ok': "segs_ok l' q' ess" using segs_ok_drop [OF ok, of "findSegment vStart bm"] by (auto simp: ess_def)
  have len: "length vs = nat (vEnd - vStart) \<and> vStart < vEnd" using V by (simp add: vs_def)
  obtain k where k: "findSegment vStart bm = k" "k < nSegments bm \<Longrightarrow> vStart < lPosition (bm_segs bm ! k) + seg_length (bm_segs bm ! k)"
    using findSegment_result [OF ok] by metis
  have r: "decodes tile_table 0 c pos (take pos vs)" "pos \<le> length vs" "\<forall>i. pos \<le> i \<and> i < length vs \<longrightarrow> vs ! i = val_setBool False"
      "\<forall>s \<in> set c. \<not> isNull s"
  proof -
    have "ess \<noteq> [] \<Longrightarrow> vStart < lPosition (hd ess) + seg_length (hd ess) \<and> (0 = (0::nat) \<or> vStart + int 0 \<le> lPosition (hd ess))"
      using k by (auto simp: ess_def nSegments_def hd_drop_conv_nth)
    moreover have "\<forall>i. 0 \<le> i \<and> i < length vs \<longrightarrow> vs ! i = val_setBool (covered ess (vStart + int i))"
      using covered_cells [OF ok, of vStart] by (simp add: vs_def ess_def)
    ultimately have "decodes tile_table 0 c pos (take pos vs) \<and> pos \<le> length vs \<and> (\<forall>i. pos \<le> i \<and> i < length vs \<longrightarrow> vs ! i = val_setBool False) \<and>
        (\<forall>s \<in> set c. \<not> isNull s)"
      by (intro tile_loop_result [OF _ _ len ok' _ _ loop]) (auto simp: decodes.decodes_Nil)
    then show "decodes tile_table 0 c pos (take pos vs)" "pos \<le> length vs" "\<forall>i. pos \<le> i \<and> i < length vs \<longrightarrow> vs ! i = val_setBool False"
      "\<forall>s \<in> set c. \<not> isNull s" by blast+
  qed
  define segs where "segs = (if int pos \<noteq> vEnd - vStart then c @ [tile_seg pos False] else c)"
  have full: "int pos \<noteq> vEnd - vStart \<longleftrightarrow> pos < length vs" using r(2) len by linarith
  have d: "decodes tile_table 0 segs (length vs) vs"
    using r decodes_tile [of c pos vs "length vs" False] full unfolding segs_def by (cases "pos < length vs") auto
  define t where "t = \<lparr>startPosition = nat (vEnd - vStart),
    dataIndex = (if segs = [] then 0 else dataIndex (last segs)), isRun = True, isNull = False\<rparr>"
  have p: "unPackTile bm vStart vEnd p = (pl_clear p)\<lparr>pl_data := [2], pl_elemSize := 1, pl_dataSize := 1, pl_isBoolean := True,
      pl_nSegs := length segs, pl_container := segs @ [t], pl_valuesCount := 2\<rparr>"
    using loop by (simp add: unPackTile_def ess_def [symmetric] Let_def segs_def tile_seg_def t_def)
  have "stores (unPackTile bm vStart vEnd p) tile_table" using tile_bits by (simp add: stores_def p)
  moreover have "dataIndex t \<le> length tile_table"
    using decodes_index [OF d, of "last segs"] r(4) by (auto simp: t_def segs_def tile_seg_def tile_table_def)
  moreover have "startPosition t = length vs" using len by (simp add: t_def)
  ultimately show ?thesis unfolding vs_def [symmetric] holds_def using d
    by (intro conjI exI [of _ segs] exI [of _ t]) (simp_all add: p)
qed

section \<open>A tile of booleans as a bitmap\<close>

definition bits_of :: "val list \<Rightarrow> nat \<Rightarrow> nat list" where
  "bits_of vs n = filter (\<lambda>i. val_getBool (vs ! i)) [0..<n]"

text \<open>The bitmap stands for the positions below \<open>n\<close> whose values are true.\<close>

definition bits_inv :: "val list \<Rightarrow> nat \<Rightarrow> bm_segment list \<times> bm_segment \<Rightarrow> bool" where
  "bits_inv vs n st \<longleftrightarrow>
     (case st of (container, bs) \<Rightarrow>
        loop_inv container bs \<and> lPosition bs + seg_length bs \<le> int n \<and>
        all_cells container @ seg_cells bs = indexed 0 (map int (bits_of vs n)))"

lemma seg_cells_add:
  assumes "0 \<le> seg_length s"
  shows "seg_cells (s\<lparr>seg_length := seg_length s + int k\<rparr>) =
    seg_cells s @ map (\<lambda>i. (lPosition s + seg_length s + int i, pPosition s + seg_length s + int i)) [0..<k]"
proof (induction k)
  case (Suc k)
  have "seg_cells (s\<lparr>seg_length := seg_length s + int (Suc k)\<rparr>) =
      seg_cells ((s\<lparr>seg_length := seg_length s + int k\<rparr>)\<lparr>seg_length := seg_length (s\<lparr>seg_length := seg_length s + int k\<rparr>) + 1\<rparr>)"
    by (simp add: add.commute add.left_commute)
  also have "\<dots> = seg_cells (s\<lparr>seg_length := seg_length s + int k\<rparr>) @
      [(lPosition s + seg_length s + int k, pPosition s + seg_length s + int k)]"
    using seg_cells_more [of "s\<lparr>seg_length := seg_length s + int k\<rparr>"] assms by (simp add: add.assoc)
  finally show ?case using Suc by simp
qed simp

lemma indexed_upt: "map (\<lambda>i. (int n + int i, int m + int i)) [0..<k] = indexed m (map int [n..<n + k])"
  by (intro nth_equalityI) (simp_all add: indexed_def)

lemma set_range_inv:
  assumes inv: "bits_inv vs n st" and k: "0 < k" "\<forall>i. n \<le> i \<and> i < n + k \<longrightarrow> val_getBool (vs ! i)"
  shows "bits_inv vs (n + k) (set_range (int n) (int k) st)"
proof -
  obtain container bs where st: "st = (container, bs)" by fastforce
  have I: "loop_inv container bs" "lPosition bs + seg_length bs \<le> int n"
      "all_cells container @ seg_cells bs = indexed 0 (map int (bits_of vs n))"
    using inv by (simp_all add: bits_inv_def st)
  have bits: "bits_of vs (n + k) = bits_of vs n @ [n..<n + k]"
    using k(2) upt_add_eq_append [of 0 n k] by (simp add: bits_of_def filter_True)
  have len: "length (all_cells container @ seg_cells bs) = length (bits_of vs n)" using I(3) by simp
  define bs0 where "bs0 = (if lPosition bs + seg_length bs = int n then bs
    else bs\<lparr>lPosition := int n, seg_length := 0, pPosition := pPosition bs + seg_length bs\<rparr>)"
  define c0 where "c0 = (if lPosition bs + seg_length bs \<noteq> int n \<and> seg_length bs \<noteq> 0 then container @ [bs] else container)"
  have new: "set_range (int n) (int k) st = (c0, bs0\<lparr>seg_length := seg_length bs0 + int k\<rparr>)"
    by (simp add: set_range_def st bs0_def c0_def)
  have c: "all_cells c0 @ seg_cells bs0 = all_cells container @ seg_cells bs"
    by (simp add: c0_def bs0_def seg_cells_def)
  have "loop_inv c0 bs0"
  proof (cases "lPosition bs + seg_length bs = int n")
    case True
    then show ?thesis using I(1) by (simp add: c0_def bs0_def)
  next
    case False
    then show ?thesis using I(1,2) loop_inv_hole [OF I(1) _ I(2)] by (cases "seg_length bs = 0") (simp_all add: c0_def bs0_def loop_inv_def)
  qed
  moreover have "length (all_cells c0 @ seg_cells bs0) = length (bits_of vs n)" unfolding c by (rule len)
  ultimately have L: "0 \<le> seg_length bs0" "pPosition bs0 + seg_length bs0 = int (length (bits_of vs n))"
      "loop_inv c0 (bs0\<lparr>seg_length := seg_length bs0 + int k\<rparr>)"
    by (auto simp: loop_inv_def)
  have E: "lPosition bs0 + seg_length bs0 = int n" by (simp add: bs0_def)
  have "all_cells c0 @ seg_cells (bs0\<lparr>seg_length := seg_length bs0 + int k\<rparr>) =
      indexed 0 (map int (bits_of vs n)) @ indexed (length (bits_of vs n)) (map int [n..<n + k])"
    unfolding seg_cells_add [OF L(1)] L(2) E indexed_upt append_assoc [symmetric] c I(3) by simp
  then show ?thesis using L(3) E by (simp add: bits_inv_def new bits indexed_append)
qed

lemma skip_inv:
  assumes "bits_inv vs n st" "\<forall>i. n \<le> i \<and> i < n + k \<longrightarrow> \<not> val_getBool (vs ! i)"
  shows "bits_inv vs (n + k) st"
proof -
  have "bits_of vs (n + k) = bits_of vs n"
    using assms(2) upt_add_eq_append [of 0 n k] by (simp add: bits_of_def filter_False)
  then show ?thesis using assms(1) by (auto simp: bits_inv_def)
qed

lemma literal_bits_inv:
  assumes "bits_inv vs n st" "\<forall>i < len. checkBit p (b + i) = Some (val_getBool (vs ! (n + i)))"
  shows "\<exists>st'. literal_bits p b (int n) len st = Inr st' \<and> bits_inv vs (n + len) st'"
  using assms
proof (induction len arbitrary: b n st)
  case (Suc len)
  have b: "checkBit p b = Some (val_getBool (vs ! n))" using Suc.prems(2) by (metis add_0_right zero_less_Suc)
  define st1 where "st1 = (if val_getBool (vs ! n) then set_range (int n) 1 st else st)"
  have one: "(\<forall>i. n \<le> i \<and> i < n + 1 \<longrightarrow> P i) \<longleftrightarrow> P n" for P by (auto simp: le_Suc_eq less_Suc_eq)
  have "bits_inv vs (n + 1) st1"
    using set_range_inv [OF Suc.prems(1), of 1, unfolded one] skip_inv [OF Suc.prems(1), of 1, unfolded one] by (simp add: st1_def)
  moreover have "\<forall>i < len. checkBit p (b + 1 + i) = Some (val_getBool (vs ! (n + 1 + i)))"
    using Suc.prems(2) by (metis Suc_less_eq add.assoc plus_1_eq_Suc)
  ultimately have "\<exists>st'. literal_bits p (b + 1) (int (n + 1)) len st1 = Inr st' \<and> bits_inv vs (n + 1 + len) st'"
    by (rule Suc.IH)
  then show ?case using b by (simp add: st1_def add.commute)
qed simp

lemma segment_bits_inv:
  assumes h: "holds p tbl vs" and bool: "pl_isBoolean p" and nn: "\<forall>v \<in> set vs. \<not> val_isNull v"
    and i: "i < pl_nSegs p" and inv: "bits_inv vs (startPosition (pl_container p ! i)) st"
  shows "\<exists>st'. segment_bits p i st = Inr st' \<and> bits_inv vs (startPosition (pl_container p ! (i + 1))) st'"
proof -
  let ?s = "pl_container p ! i"
  define a where "a = startPosition ?s"
  define len where "len = getSegLength p i"
  note S = holds_segment [OF h i]
  have e: "startPosition (pl_container p ! (i + 1)) = a + len" "0 < len" using S(1) by (simp_all add: a_def len_def getSegLength_def)
  have so: "seg_ok tbl ?s len" using S(3) by (simp add: len_def getSegLength_def)
  have v: "vs ! (a + j) = seg_vals tbl ?s len ! j" if "j < len" for j
    using S(4) [of "a + j"] that by (simp add: len_def getSegLength_def a_def)
  have "\<not> val_isNull (vs ! a)" using nn S(1,2) by (simp add: a_def)
  then have nl: "\<not> isNull ?s" using v [OF e(2)] e(2) by (auto simp: seg_vals_def)
  have bits: "stores_bits (pl_data p) tbl" using h bool by (simp add: holds_def stores_def)
  show ?thesis
  proof (cases "isRun ?s")
    case True
    have d: "dataIndex ?s < length tbl" using so nl True by (simp add: seg_ok_def)
    have "\<forall>j. a \<le> j \<and> j < a + len \<longrightarrow> vs ! j = tbl ! dataIndex ?s"
      using v True nl by (metis le_Suc_ex nat_add_left_cancel_less nth_replicate seg_vals_def)
    then have "bits_inv vs (a + len) (if val_getBool (tbl ! dataIndex ?s) then set_range (int a) (int len) st else st)"
      using set_range_inv [OF inv [folded a_def] e(2)] skip_inv [OF inv [folded a_def], of len] by auto
    then show ?thesis
      unfolding e(1) using True stores_read_bool [OF bits d]
      unfolding a_def by (simp add: segment_bits_def Let_def split del: if_split flip: len_def)
  next
    case False
    have "\<forall>j < len. checkBit p (dataIndex ?s + j) = Some (val_getBool (vs ! (a + j)))"
      using stores_read_bool [OF bits] v so nl False by (simp add: seg_ok_def seg_vals_def)
    from literal_bits_inv [OF inv [folded a_def] this] show ?thesis
      unfolding e(1) using False by (simp add: segment_bits_def Let_def flip: a_def len_def)
  qed
qed

lemma payload_bits_inv:
  assumes h: "holds p tbl vs" and bool: "pl_isBoolean p" and nn: "\<forall>v \<in> set vs. \<not> val_isNull v"
    and "n \<le> pl_nSegs p" "bits_inv vs (startPosition (pl_container p ! i)) st" "i \<le> n"
  shows "\<exists>st'. payload_bits p [i..<n] st = Inr st' \<and> bits_inv vs (startPosition (pl_container p ! n)) st'"
  using assms(5,6)
proof (induction "n - i" arbitrary: i st)
  case (Suc k)
  then have i: "i < n" by simp
  obtain st' where st': "segment_bits p i st = Inr st'" "bits_inv vs (startPosition (pl_container p ! (i + 1))) st'"
    using segment_bits_inv [OF h bool nn _ Suc.prems(1)] i assms(4) by fastforce
  have "\<exists>st''. payload_bits p [i + 1..<n] st' = Inr st'' \<and> bits_inv vs (startPosition (pl_container p ! n)) st''"
    by (rule Suc.hyps(1) [OF _ st'(2)]) (use Suc.hyps(2) i in auto)
  then show ?case using st'(1) i by (simp add: upt_conv_Cons)
qed simp

lemma bitmap_of_payload_cells:
  assumes h: "holds p tbl vs" and bool: "pl_isBoolean p" and nn: "\<forall>v \<in> set vs. \<not> val_isNull v"
  shows "\<exists>bm. bitmap_of_payload p = Inr bm \<and> bitmap_ok bm \<and>
    cells bm = indexed 0 (map int (filter (\<lambda>i. val_getBool (vs ! i)) [0..<length vs]))"
proof -
  have b0: "bits_inv vs (startPosition (pl_container p ! 0)) ([], \<lparr>lPosition = 0, seg_length = 0, pPosition = 0\<rparr>)"
    unfolding holds_ends(2) [OF h] by (simp add: bits_inv_def loop_inv_def seg_end_def bits_of_def seg_cells_def)
  obtain c bs where st: "payload_bits p [0..<pl_nSegs p] ([], \<lparr>lPosition = 0, seg_length = 0, pPosition = 0\<rparr>) = Inr (c, bs)"
      "bits_inv vs (length vs) (c, bs)"
    using payload_bits_inv [OF h bool nn le_refl b0 le0] unfolding holds_ends(1) [OF h] by auto
  have inv: "loop_inv c bs" "all_cells c @ seg_cells bs = indexed 0 (map int (bits_of vs (length vs)))"
    using st(2) by (simp_all add: bits_inv_def)
  have "bitmap_of_payload p = Inr (finish_positions (c, bs))" using st(1) by (simp add: bitmap_of_payload_def finish_positions_def)
  then show ?thesis using finish_positions_ok [OF inv(1) refl] inv(2) by (simp add: bits_of_def)
qed

end
