(* ===== verification/Rle_Payload_Props.thy ===== *)
theory Rle_Payload_Props
  imports Rle_Payload_Ops
begin

text \<open>
  The properties of payloads: whatever runs of values are added by the appender can be read by
  position, by the iterator in order or from any position, from the packed form, and after
  appending another payload; and tiles of booleans stand for bitmaps.
\<close>

section \<open>Values that a payload of a type holds\<close>

definition storable :: "nat \<Rightarrow> val \<Rightarrow> bool" where
  "storable bitSize v \<longleftrightarrow>
     (case v of
        VNull reason \<Rightarrow> reason \<le> 127
      | VData _ \<Rightarrow>
          if bitSize = 1 then fits_bool v else if bitSize = 0 then fits_var v else fits_fixed ((bitSize + 7) div 8) v)"

definition stored_values :: "(val \<times> nat) list \<Rightarrow> val list" where
  "stored_values xs = filter (\<lambda>v. \<not> val_isNull v) (map fst xs)"

definition enough_room :: "nat \<Rightarrow> val list \<Rightarrow> bool" where
  "enough_room bitSize vs \<longleftrightarrow> length vs \<le> MAX_DATA_INDEX + 1 \<and>
     (bitSize = 0 \<longrightarrow> length (var_part vs) \<le> RLE_MAX_VARPART_OFFSET)"

definition runs_ok :: "nat \<Rightarrow> (val \<times> nat) list \<Rightarrow> bool" where
  "runs_ok bitSize xs \<longleftrightarrow> (\<forall>(v, cnt) \<in> set xs. 0 < cnt \<and> storable bitSize v) \<and> enough_room bitSize (stored_values xs)"

lemma append_all_holds:
  assumes "runs_ok bitSize xs"
  shows "\<exists>p tbl. append_all xs (RLEPayload bitSize) = Inr p \<and> holds p tbl (runs xs) \<and> (runs xs = [] \<longrightarrow> tbl = []) \<and>
    within tbl (stored_values xs)"
proof -
  have xs: "0 < cnt" "storable bitSize v" if "(v, cnt) \<in> set xs" for v cnt using assms that by (auto simp: runs_ok_def)
  have fit: "\<forall>(v, cnt) \<in> set xs. 0 < cnt \<and> (case v of VNull reason \<Rightarrow> reason \<le> 127 | VData _ \<Rightarrow> F v)"
    if "\<And>bs. storable bitSize (VData bs) \<Longrightarrow> F (VData bs)" for F
    using xs that by (fastforce simp: storable_def split: val.split)
  have room: "enough_room bitSize (stored_values xs)" using assms by (simp add: runs_ok_def)
  consider "bitSize = 1" | "bitSize = 0" | "bitSize \<noteq> 0" "bitSize \<noteq> 1" by blast
  then show ?thesis
  proof cases
    case 1
    have "enc_bool (pl_clear (RLEPayload bitSize)) [] []"
      using 1 by (simp add: enc_bool_def stores_def stores_bits_def pl_clear_def RLEPayload_def)
    moreover have "room_count (stored_values xs)" using room by (simp add: enough_room_def room_count_def)
    ultimately show ?thesis using bool_enc.append_all_ok [OF _ _ fit] 1 by (simp add: stored_values_def storable_def)
  next
    case 2
    have "enc_var (pl_clear (RLEPayload bitSize)) [] []"
      using 2 by (simp add: enc_var_def pl_clear_def RLEPayload_def var_offsets_def)
    moreover have "room_var (stored_values xs)" using room 2 by (simp add: enough_room_def room_var_def)
    ultimately show ?thesis using var_enc.append_all_ok [OF _ _ fit] 2 by (simp add: stored_values_def storable_def)
  next
    case 3
    have "enc_fixed ((bitSize + 7) div 8) (pl_clear (RLEPayload bitSize)) [] []"
      using 3 by (simp add: enc_fixed_def stores_def pl_clear_def RLEPayload_def)
    moreover have "room_count (stored_values xs)" using room by (simp add: enough_room_def room_count_def)
    ultimately show ?thesis using fixed_enc.append_all_ok [OF _ _ fit] 3 by (simp add: stored_values_def storable_def)
  qed
qed

text \<open>Appending leaves the type of a payload.\<close>

definition kind_of :: "payload \<Rightarrow> bool \<times> nat" where
  "kind_of p = (pl_isBoolean p, pl_elemSize p)"

lemma bindE_Inr_iff: "bindE r f = Inr y \<longleftrightarrow> (\<exists>x. r = Inr x \<and> f x = Inr y)"
  by (cases r) simp_all

lemma appendValue_kind: "appendValue varPart v i p = Inr (p', varPart') \<Longrightarrow> kind_of p' = kind_of p"
  by (auto simp: appendValue_def kind_of_def Let_def bindE_Inr_iff split: if_splits)

lemma ai_add_kind:
  assumes "ai_add v cnt a = Inr a'"
  shows "kind_of (ai_result a') = kind_of (ai_result a)"
proof -
  have seg [simp]: "kind_of (pl_addSegment s p) = kind_of p" for s p by (simp add: kind_of_def pl_addSegment_def)
  show ?thesis
    using assms
    by (auto simp: ai_add_def ai_add_null_def ai_add_repeated_def ai_add_new_def ai_close_def Let_def bindE_Inr_iff
        split: val.splits if_splits dest!: appendValue_kind)
qed

lemma append_all_kind:
  assumes "append_all xs p = Inr p'"
  shows "kind_of p' = kind_of p"
proof -
  have all: "ai_add_all xs a = Inr a' \<Longrightarrow> kind_of (ai_result a') = kind_of (ai_result a)" for a a'
  proof (induction xs arbitrary: a)
    case (Cons x xs)
    then show ?case using ai_add_kind by (cases x) (fastforce simp: bindE_Inr_iff)
  qed simp
  obtain a where a: "ai_add_all xs (append_iterator p) = Inr a" "ai_flush a = Inr p'"
    using assms by (auto simp: append_all_def bindE_Inr_iff)
  have "kind_of p' = kind_of (ai_result a)"
    using a(2) by (auto simp: ai_flush_def setVarPart_def Let_def bindE_Inr_iff kind_of_def pl_flush_def pl_addSegment_def split: if_splits)
  then show ?thesis using all [OF a(1)] by (simp add: append_iterator_def kind_of_def pl_clear_def)
qed

section \<open>Properties\<close>

lemma holds_count: "holds p tbl vs \<Longrightarrow> pl_count p = length vs"
  using holds_ends [of p tbl vs] by (auto simp: pl_count_def)

text \<open>C11. What is added to an appender is what the payload returns: for every type, whatever runs of
  values and missing values are added, in the range of positions the payload finds each of them
  and no value behind them.\<close>

theorem payload_append_read:
  assumes "runs_ok bitSize xs"
  shows "\<exists>p. append_all xs (RLEPayload bitSize) = Inr p \<and> pl_count p = length (runs xs) \<and>
    (\<forall>pos. getValueByPosition p pos = Inr (if pos < length (runs xs) then Some (runs xs ! pos) else None))"
  using append_all_holds [OF assms] holds_count holds_position by blast

text \<open>Strings of three lengths, one twice, and a missing value.\<close>

definition ex_runs :: "(val \<times> nat) list" where
  "ex_runs = [(VData [104, 105], 1), (VData [], 3), (VNull 5, 2), (VData [7], 1), (VData [9, 9, 9], 1)]"

lemma ex_runs_ok: "runs_ok 0 ex_runs"
  by (simp add: runs_ok_def ex_runs_def storable_def fits_var_def enough_room_def stored_values_def MAX_DATA_INDEX_def
      RLE_MAX_VARPART_OFFSET_def var_bytes_def)

theorem payload_append_read_witness:
  "runs_ok 0 ex_runs \<and>
   (\<exists>p. append_all ex_runs (RLEPayload 0) = Inr p \<and> pl_count p = 8 \<and> getValueByPosition p 2 = Inr (Some (VData [])) \<and>
     getValueByPosition p 5 = Inr (Some (VNull 5)) \<and> getValueByPosition p 8 = Inr None)"
proof -
  have r: "runs ex_runs = [VData [104, 105], VData [], VData [], VData [], VNull 5, VNull 5, VData [7], VData [9, 9, 9]]"
    by (simp add: runs_def ex_runs_def numeral_eq_Suc)
  obtain p where p: "append_all ex_runs (RLEPayload 0) = Inr p" "pl_count p = length (runs ex_runs)"
      "\<forall>pos. getValueByPosition p pos = Inr (if pos < length (runs ex_runs) then Some (runs ex_runs ! pos) else None)"
    using payload_append_read [OF ex_runs_ok] by blast
  show ?thesis using ex_runs_ok p spec [OF p(3), of 2] spec [OF p(3), of 5] spec [OF p(3), of 8] by (simp add: r)
qed

text \<open>C27. The iterator of a payload visits the values in their order: after \<open>i\<close> steps from the start it is
  at the end exactly when there are no more than \<open>i\<close> values, and otherwise it reads the value at \<open>i\<close>.\<close>

theorem payload_iteration:
  assumes "runs_ok bitSize xs"
  shows "\<exists>p. append_all xs (RLEPayload bitSize) = Inr p \<and>
    (\<forall>it i. i \<le> length (runs xs) \<longrightarrow>
       it_end p ((it_next p ^^ i) (it_reset p it)) = (i = length (runs xs)) \<and>
       (i < length (runs xs) \<longrightarrow> it_getItem p ((it_next p ^^ i) (it_reset p it)) = Inr (runs xs ! i)))"
proof -
  obtain p tbl where p: "append_all xs (RLEPayload bitSize) = Inr p" "holds p tbl (runs xs)"
    using append_all_holds [OF assms] by blast
  have at: "i \<le> length (runs xs) \<Longrightarrow> cursor p (runs xs) ((it_next p ^^ i) (it_reset p it)) i" for it i
  proof (induction i)
    case 0
    then show ?case using it_reset_cursor [OF p(2)] by simp
  next
    case (Suc i)
    then have "it_at p ((it_next p ^^ i) (it_reset p it)) i" by (simp add: cursor_def)
    then show ?case using it_next_cursor [OF p(2)] by simp
  qed
  have "it_end p ((it_next p ^^ i) (it_reset p it)) = (i = length (runs xs)) \<and>
       (i < length (runs xs) \<longrightarrow> it_getItem p ((it_next p ^^ i) (it_reset p it)) = Inr (runs xs ! i))"
    if i: "i \<le> length (runs xs)" for it i
    using cursor_end [OF at [OF i]] at [OF i] it_getItem_value [OF p(2)] i by (auto simp: cursor_def)
  then show ?thesis using p(1) by blast
qed

theorem payload_iteration_witness:
  "runs_ok 0 ex_runs \<and>
   (\<exists>p. append_all ex_runs (RLEPayload 0) = Inr p \<and>
      it_getItem p ((it_next p ^^ 6) (it_reset p \<lparr>it_currSeg = 0, it_cs = 0, it_currPpos = 0\<rparr>)) = Inr (VData [7]))"
proof -
  have r: "runs ex_runs = [VData [104, 105], VData [], VData [], VData [], VNull 5, VNull 5, VData [7], VData [9, 9, 9]]"
    by (simp add: runs_def ex_runs_def numeral_eq_Suc)
  obtain p where p: "append_all ex_runs (RLEPayload 0) = Inr p"
      "\<forall>it i. i \<le> length (runs ex_runs) \<longrightarrow>
       it_end p ((it_next p ^^ i) (it_reset p it)) = (i = length (runs ex_runs)) \<and>
       (i < length (runs ex_runs) \<longrightarrow> it_getItem p ((it_next p ^^ i) (it_reset p it)) = Inr (runs ex_runs ! i))"
    using payload_iteration [OF ex_runs_ok] by blast
  have "6 < length (runs ex_runs)" "runs ex_runs ! 6 = VData [7]" by (simp_all add: r)
  then show ?thesis
    using p(1) ex_runs_ok spec [OF spec [OF p(2), of "\<lparr>it_currSeg = 0, it_cs = 0, it_currPpos = 0\<rparr>"], of 6] by simp
qed

text \<open>The iterator can be set to any position that has a value, and to no other; from there \<^verbatim>\<open>+=\<close>
  moves it by a number of values, over the borders of segments, or to the end.\<close>

theorem payload_seek:
  assumes "runs_ok bitSize xs"
  shows "\<exists>p. append_all xs (RLEPayload bitSize) = Inr p \<and>
    (\<forall>it pos n. fst (it_setPosition p pos it) = (pos < length (runs xs)) \<and>
       (pos < length (runs xs) \<longrightarrow>
          it_getItem p (snd (it_setPosition p pos it)) = Inr (runs xs ! pos) \<and>
          it_end p (it_plus p n (snd (it_setPosition p pos it))) = (length (runs xs) \<le> pos + n) \<and>
          (pos + n < length (runs xs) \<longrightarrow> it_getItem p (it_plus p n (snd (it_setPosition p pos it))) = Inr (runs xs ! (pos + n)))))"
proof -
  obtain p tbl where p: "append_all xs (RLEPayload bitSize) = Inr p" "holds p tbl (runs xs)"
    using append_all_holds [OF assms] by blast
  note s = it_setPosition_cursor [OF p(2)]
  have "it_getItem p (snd (it_setPosition p pos it)) = Inr (runs xs ! pos) \<and>
          it_end p (it_plus p n (snd (it_setPosition p pos it))) = (length (runs xs) \<le> pos + n) \<and>
          (pos + n < length (runs xs) \<longrightarrow> it_getItem p (it_plus p n (snd (it_setPosition p pos it))) = Inr (runs xs ! (pos + n)))"
    if l: "pos < length (runs xs)" for it pos n
  proof -
    have at: "it_at p (snd (it_setPosition p pos it)) pos" using s(2) [of pos it] l by (simp add: cursor_def)
    have c: "cursor p (runs xs) (it_plus p n (snd (it_setPosition p pos it))) (pos + n)" by (rule it_plus_cursor [OF p(2) at])
    show ?thesis using it_getItem_value [OF p(2)] at c cursor_end [OF c] by (auto simp: cursor_def)
  qed
  then show ?thesis using p(1) s(1) by blast
qed

theorem payload_seek_witness:
  "runs_ok 0 ex_runs \<and>
   (\<exists>p. append_all ex_runs (RLEPayload 0) = Inr p \<and>
      it_getItem p (it_plus p 4 (snd (it_setPosition p 3 \<lparr>it_currSeg = 0, it_cs = 0, it_currPpos = 0\<rparr>))) = Inr (VData [9, 9, 9]) \<and>
      \<not> fst (it_setPosition p 8 \<lparr>it_currSeg = 0, it_cs = 0, it_currPpos = 0\<rparr>))"
proof -
  have r: "runs ex_runs = [VData [104, 105], VData [], VData [], VData [], VNull 5, VNull 5, VData [7], VData [9, 9, 9]]"
    by (simp add: runs_def ex_runs_def numeral_eq_Suc)
  have l: "length (runs ex_runs) = 8" "runs ex_runs ! (3 + 4) = VData [9, 9, 9]" by (simp_all add: r)
  let ?it = "\<lparr>it_currSeg = 0, it_cs = 0, it_currPpos = 0\<rparr>"
  obtain p where p: "append_all ex_runs (RLEPayload 0) = Inr p"
    and s: "\<And>it pos n. fst (it_setPosition p pos it) = (pos < length (runs ex_runs)) \<and>
       (pos < length (runs ex_runs) \<longrightarrow>
          it_getItem p (snd (it_setPosition p pos it)) = Inr (runs ex_runs ! pos) \<and>
          it_end p (it_plus p n (snd (it_setPosition p pos it))) = (length (runs ex_runs) \<le> pos + n) \<and>
          (pos + n < length (runs ex_runs) \<longrightarrow> it_getItem p (it_plus p n (snd (it_setPosition p pos it))) = Inr (runs ex_runs ! (pos + n))))"
    using payload_seek [OF ex_runs_ok] by blast
  show ?thesis using p ex_runs_ok s [of 3 ?it 4] s [of 8 ?it 0] unfolding l by auto
qed

text \<open>C28. On a payload of booleans without missing values, skipping forward counts the true values that
  are passed over and stops at the position reached. Runs of missing values are not covered: for
  them the code looks at the bit whose index is the missing reason.\<close>

theorem payload_skip_counts:
  assumes "runs_ok 1 xs" "\<forall>(v, cnt) \<in> set xs. \<not> val_isNull v"
  shows "\<exists>p. append_all xs (RLEPayload 1) = Inr p \<and>
    (\<forall>it pos n. pos < length (runs xs) \<longrightarrow>
       (\<exists>it'. it_skip p n 0 (snd (it_setPosition p pos it)) =
            Inr (length (filter val_getBool (take n (drop pos (runs xs)))), it') \<and>
          it_end p it' = (length (runs xs) \<le> pos + n) \<and>
          (pos + n < length (runs xs) \<longrightarrow> it_getItem p it' = Inr (runs xs ! (pos + n)))))"
proof -
  obtain p tbl where p: "append_all xs (RLEPayload 1) = Inr p" "holds p tbl (runs xs)"
    using append_all_holds [OF assms(1)] by blast
  have b: "pl_isBoolean p" using append_all_kind [OF p(1)] by (simp add: kind_of_def RLEPayload_def)
  have nn: "\<forall>v \<in> set (runs xs). \<not> val_isNull v" using assms(2) by (fastforce simp: runs_def)
  have "\<exists>it'. it_skip p n 0 (snd (it_setPosition p pos it)) =
            Inr (length (filter val_getBool (take n (drop pos (runs xs)))), it') \<and>
          it_end p it' = (length (runs xs) \<le> pos + n) \<and>
          (pos + n < length (runs xs) \<longrightarrow> it_getItem p it' = Inr (runs xs ! (pos + n)))" for it pos n
  proof -
    obtain it' where it': "it_skip p n 0 (snd (it_setPosition p pos it)) =
          Inr (0 + (if pl_isBoolean p then set_bits (take n (drop pos (runs xs))) else 0), it')" "cursor p (runs xs) it' (pos + n)"
      using it_skip_cursor [OF p(2) nn it_setPosition_cursor(2) [OF p(2)]] by blast
    show ?thesis using it' b cursor_end [OF it'(2)] it_getItem_value [OF p(2)] by (auto simp: set_bits_def cursor_def)
  qed
  then show ?thesis using p(1) by blast
qed

theorem payload_skip_counts_witness:
  "runs_ok 1 [(VData [1], 3), (VData [0], 2), (VData [1], 1)] \<and>
   (\<exists>p it'. append_all [(VData [1], 3), (VData [0], 2), (VData [1], 1)] (RLEPayload 1) = Inr p \<and>
      it_skip p 4 0 (snd (it_setPosition p 1 \<lparr>it_currSeg = 0, it_cs = 0, it_currPpos = 0\<rparr>)) = Inr (2, it') \<and>
      it_getItem p it' = Inr (VData [1]))"
proof -
  define xs where "xs = [(VData [1], 3), (VData [0], 2), (VData [1], 1::nat)]"
  have ok: "runs_ok 1 xs" "\<forall>(v, cnt) \<in> set xs. \<not> val_isNull v"
    by (simp_all add: xs_def runs_ok_def storable_def fits_bool_def enough_room_def stored_values_def MAX_DATA_INDEX_def)
  have r: "runs xs = [VData [1], VData [1], VData [1], VData [0], VData [0], VData [1]]" by (simp add: runs_def xs_def numeral_eq_Suc)
  have l: "1 < length (runs xs)" "1 + 4 < length (runs xs)" "runs xs ! (1 + 4) = VData [1]"
      "length (filter val_getBool (take 4 (drop 1 (runs xs)))) = 2"
    by (simp_all add: r val_getBool_def)
  from payload_skip_counts [OF ok] show ?thesis using ok(1) l unfolding xs_def [symmetric] by metis
qed

text \<open>C29. A packed payload fills the announced number of bytes, and the payload read from them has the
  same segments, sizes and values.\<close>

theorem payload_pack_round_trip:
  assumes "pl_wf p" "length dst = pl_packedSize p"
  shows "\<exists>bs. pl_pack p dst = Inr bs \<and> length bs = pl_packedSize p \<and> ConstRLEPayload (Some bs) = Inr (p\<lparr>pl_valuesCount := 0\<rparr>)"
  by (rule payload_unpack [OF assms])

definition ex_payload :: payload where
  "ex_payload =
     \<lparr>pl_container = [\<lparr>startPosition = 0, dataIndex = 0, isRun = False, isNull = False\<rparr>,
                     \<lparr>startPosition = 2, dataIndex = 7, isRun = True, isNull = True\<rparr>,
                     \<lparr>startPosition = 6, dataIndex = 0, isRun = False, isNull = False\<rparr>],
      pl_nSegs = 2, pl_elemSize = 2, pl_dataSize = 4, pl_varOffs = 0, pl_isBoolean = False,
      pl_data = [1, 2, 3, 4], pl_valuesCount = 2\<rparr>"

theorem payload_pack_round_trip_witness:
  "append_all [(VData [1, 2], 1), (VData [3, 4], 1), (VNull 7, 4)] (RLEPayload 16) = Inr ex_payload \<and>
   (\<exists>bs. pl_pack ex_payload (replicate 88 0) = Inr bs \<and> ConstRLEPayload (Some bs) = Inr (ex_payload\<lparr>pl_valuesCount := 0\<rparr>))"
proof
  show "append_all [(VData [1, 2], 1), (VData [3, 4], 1), (VNull 7, 4)] (RLEPayload 16) = Inr ex_payload"
    by (simp add: append_all_def append_iterator_def RLEPayload_def ai_add_def ai_add_new_def ai_add_null_def ai_close_def ai_flush_def
        setValueIndex_def setDataIndex_def MAX_DATA_INDEX_def setNull_def setSame_def setPPosition_def addToPPosition_def Segment0_def
        appendValue_def fixedSize_def resize_def store_at_def pl_addSegment_def pl_flush_def pl_clear_def Let_def ex_payload_def)
  have "pl_wf ex_payload" by (simp add: pl_wf_def ex_payload_def seg_fits_def MAX_DATA_INDEX_def)
  moreover have "length (replicate 88 (0 :: byte)) = pl_packedSize ex_payload" by (simp add: pl_packedSize_def ex_payload_def)
  ultimately show "\<exists>bs. pl_pack ex_payload (replicate 88 0) = Inr bs \<and> ConstRLEPayload (Some bs) = Inr (ex_payload\<lparr>pl_valuesCount := 0\<rparr>)"
    using payload_pack_round_trip by blast
qed

text \<open>The values two payloads store fit into one.\<close>

definition fit_together :: "nat \<Rightarrow> (val \<times> nat) list \<Rightarrow> (val \<times> nat) list \<Rightarrow> bool" where
  "fit_together bitSize xs ys \<longleftrightarrow>
     length (stored_values xs) + length (stored_values ys) + 7 \<le> MAX_DATA_INDEX \<and>
     (bitSize = 0 \<longrightarrow> length (var_part (stored_values xs)) + length (var_part (stored_values ys)) \<le> RLE_MAX_VARPART_OFFSET)"

lemma length_var_part: "length (var_part tbl) = sum_list (map (length \<circ> var_bytes) tbl)"
  by (simp add: var_part_def length_concat comp_def)

text \<open>C12. Appending a payload to another gives the values of both, one after the other, whatever the type and
  however the values were put into runs.\<close>

theorem payload_concat:
  assumes "runs_ok bitSize xs" "runs_ok bitSize ys" "fit_together bitSize xs ys"
  shows "\<exists>p q r. append_all xs (RLEPayload bitSize) = Inr p \<and> append_all ys (RLEPayload bitSize) = Inr q \<and> pl_append q p = Inr r \<and>
    pl_count r = length (runs xs) + length (runs ys) \<and>
    (\<forall>pos < pl_count r. getValueByPosition r pos = Inr (Some ((runs xs @ runs ys) ! pos)))"
proof -
  obtain p tbl where p: "append_all xs (RLEPayload bitSize) = Inr p" "holds p tbl (runs xs)" "runs xs = [] \<longrightarrow> tbl = []"
      "within tbl (stored_values xs)" using append_all_holds [OF assms(1)] by blast
  obtain q us where q: "append_all ys (RLEPayload bitSize) = Inr q" "holds q us (runs ys)" "within us (stored_values ys)"
    using append_all_holds [OF assms(2)] by blast
  have k: "pl_isBoolean p = (bitSize = 1)" "pl_elemSize p = (bitSize + 7) div 8" "pl_isBoolean q = (bitSize = 1)" "pl_elemSize q = (bitSize + 7) div 8"
    using append_all_kind [OF p(1)] append_all_kind [OF q(1)] by (simp_all add: kind_of_def RLEPayload_def)
  have w: "length tbl \<le> length (stored_values xs)" "length us \<le> length (stored_values ys)"
      "length (var_part tbl) \<le> length (var_part (stored_values xs))" "length (var_part us) \<le> length (var_part (stored_values ys))"
    using within_length [OF p(4)] within_length [OF q(3)] within_sum [OF p(4), of "length \<circ> var_bytes"] within_sum [OF q(3), of "length \<circ> var_bytes"]
    by (simp_all add: length_var_part)
  have "length (padded p tbl) \<le> length tbl + 7"
  proof (cases "pl_isBoolean p")
    case True
    then have "pl_dataSize p = (length tbl + 7) div 8" using p(2) by (simp add: holds_def stores_def stores_bits_def)
    moreover have "8 * ((length tbl + 7) div 8) \<le> length tbl + 7" by (rule times_div_less_eq_dividend)
    ultimately show ?thesis using True by (simp add: padded_def)
  qed (simp add: padded_def)
  then have bound: "length (padded p tbl) + length us \<le> MAX_DATA_INDEX" using w(1,2) assms(3) by (simp add: fit_together_def)
  have var: "length (var_part tbl) + length (var_part us) \<le> RLE_MAX_VARPART_OFFSET" if "\<not> pl_isBoolean p" "pl_elemSize p = 0"
  proof -
    have "bitSize = 0" using that(2) k(2) by (simp add: div_eq_0_iff)
    then show ?thesis using w(3,4) assms(3) by (simp add: fit_together_def)
  qed
  obtain r tbl' where r: "pl_append q p = Inr r" "holds r tbl' (runs xs @ runs ys)"
    using holds_append [OF p(2) q(2) _ _ _ var bound] k p(3) by auto
  show ?thesis using p(1) q(1) r(1) holds_count [OF r(2)] holds_position [OF r(2)] by auto
qed

theorem payload_concat_witness:
  "runs_ok 0 ex_runs \<and> fit_together 0 ex_runs ex_runs \<and>
   (\<exists>p r. append_all ex_runs (RLEPayload 0) = Inr p \<and> pl_append p p = Inr r \<and> getValueByPosition r 15 = Inr (Some (VData [9, 9, 9])))"
proof -
  have f: "fit_together 0 ex_runs ex_runs"
    by (simp add: fit_together_def stored_values_def ex_runs_def MAX_DATA_INDEX_def RLE_MAX_VARPART_OFFSET_def var_bytes_def)
  have "runs ex_runs = [VData [104, 105], VData [], VData [], VData [], VNull 5, VNull 5, VData [7], VData [9, 9, 9]]"
    by (simp add: runs_def ex_runs_def numeral_eq_Suc)
  then have l: "length (runs ex_runs) + length (runs ex_runs) = 16" "(runs ex_runs @ runs ex_runs) ! 15 = VData [9, 9, 9]" by simp_all
  obtain p q r where p: "append_all ex_runs (RLEPayload 0) = Inr p" "append_all ex_runs (RLEPayload 0) = Inr q" "pl_append q p = Inr r"
      "pl_count r = 16" "\<forall>pos < pl_count r. getValueByPosition r pos = Inr (Some ((runs ex_runs @ runs ex_runs) ! pos))"
    using payload_concat [OF ex_runs_ok ex_runs_ok f] unfolding l(1) by blast
  have "q = p" using p(1,2) by simp
  moreover have "getValueByPosition r 15 = Inr (Some (VData [9, 9, 9]))" using spec [OF p(5), of 15] p(4) l(2) by simp
  ultimately show ?thesis using ex_runs_ok f p(1,3) by blast
qed

lemma cells_sorted: "segs_ok l q ss \<Longrightarrow> sorted_wrt (<) (map fst (all_cells ss)) \<and> (\<forall>x \<in> set (map fst (all_cells ss)). l \<le> x)"
proof (induction ss arbitrary: l q)
  case (Cons s ss)
  have "sorted_wrt (<) (map fst (seg_cells s))" by (simp add: seg_cells_def sorted_wrt_map)
  moreover have "lPosition s \<le> x \<and> x < lPosition s + seg_length s" if "x \<in> fst ` set (seg_cells s)" for x
    using that by (auto simp: mem_seg_cells)
  moreover have "sorted_wrt (<) (map fst (all_cells ss))" "\<forall>x \<in> fst ` set (all_cells ss). lPosition s + seg_length s \<le> x"
    using Cons.IH [of "lPosition s + seg_length s" "pPosition s + seg_length s"] Cons.prems by simp_all
  moreover have "l \<le> lPosition s" "0 < seg_length s" using Cons.prems by simp_all
  ultimately show ?case
    unfolding all_cells_simps map_append sorted_wrt_append set_append ball_Un set_map
    by (intro conjI ballI) (assumption | force)+
qed simp

lemma tile_positions:
  assumes ok: "segs_ok l q (bm_segs bm)"
  shows "map int (filter (\<lambda>i. \<not> isEmpty (vStart + int i) bm) [0..<nat (vEnd - vStart)]) =
    map (\<lambda>x. x - vStart) (filter (\<lambda>x. vStart \<le> x \<and> x < vEnd) (map fst (cells bm)))" (is "?a = ?b")
proof -
  have "sorted_wrt (<) (map fst (cells bm))" using cells_sorted [OF ok] by (simp add: cells_def all_cells_def)
  then have "sorted_wrt (<) (filter (\<lambda>x. vStart \<le> x \<and> x < vEnd) (map fst (cells bm)))" by (rule sorted_wrt_filter)
  then have b: "sorted_wrt (<) ?b" by (simp add: sorted_wrt_map)
  have "sorted_wrt (<) (filter (\<lambda>i. \<not> isEmpty (vStart + int i) bm) [0..<nat (vEnd - vStart)])" by (intro sorted_wrt_filter) simp
  then have a: "sorted_wrt (<) ?a" by (simp add: sorted_wrt_map)
  have "set ?a = set ?b"
  proof (intro set_eqI iffI)
    fix y assume "y \<in> set ?b"
    then obtain x where x: "y = x - vStart" "vStart \<le> x" "x < vEnd" "x \<in> fst ` set (cells bm)" by auto
    then have "nat y \<in> set (filter (\<lambda>i. \<not> isEmpty (vStart + int i) bm) [0..<nat (vEnd - vStart)])"
      using isEmpty_iff [OF ok, of x] by auto
    moreover have "y = int (nat y)" using x by simp
    ultimately show "y \<in> set ?a" unfolding set_map by blast
  next
    fix y assume "y \<in> set ?a"
    then obtain i where i: "y = int i" "i < nat (vEnd - vStart)" "\<not> isEmpty (vStart + int i) bm" by auto
    then have "vStart + int i \<in> set (filter (\<lambda>x. vStart \<le> x \<and> x < vEnd) (map fst (cells bm)))"
      using isEmpty_iff [OF ok, of "vStart + int i"] by auto
    then show "y \<in> set ?b" using i(1) by force
  qed
  then show ?thesis using a b by (intro strict_sorted_equal) (simp_all add: strict_sorted_iff)
qed

text \<open>C30. The tile unpacked from a bitmap tells for every position of the range whether the bitmap has the
  cell, and the bitmap made from the tile has exactly the cells of the range, moved to its start.\<close>

theorem tile_round_trip:
  assumes "bitmap_ok bm" "vStart < vEnd"
  shows "(\<forall>i < nat (vEnd - vStart). getValueByPosition (unPackTile bm vStart vEnd p) i =
       Inr (Some (val_setBool (\<not> isEmpty (vStart + int i) bm)))) \<and>
    (\<exists>bm'. bitmap_of_payload (unPackTile bm vStart vEnd p) = Inr bm' \<and> bitmap_ok bm' \<and>
       map fst (cells bm') = map (\<lambda>x. x - vStart) (filter (\<lambda>x. vStart \<le> x \<and> x < vEnd) (map fst (cells bm))))"
proof -
  have ok: "segs_ok 0 0 (bm_segs bm)" using assms(1) by (simp add: bitmap_ok_def)
  let ?vs = "map (\<lambda>i. val_setBool (\<not> isEmpty (vStart + int i) bm)) [0..<nat (vEnd - vStart)]"
  have h: "holds (unPackTile bm vStart vEnd p) tile_table ?vs" by (rule unPackTile_holds [OF ok assms(2)])
  have b: "pl_isBoolean (unPackTile bm vStart vEnd p)" by (simp add: unPackTile_def Let_def split: prod.split)
  have nn: "\<forall>v \<in> set ?vs. \<not> val_isNull v" by (simp add: val_setBool_def)
  obtain bm' where bm': "bitmap_of_payload (unPackTile bm vStart vEnd p) = Inr bm'" "bitmap_ok bm'"
      "cells bm' = indexed 0 (map int (filter (\<lambda>i. val_getBool (?vs ! i)) [0..<length ?vs]))"
    using bitmap_of_payload_cells [OF h b nn] by blast
  have "filter (\<lambda>i. val_getBool (?vs ! i)) [0..<length ?vs] = filter (\<lambda>i. \<not> isEmpty (vStart + int i) bm) [0..<nat (vEnd - vStart)]"
    by (intro filter_cong) auto
  moreover have "map fst (indexed 0 ps) = ps" for ps by (intro nth_equalityI) (simp_all add: indexed_def)
  ultimately have "map fst (cells bm') = map (\<lambda>x. x - vStart) (filter (\<lambda>x. vStart \<le> x \<and> x < vEnd) (map fst (cells bm)))"
    unfolding bm'(3) tile_positions [OF ok, symmetric] by simp
  then show ?thesis using bm'(1,2) holds_position [OF h] by auto
qed

theorem tile_round_trip_witness:
  "bitmap_ok ex_bitmap \<and>
   getValueByPosition (unPackTile ex_bitmap 3 8 (RLEPayload 1)) 4 = Inr (Some (VData [1])) \<and>
   (\<exists>bm'. bitmap_of_payload (unPackTile ex_bitmap 3 8 (RLEPayload 1)) = Inr bm' \<and> map fst (cells bm') = [0, 1, 4])"
proof -
  have r: "(3::int) < 8" by simp
  have e: "\<not> isEmpty 7 ex_bitmap" using isEmpty_iff [OF ex_bitmap_ok(2), of 7] by (simp add: ex_bitmap_ok(4))
  have c: "map (\<lambda>x. x - 3) (filter (\<lambda>x. 3 \<le> x \<and> x < 8) (map fst (cells ex_bitmap))) = [0, 1, 4]" by (simp add: ex_bitmap_ok(4))
  note t = tile_round_trip [OF ex_bitmap_ok(1) r, of "RLEPayload 1"]
  have "getValueByPosition (unPackTile ex_bitmap 3 8 (RLEPayload 1)) 4 = Inr (Some (VData [1]))"
    using spec [OF conjunct1 [OF t], of 4] e by (simp add: val_setBool_def)
  moreover obtain bm' where "bitmap_of_payload (unPackTile ex_bitmap 3 8 (RLEPayload 1)) = Inr bm'" "map fst (cells bm') = [0, 1, 4]"
    using conjunct2 [OF t] unfolding c by (elim exE conjE)
  ultimately show ?thesis using ex_bitmap_ok(1) by (intro conjI exI [of _ bm'])
qed

end
