(* ===== verification/Rle_Payload_Map.thy ===== *)
theory Rle_Payload_Map
  imports Rle_Payload_Props
begin

text \<open>
  The constructors of \<^verbatim>\<open>RLEPayload\<close> that fill a chunk: from a map of positions to values, with a
  default value for the positions the map has not, and from the default value alone. The values
  they stand for are proved for every encoding at once.
\<close>

section \<open>The constructor from a value map\<close>

text \<open>
  The variables of the loop of \<^verbatim>\<open>RLEPayload(ValueMap const&, ...)\<close>: the segment that grows, its
  length, the value seen last.
\<close>

record vm_state =
  vm_result :: payload
  vm_varPart :: "byte list"
  vm_currSeg :: pl_segment
  vm_segLength :: nat
  vm_valueIndex :: nat
  vm_currVal :: "val option"

definition vm_push :: "pl_segment \<Rightarrow> vm_state \<Rightarrow> vm_state" where
  "vm_push s st = st\<lparr>vm_result := (vm_result st)\<lparr>pl_container := pl_container (vm_result st) @ [s]\<rparr>\<rparr>"

definition vm_append :: "val \<Rightarrow> vm_state \<Rightarrow> error + vm_state" where
  "vm_append v st =
     bindE (appendValue (vm_varPart st) v (vm_valueIndex st) (vm_result st)) (\<lambda>(p, varPart).
       Inr (st\<lparr>vm_result := p, vm_varPart := varPart, vm_valueIndex := vm_valueIndex st + 1\<rparr>))"

text \<open>The start: the default value is the first that is stored.\<close>

definition vm_start :: "nat \<Rightarrow> val \<Rightarrow> bool \<Rightarrow> error + vm_state" where
  "vm_start elemSize defaultVal isBoolean =
     (let st = \<lparr>vm_result = \<lparr>pl_container = [], pl_nSegs = 0, pl_elemSize = elemSize, pl_dataSize = 0, pl_varOffs = 0,
                             pl_isBoolean = isBoolean, pl_data = [], pl_valuesCount = 0\<rparr>,
                vm_varPart = [], vm_currSeg = setPPosition 0 (setSame True Segment0), vm_segLength = 0, vm_valueIndex = 0,
                vm_currVal = None\<rparr> in
      if \<not> val_isNull defaultVal then vm_append defaultVal st else Inr st)"

text \<open>The segment becomes one of default values.\<close>

definition default_segment :: "val \<Rightarrow> pl_segment \<Rightarrow> error + pl_segment" where
  "default_segment defaultVal s =
     bindE (case defaultVal of VNull reason \<Rightarrow> setValueIndex reason (setNull True s) | VData _ \<Rightarrow> setValueIndex 0 (setNull False s))
       (\<lambda>s1. Inr (setSame True s1))"

definition vm_default :: "val \<Rightarrow> vm_state \<Rightarrow> error + vm_state" where
  "vm_default defaultVal st =
     (let st1 = (if vm_segLength st \<noteq> 0 then vm_push (vm_currSeg st) st else st) in
      bindE (default_segment defaultVal (vm_currSeg st1)) (\<lambda>s.
        (let s1 = addToPPosition (vm_segLength st1) s in Inr (vm_push s1 (st1\<lparr>vm_currSeg := s1\<rparr>)))))"

text \<open>A new segment for one value; with \<open>carry\<close> the value before it belongs to the segment as well.\<close>

definition vm_open :: "nat \<Rightarrow> val \<Rightarrow> nat \<Rightarrow> vm_state \<Rightarrow> error + vm_state" where
  "vm_open pos v carry st =
     bindE
       (case v of
          VNull reason \<Rightarrow>
            bindE (setValueIndex reason (setNull True (vm_currSeg st))) (\<lambda>s. Inr (st\<lparr>vm_currSeg := s\<rparr>))
        | VData _ \<Rightarrow>
            if carry \<noteq> 0 then
              bindE (setValueIndex (vm_valueIndex st - 1) (setNull False (vm_currSeg st))) (\<lambda>s. Inr (st\<lparr>vm_currSeg := s\<rparr>))
            else
              bindE (vm_append v st) (\<lambda>st1.
                bindE (setValueIndex (vm_valueIndex st) (setNull False (vm_currSeg st1))) (\<lambda>s. Inr (st1\<lparr>vm_currSeg := s\<rparr>))))
       (\<lambda>st2. Inr (st2\<lparr>vm_currSeg := setPPosition (pos - carry) (setSame True (vm_currSeg st2)), vm_segLength := 1 + carry,
                       vm_currVal := Some v\<rparr>))"

definition vm_step :: "val \<Rightarrow> bool \<Rightarrow> nat \<times> val \<Rightarrow> vm_state \<Rightarrow> error + vm_state" where
  "vm_step defaultVal subsequent e st =
     (let here = startPosition (vm_currSeg st) + vm_segLength st;
          pos = (if subsequent then here else fst e);
          v = snd e;
          s = vm_currSeg st in
      if \<not> subsequent \<and> v = defaultVal then Inr st
      else if vm_currVal st = None \<or> \<not> isRun s \<or> vm_currVal st \<noteq> Some v \<or> pos \<noteq> here then
        if pos \<noteq> here then bindE (vm_default defaultVal st) (vm_open pos v 0)
        else if vm_segLength st \<noteq> 0 then
          if (\<not> isRun s \<or> vm_segLength st = 1) \<and> \<not> val_isNull v \<and> (\<forall>c. vm_currVal st = Some c \<longrightarrow> \<not> val_isNull c) then
            if vm_currVal st = Some v then
              vm_open pos v 1 (vm_push s (st\<lparr>vm_segLength := vm_segLength st - 1\<rparr>))
            else
              bindE (vm_append v (st\<lparr>vm_currSeg := setSame False s, vm_segLength := vm_segLength st + 1\<rparr>)) (\<lambda>st1.
                Inr (st1\<lparr>vm_currVal := Some v\<rparr>))
          else vm_open pos v 0 (vm_push s st)
        else vm_open pos v 0 st
      else Inr (st\<lparr>vm_segLength := vm_segLength st + 1\<rparr>))"

fun vm_loop :: "val \<Rightarrow> bool \<Rightarrow> (nat \<times> val) list \<Rightarrow> vm_state \<Rightarrow> error + vm_state" where
  "vm_loop defaultVal subsequent [] st = Inr st"
| "vm_loop defaultVal subsequent (e # es) st = bindE (vm_step defaultVal subsequent e st) (vm_loop defaultVal subsequent es)"

text \<open>The terminating segment, and the part of varying size behind the offsets.\<close>

definition vm_pack :: "nat \<Rightarrow> pl_segment \<Rightarrow> vm_state \<Rightarrow> payload" where
  "vm_pack n s st =
     (let p = vm_result st in
      p\<lparr>pl_nSegs := length (pl_container p), pl_container := pl_container p @ [setPPosition n s],
        pl_data := resize (pl_dataSize p) (pl_data p) @ vm_varPart st, pl_varOffs := pl_dataSize p,
        pl_dataSize := pl_dataSize p + length (vm_varPart st), pl_valuesCount := vm_valueIndex st\<rparr>)"

text \<open>The end: the last segment, the rest of the default values.\<close>

definition vm_finish :: "val \<Rightarrow> bool \<Rightarrow> nat \<Rightarrow> vm_state \<Rightarrow> error + payload" where
  "vm_finish defaultVal subsequent nElems st =
     (let st1 = (if vm_segLength st \<noteq> 0 then vm_push (vm_currSeg st) st else st);
          here = startPosition (vm_currSeg st1) + vm_segLength st1;
          n = (if subsequent then here else nElems) in
      bindE
        (if \<not> subsequent \<and> here \<noteq> nElems then
           bindE (default_segment defaultVal (vm_currSeg st1)) (\<lambda>s.
             (let s1 = addToPPosition (vm_segLength st1) s in Inr (vm_push s1 (st1\<lparr>vm_currSeg := s1\<rparr>))))
         else Inr st1)
        (\<lambda>st2. Inr (vm_pack n (vm_currSeg st2) st2)))"

definition payload_of_map :: "(nat \<times> val) list \<Rightarrow> nat \<Rightarrow> nat \<Rightarrow> val \<Rightarrow> bool \<Rightarrow> bool \<Rightarrow> error + payload" where
  "payload_of_map vm nElems elemSize defaultVal isBoolean subsequent =
     bindE (vm_start elemSize defaultVal isBoolean) (\<lambda>st0.
       bindE (vm_loop defaultVal subsequent vm st0) (vm_finish defaultVal subsequent nElems))"

text \<open>\<^verbatim>\<open>RLEPayload(Value const&, size_t, size_t, bool)\<close>: default values only.\<close>

definition payload_of_default :: "val \<Rightarrow> nat \<Rightarrow> nat \<Rightarrow> bool \<Rightarrow> error + payload" where
  "payload_of_default defaultVal logicalSize elemSize isBoolean =
     bindE (vm_start elemSize defaultVal isBoolean) (\<lambda>st0.
       bindE (default_segment defaultVal (vm_currSeg st0)) (\<lambda>s.
         Inr (vm_pack logicalSize s (vm_push s st0))))"

section \<open>The values of a payload made from a map\<close>

text \<open>The value a map stands for at a position.\<close>

definition map_value :: "val \<Rightarrow> (nat \<times> val) list \<Rightarrow> nat \<Rightarrow> val" where
  "map_value d es i = (case map_of es i of Some v \<Rightarrow> v | None \<Rightarrow> d)"

lemma map_value_before: "\<forall>e \<in> set es. pos < fst e \<Longrightarrow> i \<le> pos \<Longrightarrow> map_value d es i = d"
  by (induction es) (auto simp: map_value_def)

lemma map_value_default: "\<forall>e \<in> set es. pos < fst e \<Longrightarrow> map_value d ((pos, d) # es) = map_value d es"
  using map_value_before [of es pos pos d] by (auto simp: map_value_def fun_eq_iff)

lemma map_value_run:
  assumes "m \<le> pos" "\<forall>e \<in> set es. pos < fst e"
  shows "replicate (pos - m) d @ [v] = map (map_value d ((pos, v) # es)) [m..<Suc pos]"
proof -
  have "map (map_value d ((pos, v) # es)) [m..<pos] = map (\<lambda>_. d) [m..<pos]"
    using map_value_before [OF assms(2)] by (intro map_cong) (auto simp: map_value_def)
  then show ?thesis using assms(1) by (simp add: map_replicate_const map_value_def)
qed

lemma resize_self [simp]: "resize (length xs) xs = xs"
  by (simp add: resize_def)

text \<open>What the constructors make of a map and a default value.\<close>

definition map_constructed :: "(nat \<times> val) list \<Rightarrow> nat \<Rightarrow> nat \<Rightarrow> val \<Rightarrow> bool \<Rightarrow> bool" where
  "map_constructed vm n elemSize d isBoolean \<longleftrightarrow>
     (\<exists>p tbl. payload_of_map vm n elemSize d isBoolean True = Inr p \<and> holds p tbl (map snd vm)) \<and>
     (sorted_wrt (<) (map fst vm) \<and> (\<forall>e \<in> set vm. fst e < n) \<longrightarrow>
       (\<exists>p tbl. payload_of_map vm n elemSize d isBoolean False = Inr p \<and> holds p tbl (map (map_value d vm) [0..<n]))) \<and>
     (0 < n \<longrightarrow> (\<exists>p tbl. payload_of_default d n elemSize isBoolean = Inr p \<and> holds p tbl (replicate n d)))"

locale map_encoding = value_encoding +
  assumes enc_pack: "enc p varPart tbl \<Longrightarrow>
    stores (p\<lparr>pl_data := resize (pl_dataSize p) (pl_data p) @ varPart, pl_varOffs := pl_dataSize p,
              pl_dataSize := pl_dataSize p + length varPart\<rparr>) tbl"
begin

definition fits_val :: "val \<Rightarrow> bool" where
  "fits_val v \<longleftrightarrow> (case v of VNull reason \<Rightarrow> reason \<le> 127 | VData _ \<Rightarrow> fits v)"

text \<open>The segments of the payload stand for \<open>ws\<close>; the default value is stored first.\<close>

definition vm_closed :: "val \<Rightarrow> val list \<Rightarrow> val list \<Rightarrow> vm_state \<Rightarrow> bool" where
  "vm_closed d tbl ws st \<longleftrightarrow>
     enc (vm_result st) (vm_varPart st) tbl \<and> room tbl \<and> length tbl = vm_valueIndex st \<and> (\<not> val_isNull d \<longrightarrow> tbl \<noteq> [] \<and> tbl ! 0 = d) \<and>
     decodes tbl 0 (pl_container (vm_result st)) (length ws) ws"

definition vm_seg :: "val list \<Rightarrow> vm_state \<Rightarrow> bool" where
  "vm_seg tbl st \<longleftrightarrow> seg_ok tbl (vm_currSeg st) (vm_segLength st) \<and>
     (\<exists>c. vm_currVal st = Some c \<and>
        (if isNull (vm_currSeg st) then c = VNull (dataIndex (vm_currSeg st))
         else \<not> val_isNull c \<and>
           (if isRun (vm_currSeg st) then tbl ! dataIndex (vm_currSeg st) = c \<and> (vm_segLength st = 1 \<longrightarrow> dataIndex (vm_currSeg st) + 1 = length tbl)
            else 1 < vm_segLength st \<and> dataIndex (vm_currSeg st) + vm_segLength st = length tbl \<and> last tbl = c)))"

definition vm_ok :: "val \<Rightarrow> val list \<Rightarrow> val list \<Rightarrow> vm_state \<Rightarrow> bool" where
  "vm_ok d tbl vs st \<longleftrightarrow>
     (\<exists>ws. vm_closed d tbl ws st \<and> startPosition (vm_currSeg st) = length ws \<and>
        (if vm_segLength st = 0 then vs = ws \<and> vm_currVal st = None \<and> dataIndex (vm_currSeg st) = 0
         else vm_seg tbl st \<and> vs = ws @ seg_vals tbl (vm_currSeg st) (vm_segLength st)))"

lemma vm_ok_here: "vm_ok d tbl vs st \<Longrightarrow> startPosition (vm_currSeg st) + vm_segLength st = length vs"
  by (auto simp: vm_ok_def vm_seg_def split: if_splits)

lemma vm_closed_push:
  assumes "vm_closed d tbl ws st" "startPosition s = length ws" "seg_ok tbl s len"
  shows "vm_closed d tbl (ws @ seg_vals tbl s len) (vm_push s st)"
proof -
  have "enc (vm_result (vm_push s st)) (vm_varPart (vm_push s st)) tbl"
    using assms(1) enc_segments [where p = "vm_result st" and n = "pl_nSegs (vm_result st)"] by (simp add: vm_closed_def vm_push_def)
  moreover have "decodes tbl 0 (pl_container (vm_result st) @ [s]) (length ws + len) (ws @ seg_vals tbl s len)"
    using assms by (intro decodes_snoc) (simp_all add: vm_closed_def)
  ultimately show ?thesis using assms by (simp add: vm_closed_def vm_push_def)
qed

lemma vm_ok_push:
  assumes "vm_ok d tbl vs st" "vm_segLength st \<noteq> 0"
  shows "vm_closed d tbl vs (vm_push (vm_currSeg st) st)"
  using assms vm_closed_push by (auto simp: vm_ok_def vm_seg_def)

lemma vm_append_closed:
  assumes "vm_closed d tbl ws st" "fits v" "room (tbl @ [v])"
  shows "\<exists>st'. vm_append v st = Inr st' \<and> vm_closed d (tbl @ [v]) ws st' \<and> vm_currSeg st' = vm_currSeg st \<and>
    vm_segLength st' = vm_segLength st \<and> vm_valueIndex st' = vm_valueIndex st + 1 \<and> vm_currVal st' = vm_currVal st"
proof -
  have c: "enc (vm_result st) (vm_varPart st) tbl" "length tbl = vm_valueIndex st" "\<not> val_isNull d \<longrightarrow> tbl \<noteq> [] \<and> tbl ! 0 = d"
      "decodes tbl 0 (pl_container (vm_result st)) (length ws) ws"
    using assms(1) by (simp_all add: vm_closed_def)
  obtain p varPart where p: "appendValue (vm_varPart st) v (vm_valueIndex st) (vm_result st) = Inr (p, varPart)"
      "enc p varPart (tbl @ [v])" "pl_container p = pl_container (vm_result st)"
    using enc_append [OF c(1) assms(2,3)] c(2) by auto
  show ?thesis
    using p c(2,3) assms(3) decodes_append [OF c(4), of "[v]"] by (auto simp: vm_append_def vm_closed_def nth_append)
qed

text \<open>A new segment.\<close>

lemma vm_open_null:
  assumes "vm_closed d tbl ws st" "reason \<le> 127" "pos = length ws"
  shows "\<exists>st'. vm_open pos (VNull reason) 0 st = Inr st' \<and> vm_ok d tbl (ws @ [VNull reason]) st'"
proof -
  have r: "reason \<le> MAX_DATA_INDEX" using assms(2) by (simp add: MAX_DATA_INDEX_def)
  show ?thesis
    using assms r
    by (auto simp: vm_open_def setValueIndex_ok vm_ok_def vm_closed_def vm_seg_def seg_ok_def seg_vals_def setNull_def setSame_def setPPosition_def)
qed

lemma vm_open_value:
  assumes "vm_closed d tbl ws st" "fits v" "room (tbl @ [v])" "pos = length ws"
  shows "\<exists>st'. vm_open pos v 0 st = Inr st' \<and> vm_ok d (tbl @ [v]) (ws @ [v]) st'"
proof -
  obtain bs where v: "v = VData bs" using fits_data [OF assms(2)] by blast
  obtain st1 where st1: "vm_append v st = Inr st1" "vm_closed d (tbl @ [v]) ws st1" "vm_valueIndex st1 = vm_valueIndex st + 1"
    using vm_append_closed [OF assms(1-3)] by blast
  have i: "vm_valueIndex st = length tbl" "length tbl \<le> MAX_DATA_INDEX"
    using assms(1) room_bound [OF assms(3)] by (simp_all add: vm_closed_def)
  define st' where "st' = st1\<lparr>vm_currSeg := setPPosition pos (setSame True ((setNull False (vm_currSeg st1))\<lparr>dataIndex := length tbl\<rparr>)),
    vm_segLength := 1, vm_currVal := Some v\<rparr>"
  have "vm_open pos v 0 st = Inr st'" using v st1(1) i setValueIndex_ok [OF i(2)] by (simp add: vm_open_def st'_def)
  moreover have "vm_closed d (tbl @ [v]) ws st'" using st1(2) by (simp add: vm_closed_def st'_def)
  moreover have "vm_seg (tbl @ [v]) st'" "seg_vals (tbl @ [v]) (vm_currSeg st') 1 = [v]"
    using i(2) v by (simp_all add: vm_seg_def seg_ok_def seg_vals_def st'_def setNull_def setSame_def setPPosition_def nth_append)
  ultimately show ?thesis using assms(4) by (auto simp: vm_ok_def st'_def setPPosition_def)
qed

lemma vm_open_carry:
  assumes "vm_closed d tbl ws st" "fits v" "tbl \<noteq> []" "last tbl = v" "pos = length ws + 1"
  shows "\<exists>st'. vm_open pos v 1 st = Inr st' \<and> vm_ok d tbl (ws @ [v, v]) st'"
proof -
  obtain bs where v: "v = VData bs" using fits_data [OF assms(2)] by blast
  have i: "vm_valueIndex st = length tbl" "length tbl \<le> MAX_DATA_INDEX + 1" "0 < length tbl"
    using assms(1) room_bound [of tbl] assms(3) [folded length_greater_0_conv] by (simp_all add: vm_closed_def)
  then have m: "vm_valueIndex st - 1 \<le> MAX_DATA_INDEX" by linarith
  have l: "tbl ! (length tbl - 1) = v" using assms(3,4) by (simp add: last_conv_nth)
  define st' where "st' = st\<lparr>vm_currSeg := setPPosition (pos - 1) (setSame True ((setNull False (vm_currSeg st))\<lparr>dataIndex := length tbl - 1\<rparr>)),
    vm_segLength := 2, vm_currVal := Some v\<rparr>"
  have "vm_open pos v 1 st = Inr st'" using v i setValueIndex_ok [OF m] by (simp add: vm_open_def st'_def)
  moreover have "vm_closed d tbl ws st'" using assms(1) by (simp add: vm_closed_def st'_def)
  moreover have "vm_seg tbl st'" "seg_vals tbl (vm_currSeg st') 2 = [v, v]"
    using m i l v by (simp_all add: vm_seg_def seg_ok_def seg_vals_def st'_def setNull_def setSame_def setPPosition_def numeral_2_eq_2)
  ultimately show ?thesis using assms(5) by (auto simp: vm_ok_def st'_def setPPosition_def)
qed

lemma vm_open_ok:
  assumes "vm_closed d tbl ws st" "fits_val v" "\<not> val_isNull v \<Longrightarrow> room (tbl @ [v])" "pos = length ws"
  shows "\<exists>st' tbl'. vm_open pos v 0 st = Inr st' \<and> vm_ok d tbl' (ws @ [v]) st' \<and> (tbl' = tbl \<or> \<not> val_isNull v \<and> tbl' = tbl @ [v])"
proof (cases v)
  case (VNull reason)
  then show ?thesis using vm_open_null [OF assms(1) _ assms(4), of reason] assms(2) by (auto simp: fits_val_def)
next
  case (VData bs)
  then show ?thesis using vm_open_value [OF assms(1) _ _ assms(4), of v] assms(2,3) by (auto simp: fits_val_def)
qed

text \<open>Default values up to a position.\<close>

lemma default_segment_ok:
  assumes "fits_val d" "\<not> val_isNull d \<longrightarrow> tbl \<noteq> [] \<and> tbl ! 0 = d" "0 < len"
  shows "\<exists>s'. default_segment d s = Inr s' \<and> startPosition s' = startPosition s \<and> seg_ok tbl s' len \<and> seg_vals tbl s' len = replicate len d \<and>
    (isNull s' \<or> dataIndex s' \<le> length tbl)"
  using assms
  by (cases d)
    (auto simp: default_segment_def fits_val_def setValueIndex_ok MAX_DATA_INDEX_def setNull_def setSame_def seg_ok_def seg_vals_def Suc_le_eq)

lemma seg_shift_start: "seg_ok tbl (addToPPosition n s) len = seg_ok tbl s len" "seg_vals tbl (addToPPosition n s) len = seg_vals tbl s len"
  by (simp_all add: seg_ok_def seg_vals_def addToPPosition_def)

lemma vm_default_ok:
  assumes ok: "vm_ok d tbl vs st" and d: "fits_val d" and n: "0 < n"
  shows "\<exists>st'. vm_default d st = Inr st' \<and> vm_closed d tbl (vs @ replicate n d) st' \<and> startPosition (vm_currSeg st') = length vs \<and>
    (isNull (vm_currSeg st') \<or> dataIndex (vm_currSeg st') \<le> length tbl)"
proof -
  define st1 where "st1 = (if vm_segLength st \<noteq> 0 then vm_push (vm_currSeg st) st else st)"
  have st1: "vm_closed d tbl vs st1" "vm_segLength st1 = vm_segLength st" "vm_currSeg st1 = vm_currSeg st"
    using ok vm_ok_push [OF ok] by (auto simp: st1_def vm_ok_def vm_push_def)
  have t: "\<not> val_isNull d \<longrightarrow> tbl \<noteq> [] \<and> tbl ! 0 = d" using st1(1) by (simp add: vm_closed_def)
  obtain s where s: "default_segment d (vm_currSeg st1) = Inr s" "startPosition s = startPosition (vm_currSeg st)" "seg_ok tbl s n"
      "seg_vals tbl s n = replicate n d" "isNull s \<or> dataIndex s \<le> length tbl"
    using default_segment_ok [OF d t n, of "vm_currSeg st1"] st1(3) by auto
  define s1 where "s1 = addToPPosition (vm_segLength st1) s"
  have s1: "startPosition s1 = length vs" "seg_ok tbl s1 n" "seg_vals tbl s1 n = replicate n d"
    using s(2-4) st1(2) vm_ok_here [OF ok] by (simp_all add: s1_def seg_shift_start) (simp add: addToPPosition_def)
  have "vm_closed d tbl vs (st1\<lparr>vm_currSeg := s1\<rparr>)" using st1(1) by (simp add: vm_closed_def)
  then have "vm_closed d tbl (vs @ replicate n d) (vm_push s1 (st1\<lparr>vm_currSeg := s1\<rparr>))" using vm_closed_push [OF _ s1(1,2)] s1(3) by simp
  moreover have "vm_default d st = Inr (vm_push s1 (st1\<lparr>vm_currSeg := s1\<rparr>))"
    unfolding vm_default_def Let_def st1_def [symmetric] using s(1) by (simp add: s1_def)
  ultimately show ?thesis using s1(1) s(5) by (auto simp: vm_push_def s1_def addToPPosition_def)
qed

text \<open>One value, after the default values of the gap before it.\<close>

lemma vm_step_gap:
  assumes ok: "vm_ok d tbl vs st" and d: "fits_val d" and v: "fits_val v" "\<not> val_isNull v \<Longrightarrow> room (tbl @ [v])" "v \<noteq> d"
    and pos: "length vs < pos"
  shows "\<exists>st' tbl'. vm_step d False (pos, v) st = Inr st' \<and> vm_ok d tbl' (vs @ replicate (pos - length vs) d @ [v]) st' \<and>
    (tbl' = tbl \<or> \<not> val_isNull v \<and> tbl' = tbl @ [v])"
proof -
  obtain st1 where st1: "vm_default d st = Inr st1" "vm_closed d tbl (vs @ replicate (pos - length vs) d) st1"
    using vm_default_ok [OF ok d, of "pos - length vs"] pos by auto
  have "pos = length (vs @ replicate (pos - length vs) d)" using pos by simp
  from vm_open_ok [OF st1(2) v(1,2) this]
  show ?thesis using st1(1) pos v(3) vm_ok_here [OF ok] by (auto simp: vm_step_def Let_def)
qed

lemma vm_same_ok:
  assumes ok: "vm_ok d tbl vs st" and c: "vm_segLength st \<noteq> 0" "vm_currVal st = Some v" "isRun (vm_currSeg st)"
  shows "vm_ok d tbl (vs @ [v]) (st\<lparr>vm_segLength := vm_segLength st + 1\<rparr>)"
proof -
  obtain ws where ws: "vm_closed d tbl ws st" "startPosition (vm_currSeg st) = length ws" "vm_seg tbl st"
      "vs = ws @ seg_vals tbl (vm_currSeg st) (vm_segLength st)"
    using ok c(1) by (auto simp: vm_ok_def)
  have "seg_vals tbl (vm_currSeg st) (vm_segLength st + 1) = seg_vals tbl (vm_currSeg st) (vm_segLength st) @ [v]"
    using ws(3) c(2,3) by (auto simp: vm_seg_def seg_vals_def replicate_append_same split: if_splits)
  moreover have "vm_seg tbl (st\<lparr>vm_segLength := vm_segLength st + 1\<rparr>)"
    using ws(3) c by (auto simp: vm_seg_def seg_ok_def split: if_splits)
  ultimately show ?thesis using ws by (auto simp: vm_ok_def vm_closed_def)
qed

lemma vm_split_ok:
  assumes ok: "vm_ok d tbl vs st" and c: "vm_segLength st \<noteq> 0" "vm_currVal st = Some v" "\<not> isRun (vm_currSeg st)" and v: "fits v"
  shows "\<exists>st'. vm_open (length vs) v 1 (vm_push (vm_currSeg st) (st\<lparr>vm_segLength := vm_segLength st - 1\<rparr>)) = Inr st' \<and>
    vm_ok d tbl (vs @ [v]) st'"
proof -
  let ?s = "vm_currSeg st" and ?n = "vm_segLength st"
  obtain ws where ws: "vm_closed d tbl ws st" "startPosition ?s = length ws" "vm_seg tbl st" "vs = ws @ seg_vals tbl ?s ?n"
    using ok c(1) by (auto simp: vm_ok_def)
  have s: "\<not> isNull ?s" "1 < ?n" "dataIndex ?s + ?n = length tbl" "last tbl = v" "dataIndex ?s \<le> MAX_DATA_INDEX"
    using ws(3) c(2,3) by (auto simp: vm_seg_def seg_ok_def split: if_splits)
  have t: "tbl \<noteq> []" using s(2,3) by auto
  have ok': "seg_ok tbl ?s (?n - 1)" using s c(3) by (simp add: seg_ok_def)
  have e: "?n - 1 = length tbl - Suc (dataIndex ?s)" using s(3) by linarith
  have "drop (dataIndex ?s) tbl = take (?n - 1) (drop (dataIndex ?s) tbl) @ [v]"
    unfolding e using s(2-4) append_butlast_last_id [of "drop (dataIndex ?s) tbl"] by (simp add: butlast_conv_take last_drop)
  then have vs: "vs = (ws @ seg_vals tbl ?s (?n - 1)) @ [v]" using s(1,3) c(3) ws(4) by (simp add: seg_vals_def)
  have "vm_closed d tbl ws (st\<lparr>vm_segLength := ?n - 1\<rparr>)" using ws(1) by (simp add: vm_closed_def)
  from vm_open_carry [OF vm_closed_push [OF this ws(2) ok'] v t s(4), of "length vs"] show ?thesis using vs by simp
qed

lemma vm_literal_ok:
  assumes ok: "vm_ok d tbl vs st" and c: "vm_segLength st \<noteq> 0" "vm_currVal st = Some c" "\<not> val_isNull c" "\<not> isRun (vm_currSeg st) \<or> vm_segLength st = 1"
    and v: "fits v" "room (tbl @ [v])"
  shows "\<exists>st'. vm_append v (st\<lparr>vm_currSeg := setSame False (vm_currSeg st), vm_segLength := vm_segLength st + 1\<rparr>) = Inr st' \<and>
    vm_ok d (tbl @ [v]) (vs @ [v]) (st'\<lparr>vm_currVal := Some v\<rparr>)"
proof -
  let ?s = "vm_currSeg st" and ?n = "vm_segLength st"
  let ?st = "st\<lparr>vm_currSeg := setSame False ?s, vm_segLength := ?n + 1\<rparr>"
  obtain ws where ws: "vm_closed d tbl ws st" "startPosition ?s = length ws" "vm_seg tbl st" "vs = ws @ seg_vals tbl ?s ?n"
    using ok c(1) by (auto simp: vm_ok_def)
  have s: "\<not> isNull ?s" "dataIndex ?s + ?n = length tbl" "dataIndex ?s \<le> MAX_DATA_INDEX"
    using ws(3) c by (auto simp: vm_seg_def seg_ok_def split: if_splits)
  have vals: "seg_vals tbl ?s ?n = drop (dataIndex ?s) tbl"
  proof (cases "isRun ?s")
    case True
    then have "?n = 1" using c(4) by simp
    then show ?thesis using True s(1,2) by (simp add: seg_vals_def) (metis Cons_nth_drop_Suc add.commute drop_all lessI order_refl plus_1_eq_Suc)
  next
    case False
    then show ?thesis using s(1,2) by (simp add: seg_vals_def)
  qed
  have "vm_closed d tbl ws ?st" using ws(1) by (simp add: vm_closed_def)
  from vm_append_closed [OF this v]
  obtain st' where st': "vm_append v ?st = Inr st'" "vm_closed d (tbl @ [v]) ws st'" "vm_currSeg st' = setSame False ?s" "vm_segLength st' = ?n + 1"
    by auto
  define st2 where "st2 = st'\<lparr>vm_currVal := Some v\<rparr>"
  have f: "vm_currSeg st2 = setSame False ?s" "vm_segLength st2 = ?n + 1" "vm_currVal st2 = Some v" using st'(3,4) by (simp_all add: st2_def)
  have "vm_closed d (tbl @ [v]) ws st2" using st'(2) by (simp add: vm_closed_def st2_def)
  moreover obtain bs where "v = VData bs" using fits_data [OF v(1)] by blast
  then have "vm_seg (tbl @ [v]) st2" using s c(1) by (simp add: vm_seg_def seg_ok_def f setSame_def)
  moreover have "seg_vals (tbl @ [v]) (vm_currSeg st2) (vm_segLength st2) = seg_vals tbl ?s ?n @ [v]"
    unfolding vals using s(1,2) by (simp add: seg_vals_def f setSame_def)
  ultimately have "vm_ok d (tbl @ [v]) (vs @ [v]) st2" using ws(2,4) by (auto simp: vm_ok_def f setSame_def)
  then show ?thesis using st'(1) by (simp add: st2_def)
qed

lemma vm_step_next:
  assumes ok: "vm_ok d tbl vs st" and v: "fits_val v" "\<not> val_isNull v \<Longrightarrow> room (tbl @ [v])" "subsequent \<or> v \<noteq> d \<and> pos = length vs"
  shows "\<exists>st' tbl'. vm_step d subsequent (pos, v) st = Inr st' \<and> vm_ok d tbl' (vs @ [v]) st' \<and>
    (tbl' = tbl \<or> \<not> val_isNull v \<and> tbl' = tbl @ [v])"
proof -
  let ?s = "vm_currSeg st" and ?n = "vm_segLength st"
  have here: "startPosition ?s + ?n = length vs" by (rule vm_ok_here [OF ok])
  have step: "vm_step d subsequent (pos, v) st =
      (if vm_currVal st = None \<or> \<not> isRun ?s \<or> vm_currVal st \<noteq> Some v then
        if ?n \<noteq> 0 then
          if (\<not> isRun ?s \<or> ?n = 1) \<and> \<not> val_isNull v \<and> (\<forall>c. vm_currVal st = Some c \<longrightarrow> \<not> val_isNull c) then
            if vm_currVal st = Some v then vm_open (length vs) v 1 (vm_push ?s (st\<lparr>vm_segLength := ?n - 1\<rparr>))
            else
              bindE (vm_append v (st\<lparr>vm_currSeg := setSame False ?s, vm_segLength := ?n + 1\<rparr>)) (\<lambda>st1.
                Inr (st1\<lparr>vm_currVal := Some v\<rparr>))
          else vm_open (length vs) v 0 (vm_push ?s st)
        else vm_open (length vs) v 0 st
      else Inr (st\<lparr>vm_segLength := ?n + 1\<rparr>))"
    using v(3) here by (auto simp: vm_step_def Let_def)
  consider "?n = 0"
    | c where "?n \<noteq> 0" "vm_currVal st = Some c" "isRun ?s" "c = v"
    | c where "?n \<noteq> 0" "vm_currVal st = Some c" "\<not> (isRun ?s \<and> c = v)" "\<not> ((\<not> isRun ?s \<or> ?n = 1) \<and> \<not> val_isNull v \<and> \<not> val_isNull c)"
    | c where "?n \<noteq> 0" "vm_currVal st = Some c" "\<not> isRun ?s" "c = v" "\<not> val_isNull v"
    | c where "?n \<noteq> 0" "vm_currVal st = Some c" "c \<noteq> v" "\<not> isRun ?s \<or> ?n = 1" "\<not> val_isNull v" "\<not> val_isNull c"
  proof (cases "vm_currVal st")
    case None
    then have "?n = 0" using ok by (auto simp: vm_ok_def vm_seg_def split: if_splits)
    then show thesis by (rule that(1))
  next
    case (Some c)
    then show thesis using that(1) that(2-5) [of c] by (cases "?n = 0") blast+
  qed
  then show ?thesis
  proof cases
    case 1
    then have c: "vm_closed d tbl vs st" "vm_currVal st = None" using ok by (auto simp: vm_ok_def)
    from vm_open_ok [OF c(1) v(1,2) refl] show ?thesis unfolding step using 1 c(2) by auto
  next
    case 2
    then show ?thesis unfolding step using vm_same_ok [OF ok, of v] by auto
  next
    case 3
    from vm_open_ok [OF vm_ok_push [OF ok 3(1)] v(1,2) refl] show ?thesis unfolding step using 3 by auto
  next
    case 4
    then have "fits v" using v(1) by (auto simp: fits_val_def split: val.splits)
    from vm_split_ok [OF ok 4(1) _ 4(3) this] show ?thesis unfolding step using 4 by auto
  next
    case 5
    then have f: "fits v" using v(1) by (auto simp: fits_val_def split: val.splits)
    from vm_literal_ok [OF ok 5(1,2,6,4) f v(2)] show ?thesis unfolding step using 5 by auto
  qed
qed

text \<open>The whole map.\<close>

abbreviation stored :: "(nat \<times> val) list \<Rightarrow> val list" where
  "stored es \<equiv> filter (\<lambda>v. \<not> val_isNull v) (map snd es)"

lemma room_step: "room (tbl @ stored ((pos, v) # es)) \<Longrightarrow> room (tbl @ stored es) \<and> (\<not> val_isNull v \<longrightarrow> room (tbl @ [v]) \<and> room ((tbl @ [v]) @ stored es))"
  using room_drop [of tbl v "stored es"] room_prefix [of "tbl @ [v]" "stored es"] by (cases "val_isNull v") auto

lemma vm_loop_subsequent:
  "vm_ok d tbl vs st \<Longrightarrow> \<forall>e \<in> set es. fits_val (snd e) \<Longrightarrow> room (tbl @ stored es) \<Longrightarrow>
   \<exists>st' tbl'. vm_loop d True es st = Inr st' \<and> vm_ok d tbl' (vs @ map snd es) st'"
proof (induction es arbitrary: tbl vs st)
  case (Cons e es)
  obtain pos v where e: "e = (pos, v)" by (cases e)
  note r = room_step [OF Cons.prems(3) [unfolded e]]
  obtain st' tbl' where st': "vm_step d True (pos, v) st = Inr st'" "vm_ok d tbl' (vs @ [v]) st'" "tbl' = tbl \<or> \<not> val_isNull v \<and> tbl' = tbl @ [v]"
    using vm_step_next [OF Cons.prems(1), of v True pos] Cons.prems(2) r e by auto
  then have "room (tbl' @ stored es)" using r by auto
  from Cons.IH [OF st'(2) _ this] show ?case using Cons.prems(2) st'(1) e by auto
qed auto

lemma vm_loop_ok:
  "vm_ok d tbl vs st \<Longrightarrow> fits_val d \<Longrightarrow> \<forall>e \<in> set es. fits_val (snd e) \<and> length vs \<le> fst e \<and> fst e < n \<Longrightarrow>
   sorted_wrt (<) (map fst es) \<Longrightarrow> room (tbl @ stored es) \<Longrightarrow> length vs \<le> n \<Longrightarrow>
   \<exists>st' tbl' ws. vm_loop d False es st = Inr st' \<and> vm_ok d tbl' (vs @ ws) st' \<and> length (vs @ ws) \<le> n \<and>
     vs @ ws @ replicate (n - length (vs @ ws)) d = vs @ map (map_value d es) [length vs..<n]"
proof (induction es arbitrary: tbl vs st)
  case Nil
  have "map (map_value d []) [length vs..<n] = replicate (n - length vs) d" by (rule nth_equalityI) (simp_all add: map_value_def)
  then show ?case using Nil by (intro exI [of _ st] exI [of _ tbl] exI [of _ "[]"]) simp
next
  case (Cons e es)
  obtain pos v where e: "e = (pos, v)" by (cases e)
  have later: "\<forall>e \<in> set es. pos < fst e" using Cons.prems(4) e by simp
  have v: "fits_val v" "length vs \<le> pos" "pos < n" using Cons.prems(3) e by auto
  note r = room_step [OF Cons.prems(5) [unfolded e]]
  show ?case
  proof (cases "v = d")
    case True
    have "map_value d (e # es) = map_value d es" using map_value_default [of es pos d] later True e by auto
    then show ?thesis using Cons.IH [OF Cons.prems(1,2)] Cons.prems(3,4,6) r True e by (simp add: vm_step_def Let_def)
  next
    case False
    define us where "us = replicate (pos - length vs) d @ [v]"
    have us: "us = map (map_value d (e # es)) [length vs..<Suc pos]" using map_value_run [OF v(2) later, of d v] by (simp add: us_def e)
    obtain st' tbl' where st': "vm_step d False e st = Inr st'" "vm_ok d tbl' (vs @ us) st'" "tbl' = tbl \<or> \<not> val_isNull v \<and> tbl' = tbl @ [v]"
      using vm_step_next [OF Cons.prems(1) v(1), of False pos] vm_step_gap [OF Cons.prems(1,2) v(1) _ False, of pos] r False v(2)
      by (cases "pos = length vs") (auto simp: us_def e)
    have l: "length (vs @ us) = Suc pos" using v(2) by (simp add: us_def)
    have "room (tbl' @ stored es)" using st'(3) r by auto
    moreover have "\<forall>e \<in> set es. fits_val (snd e) \<and> length (vs @ us) \<le> fst e \<and> fst e < n" using Cons.prems(3) later l by auto
    ultimately obtain st2 tbl2 ws where w: "vm_loop d False es st' = Inr st2" "vm_ok d tbl2 ((vs @ us) @ ws) st2" "length ((vs @ us) @ ws) \<le> n"
        "(vs @ us) @ ws @ replicate (n - length ((vs @ us) @ ws)) d = (vs @ us) @ map (map_value d es) [Suc pos..<n]"
      using Cons.IH [OF st'(2) Cons.prems(2)] Cons.prems(4) l v(3) by auto
    have "map (map_value d es) [Suc pos..<n] = map (map_value d (e # es)) [Suc pos..<n]" by (simp add: map_value_def e)
    moreover have "[length vs..<n] = [length vs..<Suc pos] @ [Suc pos..<n]" using v upt_add_eq_append [of "length vs" "Suc pos" "n - Suc pos"] by (simp del: upt_Suc)
    ultimately have "vs @ (us @ ws) @ replicate (n - length (vs @ us @ ws)) d = vs @ map (map_value d (e # es)) [length vs..<n]"
      using w(4) us by simp
    then show ?thesis using w(1-3) st'(1) by (intro exI [of _ st2] exI [of _ tbl2] exI [of _ "us @ ws"]) simp
  qed
qed

lemma vm_pack_holds:
  assumes "vm_closed d tbl vs st" "isNull s \<or> dataIndex s \<le> length tbl" "n = length vs"
  shows "holds (vm_pack n s st) tbl vs"
proof -
  have p: "enc (vm_result st) (vm_varPart st) tbl" using assms(1) by (simp add: vm_closed_def)
  have "stores (vm_pack n s st) tbl"
    by (rule stores_cong [THEN iffD2, OF _ _ _ _ _ enc_pack [OF p]]) (simp_all add: vm_pack_def Let_def)
  then show ?thesis using assms by (simp add: holds_def vm_closed_def vm_pack_def setPPosition_def Let_def)
qed

lemma vm_finish_ok:
  assumes ok: "vm_ok d tbl vs st" and d: "fits_val d" and n: "subsequent \<longrightarrow> n = length vs" "length vs \<le> n" "\<not> subsequent \<longrightarrow> nE = n"
  shows "\<exists>p. vm_finish d subsequent nE st = Inr p \<and> holds p tbl (vs @ replicate (n - length vs) d)"
proof -
  define st1 where "st1 = (if vm_segLength st \<noteq> 0 then vm_push (vm_currSeg st) st else st)"
  have st1: "vm_closed d tbl vs st1" "vm_segLength st1 = vm_segLength st" "vm_currSeg st1 = vm_currSeg st"
    using ok vm_ok_push [OF ok] by (auto simp: st1_def vm_ok_def vm_push_def)
  have i: "isNull (vm_currSeg st) \<or> dataIndex (vm_currSeg st) \<le> length tbl"
    using ok by (auto simp: vm_ok_def vm_seg_def seg_ok_def split: if_splits)
  have here: "startPosition (vm_currSeg st) + vm_segLength st = length vs" by (rule vm_ok_here [OF ok])
  show ?thesis
  proof (cases "length vs = n")
    case True
    then show ?thesis unfolding vm_finish_def Let_def st1_def [symmetric]
      using vm_pack_holds [OF st1(1) i refl] st1(2,3) here n(1,3) by auto
  next
    case False
    then have sub: "\<not> subsequent" "nE = n" "0 < n - length vs" using n False by auto
    obtain st2 where st2: "vm_default d st = Inr st2" "vm_closed d tbl (vs @ replicate (n - length vs) d) st2"
        "isNull (vm_currSeg st2) \<or> dataIndex (vm_currSeg st2) \<le> length tbl"
      using vm_default_ok [OF ok d sub(3)] by auto
    have "n = length (vs @ replicate (n - length vs) d)" using n(2) by simp
    from vm_pack_holds [OF st2(2,3) this] show ?thesis unfolding vm_finish_def Let_def st1_def [symmetric]
      using st2(1) [unfolded vm_default_def Let_def st1_def [symmetric]] st1(2,3) here False sub(1,2) by simp
  qed
qed

text \<open>The constructors.\<close>

lemma vm_start_ok:
  assumes e: "enc \<lparr>pl_container = [], pl_nSegs = 0, pl_elemSize = elemSize, pl_dataSize = 0, pl_varOffs = 0,
      pl_isBoolean = isBoolean, pl_data = [], pl_valuesCount = 0\<rparr> [] []"
    and d: "fits_val d" and r: "room (stored [(0, d)])"
  shows "\<exists>st. vm_start elemSize d isBoolean = Inr st \<and> vm_ok d (stored [(0, d)]) [] st \<and> vm_segLength st = 0"
proof (cases d)
  case (VNull reason)
  then show ?thesis
    using e r by (simp add: vm_start_def Let_def vm_ok_def vm_closed_def setPPosition_def setSame_def Segment0_def)
next
  case (VData bs)
  have "fits d" using d VData by (simp add: fits_val_def)
  from enc_append [OF e this]
  obtain p varPart where "appendValue [] d 0 \<lparr>pl_container = [], pl_nSegs = 0, pl_elemSize = elemSize, pl_dataSize = 0, pl_varOffs = 0,
      pl_isBoolean = isBoolean, pl_data = [], pl_valuesCount = 0\<rparr> = Inr (p, varPart)" "enc p varPart [d]" "pl_container p = []"
    using r VData by auto
  then show ?thesis
    using r VData by (simp add: vm_start_def vm_append_def Let_def vm_ok_def vm_closed_def setPPosition_def setSame_def Segment0_def)
qed

theorem payload_of_map_ok:
  assumes "enc \<lparr>pl_container = [], pl_nSegs = 0, pl_elemSize = elemSize, pl_dataSize = 0, pl_varOffs = 0,
      pl_isBoolean = isBoolean, pl_data = [], pl_valuesCount = 0\<rparr> [] []"
    and d: "fits_val d" and vm: "\<forall>e \<in> set vm. fits_val (snd e)" and r: "room (stored ((0, d) # vm))"
  shows "map_constructed vm n elemSize d isBoolean"
proof -
  have r': "room (stored [(0, d)] @ stored vm)" using r by (simp split: if_splits)
  obtain st where st: "vm_start elemSize d isBoolean = Inr st" "vm_ok d (stored [(0, d)]) [] st" "vm_segLength st = 0"
    using vm_start_ok [OF assms(1) d] room_prefix [OF r'] by blast
  obtain st1 tbl where st1: "vm_loop d True vm st = Inr st1" "vm_ok d tbl (map snd vm) st1"
    using vm_loop_subsequent [OF st(2) vm r'] by auto
  then have "\<exists>p tbl. payload_of_map vm n elemSize d isBoolean True = Inr p \<and> holds p tbl (map snd vm)"
    using vm_finish_ok [OF st1(2) d, of True "length vm" n] st(1) by (auto simp: payload_of_map_def)
  moreover have "\<exists>p tbl. payload_of_map vm n elemSize d isBoolean False = Inr p \<and> holds p tbl (map (map_value d vm) [0..<n])"
    if hs: "sorted_wrt (<) (map fst vm)" "\<forall>e \<in> set vm. fst e < n"
  proof -
    obtain st2 tbl ws where w: "vm_loop d False vm st = Inr st2" "vm_ok d tbl ws st2" "length ws \<le> n"
        "ws @ replicate (n - length ws) d = map (map_value d vm) [0..<n]"
      using vm_loop_ok [OF st(2) d _ hs(1) r', of n] hs(2) vm by auto
    from vm_finish_ok [OF w(2) d _ w(3), of False n] show ?thesis using w(1,4) st(1) by (auto simp: payload_of_map_def)
  qed
  moreover have "\<exists>p tbl. payload_of_default d n elemSize isBoolean = Inr p \<and> holds p tbl (replicate n d)" if hn: "0 < n"
  proof -
    have c: "vm_closed d (stored [(0, d)]) [] st" "startPosition (vm_currSeg st) = 0"
      using st(2,3) by (auto simp: vm_ok_def)
    then have t: "\<not> val_isNull d \<longrightarrow> stored [(0, d)] \<noteq> [] \<and> stored [(0, d)] ! 0 = d" by simp
    obtain s where s: "default_segment d (vm_currSeg st) = Inr s" "startPosition s = 0" "seg_ok (stored [(0, d)]) s n"
        "seg_vals (stored [(0, d)]) s n = replicate n d" "isNull s \<or> dataIndex s \<le> length (stored [(0, d)])"
      using default_segment_ok [OF d t hn, of "vm_currSeg st"] c(2) by auto
    have "vm_closed d (stored [(0, d)]) (replicate n d) (vm_push s st)" using vm_closed_push [OF c(1) _ s(3)] s(2,4) by simp
    from vm_pack_holds [OF this s(5)] show ?thesis using st(1) s(1) by (auto simp: payload_of_default_def)
  qed
  ultimately show ?thesis by (simp add: map_constructed_def)
qed

end

section \<open>The encodings\<close>

interpretation fixed_map: map_encoding "enc_fixed k" "fits_fixed k" room_count for k
  by unfold_locales (auto simp: enc_fixed_def stores_def)

interpretation var_map: map_encoding enc_var fits_var room_var
  by unfold_locales (auto simp: enc_var_def stores_def resize_def)

interpretation bool_map: map_encoding enc_bool fits_bool room_count
  by unfold_locales (auto simp: enc_bool_def stores_def)

section \<open>Properties\<close>

definition element_bits :: "nat \<Rightarrow> bool \<Rightarrow> nat" where
  "element_bits elemSize isBoolean = (if isBoolean then 1 else 8 * elemSize)"

text \<open>What the values of a map and the default value have to satisfy.\<close>

definition map_ok :: "(nat \<times> val) list \<Rightarrow> nat \<Rightarrow> val \<Rightarrow> bool \<Rightarrow> bool" where
  "map_ok vm elemSize d isBoolean \<longleftrightarrow> (isBoolean \<longrightarrow> elemSize = 1) \<and>
     list_all (storable (element_bits elemSize isBoolean)) (d # map snd vm) \<and>
     enough_room (element_bits elemSize isBoolean) (filter (\<lambda>v. \<not> val_isNull v) (d # map snd vm))"

lemma payload_of_map_holds:
  assumes "map_ok vm elemSize d isBoolean"
  shows "map_constructed vm n elemSize d isBoolean"
proof -
  let ?p = "\<lparr>pl_container = [], pl_nSegs = 0, pl_elemSize = elemSize, pl_dataSize = 0, pl_varOffs = 0,
      pl_isBoolean = isBoolean, pl_data = [], pl_valuesCount = 0\<rparr>"
  let ?vs = "filter (\<lambda>v. \<not> val_isNull v) (map snd ((0, d) # vm))"
  have st: "storable (element_bits elemSize isBoolean) d" "\<forall>e \<in> set vm. storable (element_bits elemSize isBoolean) (snd e)"
    and b: "isBoolean \<longrightarrow> elemSize = 1" and room: "enough_room (element_bits elemSize isBoolean) ?vs"
    using assms by (auto simp: map_ok_def list_all_iff)
  consider "isBoolean" | "\<not> isBoolean" "elemSize = 0" | "\<not> isBoolean" "0 < elemSize" by blast
  then show ?thesis
  proof cases
    case 1
    have e: "enc_bool ?p [] []" using 1 b by (simp add: enc_bool_def stores_def stores_bits_def)
    have f: "bool_map.fits_val v" if "storable (element_bits elemSize isBoolean) v" for v
      using that 1 by (simp add: bool_map.fits_val_def storable_def element_bits_def split: val.splits)
    have r: "room_count ?vs" using room by (simp add: enough_room_def room_count_def)
    show ?thesis using bool_map.payload_of_map_ok [OF e f [OF st(1)] _ r] f st(2) by blast
  next
    case 2
    have e: "enc_var ?p [] []" using 2 by (simp add: enc_var_def var_offsets_def var_part_def)
    have f: "var_map.fits_val v" if "storable (element_bits elemSize isBoolean) v" for v
      using that 2 by (simp add: var_map.fits_val_def storable_def element_bits_def split: val.splits)
    have r: "room_var ?vs" using room 2 by (simp add: enough_room_def room_var_def element_bits_def)
    show ?thesis using var_map.payload_of_map_ok [OF e f [OF st(1)] _ r] f st(2) by blast
  next
    case 3
    have k: "element_bits elemSize isBoolean \<noteq> 1" "element_bits elemSize isBoolean \<noteq> 0" "(element_bits elemSize isBoolean + 7) div 8 = elemSize"
      using 3 by (auto simp: element_bits_def)
    have e: "enc_fixed elemSize ?p [] []" using 3 by (simp add: enc_fixed_def stores_def)
    have f: "fixed_map.fits_val elemSize v" if "storable (element_bits elemSize isBoolean) v" for v
      using that k by (simp add: fixed_map.fits_val_def storable_def split: val.splits)
    have r: "room_count ?vs" using room by (simp add: enough_room_def room_count_def)
    show ?thesis using fixed_map.payload_of_map_ok [OF e f [OF st(1)] _ r] f st(2) by blast
  qed
qed

text \<open>C13. A payload made from a map of positions to values has as many values as was asked for, and at
  every position the value of the map, or the default value where the map has none; positions behind
  the last have no value. The values may be of any size, missing, or equal to the default value.\<close>

theorem payload_of_map_reads:
  assumes "map_ok vm elemSize d isBoolean" "sorted_wrt (<) (map fst vm)" "list_all (\<lambda>e. fst e < n) vm"
  shows "\<exists>p. payload_of_map vm n elemSize d isBoolean False = Inr p \<and> pl_count p = n \<and>
    (\<forall>pos. getValueByPosition p pos =
       Inr (if pos < n then Some (case map_of vm pos of Some v \<Rightarrow> v | None \<Rightarrow> d) else None))"
proof -
  obtain p tbl where p: "payload_of_map vm n elemSize d isBoolean False = Inr p" "holds p tbl (map (map_value d vm) [0..<n])"
    using payload_of_map_holds [OF assms(1), of n] assms(2,3) by (auto simp: map_constructed_def list_all_iff)
  then show ?thesis using holds_count [OF p(2)] holds_position [OF p(2)] by (auto simp: map_value_def)
qed

text \<open>Strings, one of them twice in a row behind a literal segment, a missing value, and gaps.\<close>

definition ex_map :: "(nat \<times> val) list" where
  "ex_map = [(1, VData [1]), (2, VData [2, 2]), (3, VData [3]), (4, VData [3]), (6, VNull 4), (9, VData [])]"

theorem payload_of_map_reads_witness:
  "\<exists>p. payload_of_map ex_map 12 0 (VData [0]) False False = Inr p \<and> pl_count p = 12 \<and>
     getValueByPosition p 0 = Inr (Some (VData [0])) \<and> getValueByPosition p 4 = Inr (Some (VData [3])) \<and>
     getValueByPosition p 6 = Inr (Some (VNull 4)) \<and> getValueByPosition p 12 = Inr None"
proof -
  have "map_ok ex_map 0 (VData [0]) False"
    by (simp add: map_ok_def ex_map_def element_bits_def storable_def fits_var_def enough_room_def MAX_DATA_INDEX_def
        RLE_MAX_VARPART_OFFSET_def var_part_def var_bytes_def)
  moreover have "sorted_wrt (<) (map fst ex_map)" "list_all (\<lambda>e. fst e < 12) ex_map" by (simp_all add: ex_map_def)
  ultimately obtain p where p: "payload_of_map ex_map 12 0 (VData [0]) False False = Inr p" "pl_count p = 12"
      "\<forall>pos. getValueByPosition p pos = Inr (if pos < 12 then Some (case map_of ex_map pos of Some v \<Rightarrow> v | None \<Rightarrow> VData [0]) else None)"
    using payload_of_map_reads [of ex_map 0 "VData [0]" False 12] by auto
  show ?thesis using p(1,2) spec [OF p(3), of 0] spec [OF p(3), of 4] spec [OF p(3), of 6] spec [OF p(3), of 12] by (simp add: ex_map_def)
qed

text \<open>With \<open>subsequent\<close> the positions of the map only order its values, which stand next to each
  other.\<close>

lemma payload_of_subsequent_reads:
  assumes "map_ok vm elemSize d isBoolean"
  shows "\<exists>p. payload_of_map vm n elemSize d isBoolean True = Inr p \<and> pl_count p = length vm \<and>
    (\<forall>pos. getValueByPosition p pos = Inr (if pos < length vm then Some (snd (vm ! pos)) else None))"
proof -
  obtain p tbl where p: "payload_of_map vm n elemSize d isBoolean True = Inr p" "holds p tbl (map snd vm)"
    using payload_of_map_holds [OF assms, of n] by (auto simp: map_constructed_def)
  then show ?thesis using holds_count [OF p(2)] holds_position [OF p(2)] by auto
qed

text \<open>The payload of default values only.\<close>

lemma payload_of_default_reads:
  assumes "map_ok [] elemSize d isBoolean" "0 < n"
  shows "\<exists>p. payload_of_default d n elemSize isBoolean = Inr p \<and> pl_count p = n \<and>
    (\<forall>pos. getValueByPosition p pos = Inr (if pos < n then Some d else None))"
proof -
  obtain p tbl where p: "payload_of_default d n elemSize isBoolean = Inr p" "holds p tbl (replicate n d)"
    using payload_of_map_holds [OF assms(1), of n] assms(2) by (auto simp: map_constructed_def)
  then show ?thesis using holds_count [OF p(2)] holds_position [OF p(2)] by auto
qed

end
