(* ===== verification/Rle_Payload_Copy.thy ===== *)
theory Rle_Payload_Copy
  imports Rle_Payload_Map
begin

text \<open>
  The appender that copies from an iterator, \<^verbatim>\<open>append_iterator::add(iterator&, uint64_t, bool)\<close>: the
  segment of the source decides how its values are copied, values of a fixed size as one block. The
  appender stands for the values it had with the copied ones behind them, for every encoding.
\<close>

section \<open>The rest of the iterator\<close>

text \<open>The constructor; \<^verbatim>\<open>checkBit\<close> of a boolean; where the values of a fixed size begin.\<close>

definition it_begin :: "payload \<Rightarrow> pl_iterator" where
  "it_begin p = it_reset p \<lparr>it_currSeg = 0, it_cs = 0, it_currPpos = 0\<rparr>"

definition it_checkBit :: "payload \<Rightarrow> pl_iterator \<Rightarrow> error + bool" where
  "it_checkBit p it =
     (let s = it_segm p it in orUB (checkBit p (dataIndex s + (if isRun s then 0 else it_currPpos it - startPosition s))))"

definition it_getFixedValues :: "payload \<Rightarrow> pl_iterator \<Rightarrow> nat" where
  "it_getFixedValues p it =
     (let s = it_segm p it in
      (if isRun s then dataIndex s else dataIndex s + (it_currPpos it - startPosition s)) * pl_elemSize p)"

section \<open>Copying from an iterator\<close>

text \<open>
  \<^verbatim>\<open>append_iterator::add(iterator&, uint64_t, bool)\<close> for values that are not missing: the segment
  that takes them, then the values themselves.
\<close>

definition ai_prepare :: "nat \<Rightarrow> bool \<Rightarrow> append_iterator \<Rightarrow> error + append_iterator" where
  "ai_prepare cnt same a =
     (let a1 = (if ai_segLength a \<noteq> 0 \<and>
                   (isNull (ai_segm a) \<or> (isRun (ai_segm a) \<and> 1 < ai_segLength a) \<or> (same \<and> 1 < cnt))
                then ai_close a else a) in
      bindE
        (if ai_segLength a1 = 0 then
           bindE (setValueIndex (ai_valueIndex a1) (setSame (cnt = 1 \<or> same) (ai_segm a1))) (\<lambda>s.
             Inr (a1\<lparr>ai_segm := setNull False s\<rparr>))
         else Inr (a1\<lparr>ai_segm := setSame False (ai_segm a1)\<rparr>))
        (\<lambda>a2. Inr (a2\<lparr>ai_segLength := ai_segLength a2 + cnt\<rparr>)))"

text \<open>Values of a fixed size are copied as one block.\<close>

definition ai_copy_block :: "payload \<Rightarrow> nat \<Rightarrow> bool \<Rightarrow> append_iterator \<times> pl_iterator \<Rightarrow> error + append_iterator \<times> pl_iterator" where
  "ai_copy_block q cnt setupPrevVal st =
     (let (a, ii) = st;
          p = ai_result a;
          k = (if isRun (ai_segm a) then 1 else cnt);
          n = pl_elemSize p * k in
      if \<not> isRun (ai_segm a) \<and> 2 ^ 32 \<le> cnt then Inl LE_ASSERTION_FAILED
      else
        bindE (orUB (bytes_at (pl_data q) (it_getFixedValues q ii) n)) (\<lambda>bs.
          (let a1 = a\<lparr>ai_valueIndex := ai_valueIndex a + k,
                      ai_result := p\<lparr>pl_data := store_at (pl_dataSize p) bs (resize (pl_dataSize p + n) (pl_data p)),
                                     pl_dataSize := pl_dataSize p + n\<rparr>\<rparr> in
           if setupPrevVal then
             (let ii1 = (if 1 < cnt then it_plus q (cnt - 1) ii else ii) in
              bindE (it_getItem q ii1) (\<lambda>v. Inr (a1\<lparr>ai_prevVal := v\<rparr>, it_plus q 1 ii1)))
           else Inr (a1, it_plus q cnt ii))))"

definition ai_append :: "val \<Rightarrow> append_iterator \<Rightarrow> error + append_iterator" where
  "ai_append v a =
     bindE (appendValue (ai_varPart a) v (ai_valueIndex a) (ai_result a)) (\<lambda>(p, varPart).
       Inr (a\<lparr>ai_prevVal := v, ai_result := p, ai_varPart := varPart, ai_valueIndex := ai_valueIndex a + 1\<rparr>))"

text \<open>The others one by one.\<close>

fun ai_copy_each :: "payload \<Rightarrow> nat \<Rightarrow> append_iterator \<times> pl_iterator \<Rightarrow> error + append_iterator \<times> pl_iterator" where
  "ai_copy_each q 0 st = Inr st"
| "ai_copy_each q (Suc n) (a, ii) =
     bindE (it_getItem q ii) (\<lambda>v. bindE (ai_append v a) (\<lambda>a1. ai_copy_each q n (a1, it_next q ii)))"

definition ai_copy :: "payload \<Rightarrow> nat \<Rightarrow> bool \<Rightarrow> append_iterator \<times> pl_iterator \<Rightarrow> error + append_iterator \<times> pl_iterator" where
  "ai_copy q cnt setupPrevVal st =
     (let (a, ii) = st in
      if \<not> pl_isBoolean (ai_result a) \<and> pl_elemSize (ai_result a) \<noteq> 0 then ai_copy_block q cnt setupPrevVal (a, ii)
      else if isRun (ai_segm a) then
        bindE (it_getItem q ii) (\<lambda>v. bindE (ai_append v a) (\<lambda>a1. Inr (a1, it_plus q cnt ii)))
      else ai_copy_each q cnt (a, ii))"

definition ai_add_from ::
    "payload \<Rightarrow> nat \<Rightarrow> bool \<Rightarrow> append_iterator \<times> pl_iterator \<Rightarrow> error + nat \<times> append_iterator \<times> pl_iterator" where
  "ai_add_from q limit setupPrevVal st =
     (let (a, ii) = st;
          cnt = min limit (it_available q ii) in
      if isNull (it_segm q ii) then
        bindE (ai_add_null (dataIndex (it_segm q ii)) cnt a) (\<lambda>a1. Inr (cnt, a1, it_plus q cnt ii))
      else
        bindE (ai_prepare cnt (isRun (it_segm q ii)) a) (\<lambda>a1.
          bindE (ai_copy q cnt setupPrevVal (a1, ii)) (\<lambda>st'. Inr (cnt, st'))))"

section \<open>Segments under an iterator\<close>

lemma it_begin_cursor: "holds p tbl vs \<Longrightarrow> cursor p vs (it_begin p) 0"
  unfolding it_begin_def by (rule it_reset_cursor)

lemma it_available_at:
  assumes "holds p tbl vs" "it_at p it i"
  shows "i + it_available p it = startPosition (pl_container p ! (it_currSeg it + 1))" "0 < it_available p it" "i + it_available p it \<le> length vs"
proof -
  show e: "i + it_available p it = startPosition (pl_container p ! (it_currSeg it + 1))"
    using it_seg_end [OF assms] assms(2) by (simp add: it_available_def it_at_def)
  show "0 < it_available p it" using e assms(2) by (simp add: it_at_def)
  show "i + it_available p it \<le> length vs" using e holds_segment(2) [OF assms(1), of "it_currSeg it"] assms(2) by (simp add: it_at_def)
qed

text \<open>The values of a segment, from the table.\<close>

lemma it_slice:
  assumes h: "holds p tbl vs" and at: "it_at p it i" and n: "n \<le> it_available p it"
  defines "s \<equiv> it_segm p it"
  shows "isNull s \<Longrightarrow> isRun s \<and> dataIndex s \<le> 127 \<and> take n (drop i vs) = replicate n (VNull (dataIndex s))"
    and "\<not> isNull s \<Longrightarrow> isRun s \<Longrightarrow> dataIndex s < length tbl \<and> take n (drop i vs) = replicate n (tbl ! dataIndex s)"
    and "\<not> isNull s \<Longrightarrow> \<not> isRun s \<Longrightarrow> dataIndex s + (i - startPosition s) + n \<le> length tbl \<and>
      take n (drop i vs) = take n (drop (dataIndex s + (i - startPosition s)) tbl)"
proof -
  let ?len = "startPosition (pl_container p ! (it_currSeg it + 1)) - startPosition s"
  have k: "it_currSeg it < pl_nSegs p" "s = pl_container p ! it_currSeg it" "startPosition s \<le> i"
      "i < startPosition (pl_container p ! (it_currSeg it + 1))"
    using at by (auto simp: it_at_def it_segm_def s_def)
  have n': "i + n \<le> startPosition (pl_container p ! (it_currSeg it + 1))" using it_available_at(1) [OF h at] n by linarith
  have so: "seg_ok tbl s ?len" using holds_segment(3) [OF h k(1)] k(2) by simp
  note sl = segment_slice [OF h at n', folded s_def]
  have m: "min n (?len - (i - startPosition s)) = n" using n' k(3) by linarith
  show "isRun s \<and> dataIndex s \<le> 127 \<and> take n (drop i vs) = replicate n (VNull (dataIndex s))" if "isNull s"
    using that so sl m by (simp add: seg_ok_def seg_vals_def)
  show "dataIndex s < length tbl \<and> take n (drop i vs) = replicate n (tbl ! dataIndex s)" if "\<not> isNull s" "isRun s"
    using that so sl m by (simp add: seg_ok_def seg_vals_def)
  show "dataIndex s + (i - startPosition s) + n \<le> length tbl \<and> take n (drop i vs) = take n (drop (dataIndex s + (i - startPosition s)) tbl)"
    if "\<not> isNull s" "\<not> isRun s"
  proof -
    have "dataIndex s + ?len \<le> length tbl" using that so by (simp only: seg_ok_def if_False)
    then have "dataIndex s + (i - startPosition s) + n \<le> length tbl" using n' k(3) by linarith
    then show ?thesis using that sl m by (simp add: seg_vals_def drop_take add.commute)
  qed
qed

lemma it_slice_stored:
  assumes "holds p tbl vs" "it_at p it i" "n \<le> it_available p it" "\<not> isNull (it_segm p it)"
  shows "set (take n (drop i vs)) \<subseteq> set tbl"
proof (cases "isRun (it_segm p it)")
  case True
  then show ?thesis using it_slice(2) [OF assms(1-4)] by auto
next
  case False
  then show ?thesis using it_slice(3) [OF assms(1-4)] by (auto dest!: in_set_takeD in_set_dropD)
qed

lemma it_getRepeatCount_at:
  assumes "holds p tbl vs" "it_at p it i"
  shows "0 < it_getRepeatCount p it" "it_getRepeatCount p it \<le> it_available p it"
    "n \<le> it_getRepeatCount p it \<Longrightarrow> take n (drop i vs) = replicate n (vs ! i)"
proof -
  have i: "i < length vs" by (rule it_at_less [OF assms])
  show a: "0 < it_getRepeatCount p it" "it_getRepeatCount p it \<le> it_available p it"
    using it_available_at(2) [OF assms] by (auto simp: it_getRepeatCount_def it_available_def)
  show "take n (drop i vs) = replicate n (vs ! i)" if n: "n \<le> it_getRepeatCount p it"
  proof (cases "isRun (it_segm p it)")
    case True
    have "n \<le> it_available p it" using a(2) n by simp
    then have c: "\<exists>v. take n (drop i vs) = replicate n v" using it_slice(1,2) [OF assms] True by blast
    then show ?thesis
    proof (cases n)
      case (Suc m)
      then show ?thesis using c i by (auto simp: Cons_nth_drop_Suc [symmetric])
    qed simp
  next
    case False
    then have "n = 0 \<or> n = 1" using n by (auto simp: it_getRepeatCount_def)
    then show ?thesis using i by (auto simp: Cons_nth_drop_Suc [symmetric])
  qed
qed

text \<open>The bit of a boolean.\<close>

lemma stored_not_null:
  assumes "stores p tbl" "v \<in> set tbl"
  shows "\<not> val_isNull v"
proof -
  obtain i where "i < length tbl" "v = tbl ! i" using assms(2) by (auto simp: in_set_conv_nth)
  then show ?thesis using assms
    by (auto simp: stores_def stores_bits_def fits_var_def fits_fixed_def val_setBool_def split: if_splits)
qed

lemma it_current:
  assumes h: "holds p tbl vs" and at: "it_at p it i" and nn: "\<not> isNull (it_segm p it)"
  defines "j \<equiv> dataIndex (it_segm p it) + (if isRun (it_segm p it) then 0 else i - startPosition (it_segm p it))"
  shows "j < length tbl" "vs ! i = tbl ! j"
proof -
  have one: "1 \<le> it_available p it" using it_available_at(2) [OF h at] by simp
  have v: "take 1 (drop i vs) = [vs ! i]" using it_at_less [OF h at] by (simp add: Cons_nth_drop_Suc [symmetric])
  have "j < length tbl \<and> vs ! i = tbl ! j"
  proof (cases "isRun (it_segm p it)")
    case True
    then show ?thesis using it_slice(2) [OF h at one nn] v by (simp add: j_def)
  next
    case False
    then have s: "j + 1 \<le> length tbl" "take 1 (drop i vs) = take 1 (drop j tbl)" using it_slice(3) [OF h at one nn] by (simp_all add: j_def)
    then have "take 1 (drop j tbl) = [tbl ! j]" by (simp add: Cons_nth_drop_Suc [symmetric])
    then show ?thesis using s v by simp
  qed
  then show "j < length tbl" "vs ! i = tbl ! j" by simp_all
qed

lemma it_null_at:
  assumes "holds p tbl vs" "it_at p it i"
  shows "isNull (it_segm p it) = val_isNull (vs ! i)"
proof (cases "isNull (it_segm p it)")
  case True
  have "1 \<le> it_available p it" using it_available_at(2) [OF assms] by simp
  then have "take 1 (drop i vs) = [VNull (dataIndex (it_segm p it))]" using it_slice(1) [OF assms] True by simp
  then show ?thesis using True it_at_less [OF assms] by (simp add: Cons_nth_drop_Suc [symmetric])
next
  case False
  have "stores p tbl" using assms(1) by (simp add: holds_def)
  then show ?thesis using False it_current [OF assms False] stored_not_null nth_mem by metis
qed

lemma it_checkBit_value:
  assumes "holds p tbl vs" "pl_isBoolean p" "it_at p it i" "\<not> val_isNull (vs ! i)"
  shows "it_checkBit p it = Inr (val_getBool (vs ! i))"
proof -
  have nn: "\<not> isNull (it_segm p it)" using it_null_at [OF assms(1,3)] assms(4) by simp
  have "it_currPpos it = i" using assms(3) by (simp add: it_at_def)
  then show ?thesis using it_current [OF assms(1,3) nn] stored_bit [OF assms(1,2)]
    by (cases "isRun (it_segm p it)") (simp_all add: it_checkBit_def Let_def)
qed

section \<open>The values that are copied\<close>

lemma bytes_at_fixed_block:
  assumes "\<forall>v \<in> set tbl. fits_fixed k v" "i + n \<le> length tbl"
  shows "bytes_at (concat (map val_data tbl)) (i * k) (k * n) = Some (concat (map val_data (take n (drop i tbl))))"
proof -
  have l: "length (concat (map val_data us)) = length us * k" if "set us \<subseteq> set tbl" for us
    using that assms(1) by (intro length_concat_fixed) blast
  have t: "tbl = take i tbl @ take n (drop i tbl) @ drop (i + n) tbl" by (metis append_take_drop_id drop_drop add.commute)
  have "concat (map val_data tbl) =
      concat (map val_data (take i tbl)) @ concat (map val_data (take n (drop i tbl))) @ concat (map val_data (drop (i + n) tbl))"
    by (subst t) simp
  moreover have "length (concat (map val_data (take i tbl))) = i * k" using l [OF set_take_subset] assms(2) by simp
  moreover have "length (concat (map val_data (take n (drop i tbl)))) = k * n"
    using l [OF subset_trans [OF set_take_subset set_drop_subset]] assms(2) by (simp add: mult.commute)
  ultimately show ?thesis by (simp only: bytes_at_append)
qed

lemma ai_add_null_prev:
  "ai_add_null reason cnt (a\<lparr>ai_prevVal := v\<rparr>) = bindE (ai_add_null reason cnt a) (\<lambda>b. Inr (b\<lparr>ai_prevVal := v\<rparr>))"
  by (cases a) (simp add: ai_add_null_def ai_close_def Let_def setValueIndex_def setDataIndex_def)

locale copy_encoding = value_encoding +
  assumes fits_stored: "enc p varPart tbl \<Longrightarrow> kind_of q = kind_of p \<Longrightarrow> stores q us \<Longrightarrow> v \<in> set us \<Longrightarrow> fits v"
    and enc_block: "enc p varPart tbl \<Longrightarrow> \<not> pl_isBoolean p \<Longrightarrow> pl_elemSize p \<noteq> 0 \<Longrightarrow> \<forall>v \<in> set us. fits v \<Longrightarrow>
      enc (p\<lparr>pl_data := store_at (pl_dataSize p) (concat (map val_data us)) (resize (pl_dataSize p + pl_elemSize p * length us) (pl_data p)),
             pl_dataSize := pl_dataSize p + pl_elemSize p * length us\<rparr>) varPart (tbl @ us)"
begin

text \<open>The appender after copies: the value it remembers may be an older one.\<close>

definition ai_copied :: "val list \<Rightarrow> val list \<Rightarrow> append_iterator \<Rightarrow> bool" where
  "ai_copied tbl vs a \<longleftrightarrow> ai_ok tbl vs (a\<lparr>ai_prevVal := last tbl\<rparr>)"

text \<open>One value, or the values one by one.\<close>

definition appended :: "append_iterator \<Rightarrow> val list \<Rightarrow> val list \<Rightarrow> append_iterator \<Rightarrow> bool" where
  "appended a tbl us a' \<longleftrightarrow> enc (ai_result a') (ai_varPart a') (tbl @ us) \<and> kind_of (ai_result a') = kind_of (ai_result a) \<and>
     pl_container (ai_result a') = pl_container (ai_result a) \<and> ai_segm a' = ai_segm a \<and> ai_segLength a' = ai_segLength a \<and>
     ai_valueIndex a' = ai_valueIndex a + length us"

lemma ai_append_ok:
  assumes "enc (ai_result a) (ai_varPart a) tbl" "length tbl = ai_valueIndex a" "fits v" "room (tbl @ [v])"
  shows "\<exists>a'. ai_append v a = Inr a' \<and> appended a tbl [v] a'"
proof -
  obtain p varPart where p: "appendValue (ai_varPart a) v (ai_valueIndex a) (ai_result a) = Inr (p, varPart)"
      "enc p varPart (tbl @ [v])" "pl_container p = pl_container (ai_result a)"
    using enc_append [OF assms(1,3,4)] assms(2) by auto
  then show ?thesis using appendValue_kind [OF p(1)] by (simp add: ai_append_def appended_def)
qed

lemma ai_copy_each_ok:
  assumes "holds q tq ws" "cursor q ws ii i" "i + n \<le> length ws"
    and "enc (ai_result a) (ai_varPart a) tbl" "length tbl = ai_valueIndex a"
    and "\<forall>v \<in> set (take n (drop i ws)). fits v" "room (tbl @ take n (drop i ws))"
  shows "\<exists>a' ii'. ai_copy_each q n (a, ii) = Inr (a', ii') \<and> appended a tbl (take n (drop i ws)) a' \<and> cursor q ws ii' (i + n)"
  using assms(2-)
proof (induction n arbitrary: ii i a tbl)
  case 0
  then show ?case by (auto simp: appended_def)
next
  case (Suc n)
  have at: "it_at q ii i" using Suc.prems(1,2) by (simp add: cursor_def)
  have w: "take (Suc n) (drop i ws) = ws ! i # take n (drop (Suc i) ws)" using Suc.prems(2) by (simp add: Cons_nth_drop_Suc [symmetric])
  have r: "room ((tbl @ [ws ! i]) @ take n (drop (Suc i) ws))" using Suc.prems(6) w by simp
  obtain a1 where a1: "ai_append (ws ! i) a = Inr a1" "appended a tbl [ws ! i] a1"
    using ai_append_ok [OF Suc.prems(3,4)] Suc.prems(5) w room_prefix [OF r] by auto
  obtain a' ii' where a': "ai_copy_each q n (a1, it_next q ii) = Inr (a', ii')" "appended a1 (tbl @ [ws ! i]) (take n (drop (Suc i) ws)) a'"
      "cursor q ws ii' (Suc i + n)"
    using Suc.IH [of "it_next q ii" "Suc i" a1 "tbl @ [ws ! i]"] it_next_cursor [OF assms(1) at] Suc.prems(2,4,5) a1(2) w r
    by (auto simp: appended_def)
  show ?case using a' a1 it_getItem_value [OF assms(1) at] w by (auto simp: appended_def)
qed

text \<open>The whole copy, for either kind of segment.\<close>

lemma ai_copy_block_ok:
  assumes h: "holds q tq ws" and at: "it_at q ii i" and nn: "\<not> isNull (it_segm q ii)" and cnt: "0 < cnt" "cnt \<le> it_available q ii"
    and k: "kind_of q = kind_of (ai_result a)" "\<not> pl_isBoolean (ai_result a)" "pl_elemSize (ai_result a) \<noteq> 0"
    and seg: "if isRun (ai_segm a) then cnt = 1 \<or> isRun (it_segm q ii) else cnt = 1 \<or> \<not> isRun (it_segm q ii)"
    and enc: "enc (ai_result a) (ai_varPart a) tbl" "length tbl = ai_valueIndex a"
    and us: "us = (if isRun (ai_segm a) then [ws ! i] else take cnt (drop i ws))" and room: "room (tbl @ us)"
  shows "\<exists>a' ii'. ai_copy_block q cnt sp (a, ii) = Inr (a', ii') \<and> appended a tbl us a' \<and> cursor q ws ii' (i + cnt)"
proof -
  have st: "pl_data q = concat (map val_data tq)" "\<forall>v \<in> set tq. fits_fixed (pl_elemSize q) v" "pl_elemSize q = pl_elemSize (ai_result a)"
    using h k by (auto simp: holds_def stores_def kind_of_def)
  define n where "n = (if isRun (ai_segm a) then 1 else cnt)"
  define j where "j = dataIndex (it_segm q ii) + (if isRun (it_segm q ii) then 0 else i - startPosition (it_segm q ii))"
  have w1: "take 1 (drop i ws) = [ws ! i]" using it_at_less [OF h at] by (simp add: Cons_nth_drop_Suc [symmetric])
  have us': "us = take n (drop i ws)" using us w1 by (simp add: n_def)
  have l: "length us = n" using it_available_at(3) [OF h at] cnt unfolding us' by (simp add: n_def)
  have b: "j + n \<le> length tq" "us = take n (drop j tq)"
  proof -
    have n: "n \<le> it_available q ii" using cnt by (simp add: n_def)
    have "j + n \<le> length tq \<and> take n (drop i ws) = take n (drop j tq)"
    proof (cases "isRun (it_segm q ii)")
      case True
      then have "n = 1" using seg by (auto simp: n_def)
      moreover have "dataIndex (it_segm q ii) < length tq" "take n (drop i ws) = replicate n (tq ! dataIndex (it_segm q ii))"
        using it_slice(2) [OF h at n nn True] by simp_all
      ultimately show ?thesis using True by (simp add: j_def Cons_nth_drop_Suc [symmetric])
    next
      case False
      then show ?thesis using it_slice(3) [OF h at n nn] by (simp add: j_def)
    qed
    then show "j + n \<le> length tq" "us = take n (drop j tq)" by (simp_all add: us')
  qed
  have "it_getFixedValues q ii = j * pl_elemSize q" using at by (simp add: it_getFixedValues_def Let_def j_def it_at_def)
  then have bs: "bytes_at (pl_data q) (it_getFixedValues q ii) (pl_elemSize (ai_result a) * n) = Some (concat (map val_data us))"
    using bytes_at_fixed_block [OF st(2) b(1)] st(1,3) b(2) by simp
  have big: "\<not> (\<not> isRun (ai_segm a) \<and> 2 ^ 32 \<le> cnt)" using room_bound [OF room] l by (auto simp: n_def MAX_DATA_INDEX_def)
  have sub: "set us \<subseteq> set tq" using it_slice_stored [OF h at _ nn, of n] cnt unfolding us' by (simp add: n_def)
  have fits: "\<forall>v \<in> set us. fits v" using fits_stored [OF enc(1) k(1), of tq] h sub by (auto simp: holds_def)
  define p where "p = (ai_result a)\<lparr>pl_data := store_at (pl_dataSize (ai_result a)) (concat (map val_data us))
      (resize (pl_dataSize (ai_result a) + pl_elemSize (ai_result a) * n) (pl_data (ai_result a))),
    pl_dataSize := pl_dataSize (ai_result a) + pl_elemSize (ai_result a) * n\<rparr>"
  define a1 where "a1 = a\<lparr>ai_valueIndex := ai_valueIndex a + n, ai_result := p\<rparr>"
  have "enc p (ai_varPart a) (tbl @ us)" using enc_block [OF enc(1) k(2,3) fits] by (simp add: p_def l)
  then have a1: "appended a tbl us (a1\<lparr>ai_prevVal := v\<rparr>)" for v by (simp add: appended_def a1_def l p_def kind_of_def)
  have plus: "cursor q ws (it_plus q m ii) (i + m)" for m by (rule it_plus_cursor [OF h at])
  define ii1 where "ii1 = (if 1 < cnt then it_plus q (cnt - 1) ii else ii)"
  have at1: "it_at q ii1 (i + (cnt - 1))"
    using plus [of "cnt - 1"] at cnt it_available_at(3) [OF h at] by (cases "cnt = 1") (auto simp: ii1_def cursor_def)
  have c: "ai_copy_block q cnt sp (a, ii) =
      (if sp then Inr (a1\<lparr>ai_prevVal := ws ! (i + (cnt - 1))\<rparr>, it_plus q 1 ii1) else Inr (a1, it_plus q cnt ii))"
    using big bs it_getItem_value [OF h at1] unfolding n_def
    by (simp add: ai_copy_block_def Let_def a1_def p_def n_def ii1_def del: if_split)
  show ?thesis using a1 [of "ai_prevVal a1"] a1 plus [of cnt] it_plus_cursor [OF h at1, of 1] cnt(1) unfolding c by (cases sp) auto
qed

lemma ai_copy_ok:
  assumes h: "holds q tq ws" and at: "it_at q ii i" and nn: "\<not> isNull (it_segm q ii)" and cnt: "0 < cnt" "cnt \<le> it_available q ii"
    and k: "kind_of q = kind_of (ai_result a)"
    and seg: "if isRun (ai_segm a) then cnt = 1 \<or> isRun (it_segm q ii) else cnt = 1 \<or> \<not> isRun (it_segm q ii)"
    and enc: "enc (ai_result a) (ai_varPart a) tbl" "length tbl = ai_valueIndex a"
    and us: "us = (if isRun (ai_segm a) then [ws ! i] else take cnt (drop i ws))" and room: "room (tbl @ us)"
  shows "\<exists>a' ii'. ai_copy q cnt sp (a, ii) = Inr (a', ii') \<and> appended a tbl us a' \<and> cursor q ws ii' (i + cnt)"
proof (cases "\<not> pl_isBoolean (ai_result a) \<and> pl_elemSize (ai_result a) \<noteq> 0")
  case True
  then show ?thesis using ai_copy_block_ok [OF assms(1-6) _ _ seg enc us room] by (simp add: ai_copy_def)
next
  case False
  have stores: "stores q tq" using h by (simp add: holds_def)
  have fits: "\<forall>v \<in> set (take cnt (drop i ws)). fits v"
    using fits_stored [OF enc(1) k stores] it_slice_stored [OF h at cnt(2) nn] by blast
  show ?thesis
  proof (cases "isRun (ai_segm a)")
    case run: True
    have "ws ! i \<in> set (take cnt (drop i ws))" using cnt(1) it_at_less [OF h at] by (cases cnt) (simp_all add: Cons_nth_drop_Suc [symmetric])
    then obtain a1 where "ai_append (ws ! i) a = Inr a1" "appended a tbl [ws ! i] a1"
      using ai_append_ok [OF enc] fits room us run by auto
    then show ?thesis using False run us it_getItem_value [OF h at] it_plus_cursor [OF h at, of cnt] by (auto simp: ai_copy_def)
  next
    case lit: False
    have i: "i + cnt \<le> length ws" using it_available_at(3) [OF h at] cnt(2) by simp
    have r: "room (tbl @ take cnt (drop i ws))" using room us lit by simp
    from ai_copy_each_ok [OF h cursor_at [OF h at] i enc fits r] show ?thesis using False lit us by (auto simp: ai_copy_def)
  qed
qed

text \<open>The segment for the values.\<close>

definition prepared :: "nat \<Rightarrow> bool \<Rightarrow> val list \<Rightarrow> val list \<Rightarrow> append_iterator \<Rightarrow> bool" where
  "prepared cnt same tbl vs a \<longleftrightarrow> enc (ai_result a) (ai_varPart a) tbl \<and> length tbl = ai_valueIndex a \<and> \<not> isNull (ai_segm a) \<and>
     (\<exists>ws n. decodes tbl 0 (pl_container (ai_result a)) (startPosition (ai_segm a)) ws \<and> ai_segLength a = n + cnt \<and>
        dataIndex (ai_segm a) + n = length tbl \<and>
        (if n = 0 then vs = ws \<and> (isRun (ai_segm a) \<longleftrightarrow> cnt = 1 \<or> same)
         else vs = ws @ seg_vals tbl (ai_segm a) n \<and> \<not> isRun (ai_segm a) \<and> (cnt = 1 \<or> \<not> same)))"

lemma ai_copied_close:
  assumes "ai_copied tbl vs a" "ai_segLength a \<noteq> 0"
  shows "ai_copied tbl vs (ai_close a)"
proof -
  have "(ai_close a)\<lparr>ai_prevVal := last tbl\<rparr> = ai_close (a\<lparr>ai_prevVal := last tbl\<rparr>)" by (cases a) (simp add: ai_close_def)
  then show ?thesis using ai_close_ok [of tbl vs "a\<lparr>ai_prevVal := last tbl\<rparr>"] assms by (simp add: ai_copied_def)
qed

lemma ai_prepare_ok:
  assumes ok: "ai_copied tbl vs a" and cnt: "0 < cnt" and tbl: "length tbl \<le> MAX_DATA_INDEX"
  shows "\<exists>a'. ai_prepare cnt same a = Inr a' \<and> prepared cnt same tbl vs a' \<and> kind_of (ai_result a') = kind_of (ai_result a)"
proof -
  define a1 where "a1 = (if ai_segLength a \<noteq> 0 \<and> (isNull (ai_segm a) \<or> (isRun (ai_segm a) \<and> 1 < ai_segLength a) \<or> (same \<and> 1 < cnt))
    then ai_close a else a)"
  have a1: "ai_copied tbl vs a1" "ai_segLength a1 \<noteq> 0 \<longrightarrow> \<not> isNull (ai_segm a1) \<and> (isRun (ai_segm a1) \<longrightarrow> ai_segLength a1 = 1) \<and> (cnt = 1 \<or> \<not> same)"
      "kind_of (ai_result a1) = kind_of (ai_result a)"
    using ok ai_copied_close [OF ok] cnt by (auto simp: a1_def ai_close_def kind_of_def pl_addSegment_def)
  note i = ai_ok_index [OF a1(1) [unfolded ai_copied_def], simplified]
  show ?thesis
  proof (cases "ai_segLength a1 = 0")
    case True
    define a2 where "a2 = a1\<lparr>ai_segm := setNull False ((setSame (cnt = 1 \<or> same) (ai_segm a1))\<lparr>dataIndex := ai_valueIndex a1\<rparr>), ai_segLength := cnt\<rparr>"
    have "setValueIndex (ai_valueIndex a1) s = Inr (s\<lparr>dataIndex := ai_valueIndex a1\<rparr>)" for s using setValueIndex_ok tbl i(3) by simp
    then have "ai_prepare cnt same a = Inr a2"
      unfolding ai_prepare_def Let_def a1_def [symmetric] using True by (simp add: a2_def)
    moreover have "decodes tbl 0 (pl_container (ai_result a1)) (startPosition (ai_segm a1)) vs"
      using ai_ok_closed [OF a1(1) [unfolded ai_copied_def]] True by simp
    then have "prepared cnt same tbl vs a2"
      using i(1,3) by (simp add: prepared_def a2_def setNull_def setSame_def)
    ultimately show ?thesis using a1(3) by (simp add: a2_def)
  next
    case False
    define a2 where "a2 = a1\<lparr>ai_segm := setSame False (ai_segm a1), ai_segLength := ai_segLength a1 + cnt\<rparr>"
    have nn: "\<not> isNull (ai_segm a1)" "isRun (ai_segm a1) \<Longrightarrow> ai_segLength a1 = 1" "cnt = 1 \<or> \<not> same" using a1(2) False by simp_all
    have "\<exists>ws. decodes tbl 0 (pl_container (ai_result a1)) (startPosition (ai_segm a1)) ws \<and>
        vs = ws @ seg_vals tbl (ai_segm a1) (ai_segLength a1) \<and>
        (if isRun (ai_segm a1) then dataIndex (ai_segm a1) + 1 = length tbl
           else 1 < ai_segLength a1 \<and> dataIndex (ai_segm a1) + ai_segLength a1 = length tbl)"
      using a1(1) False nn(1) by (cases "isRun (ai_segm a1)") (auto simp: ai_copied_def ai_ok_def)
    then obtain ws where ws: "decodes tbl 0 (pl_container (ai_result a1)) (startPosition (ai_segm a1)) ws"
        "vs = ws @ seg_vals tbl (ai_segm a1) (ai_segLength a1)"
        "if isRun (ai_segm a1) then dataIndex (ai_segm a1) + 1 = length tbl
           else 1 < ai_segLength a1 \<and> dataIndex (ai_segm a1) + ai_segLength a1 = length tbl"
      by blast
    have "ai_prepare cnt same a = Inr a2"
      unfolding ai_prepare_def Let_def a1_def [symmetric] using False by (simp add: a2_def)
    moreover have d: "dataIndex (ai_segm a1) + ai_segLength a1 = length tbl" using ws(3) nn(2) by (auto split: if_splits)
    moreover have "seg_vals tbl (setSame False (ai_segm a1)) (ai_segLength a1) = seg_vals tbl (ai_segm a1) (ai_segLength a1)"
      using nn(1,2) d by (cases "isRun (ai_segm a1)")
        (simp_all add: setSame_def seg_vals_def take_Suc_conv_app_nth Cons_nth_drop_Suc [symmetric])
    ultimately show ?thesis
      using ws(1,2) i(1,3) nn False a1(3) by (auto simp: prepared_def a2_def setSame_def intro!: exI [of _ ws])
  qed
qed

lemma ai_grow:
  assumes p: "prepared cnt same tbl vs a" and a': "appended a tbl us a'" and cnt: "0 < cnt" and room: "room (tbl @ us)"
    and us: "if isRun (ai_segm a) then us = [v] \<and> new = replicate cnt v else length us = cnt \<and> new = us"
  shows "ai_copied (tbl @ us) (vs @ new) a'"
proof -
  let ?s = "ai_segm a"
  obtain ws n where ws: "decodes tbl 0 (pl_container (ai_result a)) (startPosition ?s) ws" "ai_segLength a = n + cnt"
      "dataIndex ?s + n = length tbl" "if n = 0 then vs = ws \<and> (isRun ?s \<longleftrightarrow> cnt = 1 \<or> same)
         else vs = ws @ seg_vals tbl ?s n \<and> \<not> isRun ?s \<and> (cnt = 1 \<or> \<not> same)"
    using p by (auto simp: prepared_def)
  have nn: "\<not> isNull ?s" "length tbl = ai_valueIndex a" using p by (simp_all add: prepared_def)
  have us': "us \<noteq> []" "length us \<le> cnt" using us cnt by (auto split: if_splits)
  have idx: "dataIndex ?s \<le> MAX_DATA_INDEX" using room_bound [OF room] ws(3) us'(1) by (cases us) simp_all
  have s': "ai_segm a' = ?s" "ai_segLength a' = n + cnt" "pl_container (ai_result a') = pl_container (ai_result a)"
      "ai_valueIndex a' = ai_valueIndex a + length us" "enc (ai_result a') (ai_varPart a') (tbl @ us)"
    using a' ws(2) by (simp_all add: appended_def)
  show ?thesis unfolding ai_copied_def
  proof (rule ai_okI [where ws = ws])
    let ?a = "a'\<lparr>ai_prevVal := last (tbl @ us)\<rparr>"
    show "decodes (tbl @ us) 0 (pl_container (ai_result ?a)) (startPosition (ai_segm ?a)) ws"
      using decodes_append [OF ws(1)] s' by simp
    show "seg_ok (tbl @ us) (ai_segm ?a) (ai_segLength ?a)"
        "if isRun (ai_segm ?a) then dataIndex (ai_segm ?a) + 1 = length (tbl @ us)
           else 1 < ai_segLength ?a \<and> dataIndex (ai_segm ?a) + ai_segLength ?a = length (tbl @ us)"
      using s' ws(3,4) us idx nn(1) cnt by (auto simp: seg_ok_def split: if_splits)
    show "vs @ new = ws @ seg_vals (tbl @ us) (ai_segm ?a) (ai_segLength ?a)"
      using s' ws(3,4) us nn(1) by (auto simp: seg_vals_def nth_append split: if_splits)
  qed (use s' nn room us'(1) in simp_all)
qed

lemma room_drops: "room (tbl @ xs @ rest) \<Longrightarrow> room (tbl @ rest)"
  by (induction xs) (auto dest: room_drop)

text \<open>One call: the values of the segment, as many as there are and the limit allows.\<close>

theorem ai_add_from_ok:
  assumes h: "holds q tq ws" and at: "it_at q ii i" and limit: "0 < limit"
    and ok: "ai_copied tbl vs a" and k: "kind_of (ai_result a) = kind_of q"
    and room: "room (tbl @ filter (\<lambda>v. \<not> val_isNull v) (take n (drop i ws)) @ rest)" and n: "n = min limit (it_available q ii)"
  shows "\<exists>a' ii' tbl'. ai_add_from q limit sp (a, ii) = Inr (n, a', ii') \<and> ai_copied tbl' (vs @ take n (drop i ws)) a' \<and>
    cursor q ws ii' (i + n) \<and> kind_of (ai_result a') = kind_of q \<and> room (tbl' @ rest)"
proof -
  have n0: "0 < n" "n \<le> it_available q ii" using n limit it_available_at(2) [OF h at] by simp_all
  show ?thesis
  proof (cases "isNull (it_segm q ii)")
    case True
    let ?r = "dataIndex (it_segm q ii)"
    have s: "?r \<le> 127" "take n (drop i ws) = replicate n (VNull ?r)" using it_slice(1) [OF h at n0(2)] True by simp_all
    obtain a' where a': "ai_add_null ?r n (a\<lparr>ai_prevVal := last tbl\<rparr>) = Inr a'" "ai_ok tbl (vs @ replicate n (VNull ?r)) a'"
      using ai_add_null_ok [OF ok [unfolded ai_copied_def] s(1) n0(1)] by blast
    then obtain b where b: "ai_add_null ?r n a = Inr b" "a' = b\<lparr>ai_prevVal := last tbl\<rparr>" unfolding ai_add_null_prev by (auto simp: bindE_Inr_iff)
    have "ai_add (VNull ?r) n a = Inr b" using b(1) by (simp add: ai_add_def)
    from ai_add_kind [OF this] show ?thesis
      using True a' b s(2) k n it_plus_cursor [OF h at, of n] room by (auto simp: ai_add_from_def Let_def ai_copied_def)
  next
    case False
    let ?same = "isRun (it_segm q ii)"
    have st: "stores q tq" using h by (simp add: holds_def)
    have sub: "set (take n (drop i ws)) \<subseteq> set tq" by (rule it_slice_stored [OF h at n0(2) False])
    have new: "filter (\<lambda>v. \<not> val_isNull v) (take n (drop i ws)) = take n (drop i ws)"
      using sub stored_not_null [OF st] by (intro filter_True) blast
    define us where "us = (if n = 1 \<or> \<not> ?same then take n (drop i ws) else [ws ! i])"
    have w: "take n (drop i ws) = ws ! i # take (n - 1) (drop (Suc i) ws)"
      using n0(1) it_at_less [OF h at] by (cases n) (simp_all add: Cons_nth_drop_Suc [symmetric])
    have same: "take n (drop i ws) = replicate n (ws ! i)" if hs: "?same" using it_getRepeatCount_at(3) [OF h at, of n] n0(2) hs
      by (simp add: it_getRepeatCount_def it_available_def)
    have r: "room ((tbl @ us) @ rest)" "room (tbl @ us)"
    proof -
      have "room (tbl @ take n (drop i ws) @ rest)" using room new by simp
      then show "room ((tbl @ us) @ rest)" using w room_drops [of "tbl @ [ws ! i]" "take (n - 1) (drop (Suc i) ws)" rest] by (auto simp: us_def)
      then show "room (tbl @ us)" by (rule room_prefix)
    qed
    have "us \<noteq> []" using w by (simp add: us_def)
    then have tbl: "length tbl \<le> MAX_DATA_INDEX" using room_bound [OF r(2)] by (cases us) simp_all
    obtain a1 where a1: "ai_prepare n ?same a = Inr a1" "prepared n ?same tbl vs a1" "kind_of (ai_result a1) = kind_of (ai_result a)"
      using ai_prepare_ok [OF ok n0(1) tbl] by blast
    have seg: "if isRun (ai_segm a1) then n = 1 \<or> ?same else n = 1 \<or> \<not> ?same" and e: "enc (ai_result a1) (ai_varPart a1) tbl" "length tbl = ai_valueIndex a1"
      using a1(2) by (auto simp: prepared_def split: if_splits)
    have us: "us = (if isRun (ai_segm a1) then [ws ! i] else take n (drop i ws))" using seg w by (auto simp: us_def split: if_splits)
    obtain a' ii' where a': "ai_copy q n sp (a1, ii) = Inr (a', ii')" "appended a1 tbl us a'" "cursor q ws ii' (i + n)"
      using ai_copy_ok [OF h at False n0 _ seg e us r(2)] a1(3) k by metis
    have "length (take n (drop i ws)) = n" using it_available_at(3) [OF h at] n0(2) by simp
    then have "if isRun (ai_segm a1) then us = [ws ! i] \<and> take n (drop i ws) = replicate n (ws ! i)
        else length us = n \<and> take n (drop i ws) = us"
      using us seg same w by (auto split: if_splits)
    from ai_grow [OF a1(2) a'(2) n0(1) r(2) this] have "ai_copied (tbl @ us) (vs @ take n (drop i ws)) a'" .
    moreover have "kind_of (ai_result a') = kind_of q" using a'(2) a1(3) k by (simp add: appended_def)
    ultimately show ?thesis using False a1(1) a'(1,3) r(1) n by (auto simp: ai_add_from_def Let_def)
  qed
qed

end

interpretation fixed_copy: copy_encoding "enc_fixed k" "fits_fixed k" room_count for k
proof unfold_locales
  fix p varPart tbl us
  assume e: "enc_fixed k p varPart tbl" "\<forall>v \<in> set us. fits_fixed k v"
  then have d: "pl_dataSize p = length (pl_data p)" "length (concat (map val_data us)) = k * length us" "pl_elemSize p = k"
    using length_concat_fixed [of us k] by (auto simp: enc_fixed_def stores_def mult.commute)
  show "enc_fixed k (p\<lparr>pl_data := store_at (pl_dataSize p) (concat (map val_data us)) (resize (pl_dataSize p + pl_elemSize p * length us) (pl_data p)),
      pl_dataSize := pl_dataSize p + pl_elemSize p * length us\<rparr>) varPart (tbl @ us)"
    using store_at_resize [OF d(1,2)] d e by (auto simp: enc_fixed_def stores_def)
qed (auto simp: enc_fixed_def stores_def kind_of_def)

interpretation var_copy: copy_encoding enc_var fits_var room_var
  by unfold_locales (auto simp: enc_var_def stores_def kind_of_def)

interpretation bool_copy: copy_encoding enc_bool fits_bool room_count
  by unfold_locales
    (auto simp: enc_bool_def stores_def kind_of_def stores_bits_def fits_bool_def val_setBool_def in_set_conv_nth)

end
