(* ===== verification/Filter_Tile.thy ===== *)
theory Filter_Tile
  imports Rle_Payload_Copy Coordinates
begin

text \<open>
  The filter operator in tile mode, \<^verbatim>\<open>src/query/ops/filter/FilterArray.cpp\<close>: the tile of the values
  that are kept and the tile of the empty bitmap of the result. The tile that the predicate
  evaluates to is an argument.
\<close>

section \<open>The filter operator on tiles\<close>

text \<open>A value of a tile of booleans is neither missing nor false.\<close>

definition it_true :: "payload \<Rightarrow> pl_iterator \<Rightarrow> error + bool" where
  "it_true p it = (if isNull (it_segm p it) then Inr False else it_checkBit p it)"

text \<open>
  \<^verbatim>\<open>FilterChunkIterator::getItem\<close> in tile mode: \<open>e\<close> is the tile the predicate evaluates to, \<open>p\<close> the
  tile of the input.
\<close>

partial_function (option) filter_loop ::
    "payload \<Rightarrow> payload \<Rightarrow> pl_iterator \<Rightarrow> pl_iterator \<Rightarrow> append_iterator \<Rightarrow> (error + append_iterator) option" where
  "filter_loop e p ei vi a =
     (if it_end e ei then Some (Inr a)
      else
        (let cnt = it_getRepeatCount e ei in
         case it_true e ei of
           Inl err \<Rightarrow> Some (Inl err)
         | Inr b \<Rightarrow>
             if b then
               (case ai_add_from p cnt False (a, vi) of
                  Inl err \<Rightarrow> Some (Inl err)
                | Inr (n, a', vi') \<Rightarrow> filter_loop e p (it_plus e n ei) vi' a')
             else filter_loop e p (it_plus e cnt ei) (it_plus p cnt vi) a))"

definition filter_getItem :: "payload \<Rightarrow> payload \<Rightarrow> payload \<Rightarrow> (error + payload) option" where
  "filter_getItem e p tile =
     (let ei = it_begin e in
      if int (pl_count e) = getMaxLength then Some (bindE (it_true e ei) (\<lambda>b. Inr (if b then p else pl_clear tile)))
      else map_option (\<lambda>r. bindE r ai_flush) (filter_loop e p ei (it_begin p) (append_iterator tile)))"

text \<open>
  \<^verbatim>\<open>buildBitmap\<close>: the empty bitmap of the result as a tile, from the tile \<open>v\<close> of the predicate, which
  has a value for every cell, and the tile \<open>e\<close> of the empty bitmap of the input, if its iterator can
  be set to the position.
\<close>

partial_function (option) bitmap_loop ::
    "payload \<Rightarrow> payload \<Rightarrow> pl_iterator \<Rightarrow> pl_iterator \<Rightarrow> append_iterator \<Rightarrow> (error + append_iterator) option" where
  "bitmap_loop v e vi ei a =
     (if it_end e ei then Some (Inr a)
      else
        (case it_checkBit e ei of
           Inl err \<Rightarrow> Some (Inl err)
         | Inr b \<Rightarrow>
             if b then
               (let cnt = min (it_getRepeatCount v vi) (it_getRepeatCount e ei) in
                case bindE (it_true v vi) (\<lambda>c. ai_add (val_setBool c) cnt a) of
                  Inl err \<Rightarrow> Some (Inl err)
                | Inr a' \<Rightarrow> bitmap_loop v e (it_plus v cnt vi) (it_plus e cnt ei) a')
             else
               (let cnt = it_getRepeatCount e ei in
                case ai_add (val_setBool False) cnt a of
                  Inl err \<Rightarrow> Some (Inl err)
                | Inr a' \<Rightarrow> bitmap_loop v e vi (it_plus e cnt ei) a')))"

definition buildBitmap :: "payload \<Rightarrow> payload option \<Rightarrow> payload \<Rightarrow> (error + payload) option" where
  "buildBitmap v emptyBitmap tile =
     (case emptyBitmap of
        None \<Rightarrow> Some (Inl LE_OPERATION_FAILED)
      | Some e \<Rightarrow> map_option (\<lambda>r. bindE r ai_flush) (bitmap_loop v e (it_begin v) (it_begin e) (append_iterator tile)))"

definition is_true :: "val \<Rightarrow> bool" where
  "is_true v \<longleftrightarrow> \<not> val_isNull v \<and> val_getBool v"

lemma it_true_value:
  assumes "holds p tbl vs" "pl_isBoolean p" "it_at p it i"
  shows "it_true p it = Inr (is_true (vs ! i))"
  using it_null_at [OF assms(1,3)] it_checkBit_value [OF assms] by (simp add: it_true_def is_true_def)

section \<open>Filtering\<close>

definition kept :: "val list \<Rightarrow> val list \<Rightarrow> val list" where
  "kept es vs = map snd (filter (\<lambda>(e, v). is_true e) (zip es vs))"

lemma drop_run: "take n (drop i xs) = replicate n x \<Longrightarrow> drop i xs = replicate n x @ drop (i + n) xs"
  by (metis append_take_drop_id drop_drop add.commute)

lemma kept_run:
  assumes "take n (drop i es) = replicate n x" "i + n \<le> length es" "length es = length vs"
  shows "kept (drop i es) (drop i vs) = (if is_true x then take n (drop i vs) else []) @ kept (drop (i + n) es) (drop (i + n) vs)"
proof -
  have z: "zip (drop i es) (drop i vs) = zip (replicate n x) (take n (drop i vs)) @ zip (drop (i + n) es) (drop (i + n) vs)"
  proof -
    have "drop i vs = take n (drop i vs) @ drop (i + n) vs" by (metis append_take_drop_id drop_drop add.commute)
    moreover have "zip (replicate n x @ drop (i + n) es) (take n (drop i vs) @ drop (i + n) vs) =
        zip (replicate n x) (take n (drop i vs)) @ zip (drop (i + n) es) (drop (i + n) vs)"
      using assms(2,3) by (intro zip_append) simp
    ultimately show ?thesis using drop_run [OF assms(1)] by metis
  qed
  have r: "map snd (filter (\<lambda>(e, v). is_true e) (zip (replicate (length ws) x) ws)) = (if is_true x then ws else [])" for ws
    by (induction ws) simp_all
  have "length (take n (drop i vs)) = n" using assms(2,3) by simp
  then show ?thesis using r [of "take n (drop i vs)"] by (simp only: kept_def z filter_append map_append)
qed

lemma kept_all: "kept (drop (length es) es) vs = []"
  by (simp add: kept_def)

context copy_encoding
begin

lemma filter_loop_ok:
  assumes e: "holds e te es" "pl_isBoolean e" and p: "holds p tp vs" "length es = length vs"
  shows "cursor e es ei i \<Longrightarrow> cursor p vs vi i \<Longrightarrow> i \<le> length es \<Longrightarrow> ai_copied tbl ws a \<Longrightarrow> kind_of (ai_result a) = kind_of p \<Longrightarrow>
    room (tbl @ filter (\<lambda>v. \<not> val_isNull v) (kept (drop i es) (drop i vs))) \<Longrightarrow>
    \<exists>a' tbl'. filter_loop e p ei vi a = Some (Inr a') \<and> ai_copied tbl' (ws @ kept (drop i es) (drop i vs)) a'"
proof (induction "length es - i" arbitrary: i ei vi a tbl ws rule: less_induct)
  case less
  show ?case
  proof (cases "i = length es")
    case True
    then show ?thesis using less.prems(4) cursor_end [OF less.prems(1)]
      by (subst filter_loop.simps) (auto simp: kept_def)
  next
    case False
    then have i: "i < length es" using less.prems(3) by simp
    have at: "it_at e ei i" "it_at p vi i" using less.prems(1,2) i p(2) by (simp_all add: cursor_def)
    have ne: "\<not> it_end e ei" using cursor_end [OF less.prems(1)] i by simp
    note rc = it_getRepeatCount_at [OF e(1) at(1)]
    have run: "kept (drop i es) (drop i vs) = (if is_true (es ! i) then take n (drop i vs) else []) @ kept (drop (i + n) es) (drop (i + n) vs)"
        "i + n \<le> length es" if "n \<le> it_getRepeatCount e ei" for n
      using kept_run [OF rc(3) [OF that]] it_available_at(3) [OF e(1) at(1)] rc(2) that p(2) by simp_all
    note tr = it_true_value [OF e at(1)]
    show ?thesis
    proof (cases "is_true (es ! i)")
      case True
      define n where "n = min (it_getRepeatCount e ei) (it_available p vi)"
      have n: "n \<le> it_getRepeatCount e ei" "0 < n" using rc(1) it_available_at(2) [OF p(1) at(2)] by (simp_all add: n_def)
      have "room (tbl @ filter (\<lambda>v. \<not> val_isNull v) (take n (drop i vs)) @ filter (\<lambda>v. \<not> val_isNull v) (kept (drop (i + n) es) (drop (i + n) vs)))"
        using less.prems(6) run(1) [OF n(1)] True by simp
      from ai_add_from_ok [OF p(1) at(2) rc(1) less.prems(4,5) this n_def]
      obtain a' vi' tbl' where a': "ai_add_from p (it_getRepeatCount e ei) False (a, vi) = Inr (n, a', vi')"
          "ai_copied tbl' (ws @ take n (drop i vs)) a'" "cursor p vs vi' (i + n)" "kind_of (ai_result a') = kind_of p"
          "room (tbl' @ filter (\<lambda>v. \<not> val_isNull v) (kept (drop (i + n) es) (drop (i + n) vs)))" by blast
      have "\<exists>a2 tbl2. filter_loop e p (it_plus e n ei) vi' a' = Some (Inr a2) \<and>
          ai_copied tbl2 ((ws @ take n (drop i vs)) @ kept (drop (i + n) es) (drop (i + n) vs)) a2"
        by (rule less.hyps [OF _ it_plus_cursor [OF e(1) at(1)] a'(3) run(2) [OF n(1)] a'(2,4,5)]) (use n(2) i in simp)
      then show ?thesis using ne tr True a'(1) run(1) [OF n(1)] by (subst filter_loop.simps) (simp add: Let_def)
    next
      case False
      let ?n = "it_getRepeatCount e ei"
      have "\<exists>a2 tbl2. filter_loop e p (it_plus e ?n ei) (it_plus p ?n vi) a = Some (Inr a2) \<and>
          ai_copied tbl2 (ws @ kept (drop (i + ?n) es) (drop (i + ?n) vs)) a2"
        by (rule less.hyps [OF _ it_plus_cursor [OF e(1) at(1)] it_plus_cursor [OF p(1) at(2)] run(2) [OF order_refl] less.prems(4,5)])
          (use rc(1) i less.prems(6) run(1) [OF order_refl] False in simp_all)
      then show ?thesis using ne tr False run(1) [OF order_refl] by (subst filter_loop.simps) (simp add: Let_def)
    qed
  qed
qed

theorem filter_ok:
  assumes e: "holds e te es" "pl_isBoolean e" and p: "holds p tp vs" "length es = length vs" "int (length es) \<noteq> getMaxLength"
    and t: "enc (pl_clear tile) [] []" "kind_of tile = kind_of p" and room: "room (filter (\<lambda>v. \<not> val_isNull v) (kept es vs))"
  shows "\<exists>r tr. filter_getItem e p tile = Some (Inr r) \<and> holds r tr (kept es vs)"
proof -
  have "room []" using room_prefix [of "[]"] room by simp
  then have c: "ai_copied [] [] (append_iterator tile)"
    using t(1) by (auto simp: ai_copied_def ai_ok_def append_iterator_def pl_clear_def setPPosition_def Segment0_def)
  have k: "kind_of (ai_result (append_iterator tile)) = kind_of p" using t(2) by (simp add: append_iterator_def kind_of_def pl_clear_def)
  obtain a tbl where a: "filter_loop e p (it_begin e) (it_begin p) (append_iterator tile) = Some (Inr a)" "ai_copied tbl (kept es vs) a"
    using filter_loop_ok [OF e p(1,2) it_begin_cursor [OF e(1)] it_begin_cursor [OF p(1)] le0 c k] room by auto
  have "ai_flush (a\<lparr>ai_prevVal := last tbl\<rparr>) = ai_flush a" by (simp add: ai_flush_def Let_def cong: if_cong)
  then obtain r where "ai_flush a = Inr r" "holds r tbl (kept es vs)" using ai_flush_ok [OF a(2) [unfolded ai_copied_def]] by auto
  then show ?thesis using a(1) p(3) holds_count [OF e(1)] by (auto simp: filter_getItem_def Let_def)
qed

end

text \<open>For every type.\<close>

lemma empty_tile:
  "enc_bool (pl_clear (RLEPayload 1)) [] []" "enc_var (pl_clear (RLEPayload 0)) [] []"
  "bitSize \<noteq> 0 \<Longrightarrow> bitSize \<noteq> 1 \<Longrightarrow> enc_fixed ((bitSize + 7) div 8) (pl_clear (RLEPayload bitSize)) [] []"
  by (simp_all add: enc_bool_def enc_var_def enc_fixed_def stores_def stores_bits_def pl_clear_def RLEPayload_def var_offsets_def)

lemma filter_holds:
  assumes e: "holds e te es" "pl_isBoolean e" and p: "holds p tp vs" "length es = length vs" "int (length es) \<noteq> getMaxLength"
    and k: "kind_of p = kind_of (RLEPayload bitSize)" and room: "enough_room bitSize (filter (\<lambda>v. \<not> val_isNull v) (kept es vs))"
  shows "\<exists>r tr. filter_getItem e p (RLEPayload bitSize) = Some (Inr r) \<and> holds r tr (kept es vs)"
proof -
  consider "bitSize = 1" | "bitSize = 0" | "bitSize \<noteq> 0" "bitSize \<noteq> 1" by blast
  then show ?thesis
  proof cases
    case 1
    then show ?thesis using bool_copy.filter_ok [OF e p _ k [symmetric]] room empty_tile(1) by (simp add: enough_room_def room_count_def)
  next
    case 2
    then show ?thesis using var_copy.filter_ok [OF e p _ k [symmetric]] room empty_tile(2) by (simp add: enough_room_def room_var_def)
  next
    case 3
    then show ?thesis using fixed_copy.filter_ok [OF e p _ k [symmetric], of "(bitSize + 7) div 8"] room empty_tile(3) [of bitSize]
      by (simp add: enough_room_def room_count_def)
  qed
qed

section \<open>The bitmap of the result\<close>

fun new_bits :: "val list \<Rightarrow> val list \<Rightarrow> bool list" where
  "new_bits [] vs = []"
| "new_bits (e # es) vs = (if val_getBool e then is_true (hd vs) # new_bits es (tl vs) else False # new_bits es vs)"

lemma new_bits_run:
  "val_getBool x \<Longrightarrow> new_bits (replicate n x @ es) (replicate n y @ vs) = replicate n (is_true y) @ new_bits es vs"
  "\<not> val_getBool x \<Longrightarrow> new_bits (replicate n x @ es) vs = replicate n False @ new_bits es vs"
  by (induction n) simp_all

lemma set_bits_run: "set_bits (replicate n x @ xs) = (if val_getBool x then n else 0) + set_bits xs"
  by (simp add: set_bits_def)

lemma bitmap_loop_ok:
  assumes v: "holds v tv vs" "pl_isBoolean v" and e: "holds e te es" "pl_isBoolean e" "\<forall>x \<in> set es. \<not> val_isNull x"
  shows "cursor v vs vi j \<Longrightarrow> cursor e es ei i \<Longrightarrow> i \<le> length es \<Longrightarrow> set_bits (drop i es) + j \<le> length vs \<Longrightarrow>
    bool_enc.ai_ok tbl ws a \<Longrightarrow> length tbl + (length es - i) \<le> MAX_DATA_INDEX + 1 \<Longrightarrow>
    \<exists>a' tbl'. bitmap_loop v e vi ei a = Some (Inr a') \<and>
      bool_enc.ai_ok tbl' (ws @ map val_setBool (new_bits (drop i es) (drop j vs))) a'"
proof (induction "length es - i" arbitrary: i j ei vi a tbl ws rule: less_induct)
  case less
  show ?case
  proof (cases "i = length es")
    case True
    then show ?thesis using less.prems(5) cursor_end [OF less.prems(2)] by (subst bitmap_loop.simps) auto
  next
    case False
    then have i: "i < length es" using less.prems(3) by simp
    have at: "it_at e ei i" using less.prems(2) i by (simp add: cursor_def)
    have ne: "\<not> it_end e ei" using cursor_end [OF less.prems(2)] i by simp
    note rc = it_getRepeatCount_at [OF e(1) at]
    have es: "drop i es = replicate n (es ! i) @ drop (i + n) es" "i + n \<le> length es" if "n \<le> it_getRepeatCount e ei" for n
      using drop_run [OF rc(3) [OF that]] it_available_at(3) [OF e(1) at] rc(2) that by simp_all
    have cb: "it_checkBit e ei = Inr (val_getBool (es ! i))" using it_checkBit_value [OF e(1,2) at] e(3) i by simp
    have add: "\<exists>a' tbl'. ai_add (val_setBool b) n a = Inr a' \<and> bool_enc.ai_ok tbl' (ws @ replicate n (val_setBool b)) a' \<and> length tbl' \<le> length tbl + 1"
      if n: "0 < n" for b n
    proof -
      have f: "case val_setBool b of VNull reason \<Rightarrow> reason \<le> 127 | VData _ \<Rightarrow> fits_bool (val_setBool b) \<and> room_count (tbl @ [val_setBool b])"
        using less.prems(6) i by (simp add: val_setBool_def fits_bool_def room_count_def)
      show ?thesis using bool_enc.ai_add_ok [OF less.prems(5) f n] by force
    qed
    show ?thesis
    proof (cases "val_getBool (es ! i)")
      case True
      have j: "j < length vs" using less.prems(4) es(1) [of 1] rc(1) True by (simp add: set_bits_def)
      have atv: "it_at v vi j" using less.prems(1) j by (simp add: cursor_def)
      note rv = it_getRepeatCount_at [OF v(1) atv]
      define n where "n = min (it_getRepeatCount v vi) (it_getRepeatCount e ei)"
      have n: "0 < n" "n \<le> it_getRepeatCount v vi" "n \<le> it_getRepeatCount e ei" using rc(1) rv(1) by (simp_all add: n_def)
      note tr = it_true_value [OF v atv]
      obtain a' tbl' where a': "ai_add (val_setBool (is_true (vs ! j))) n a = Inr a'"
          "bool_enc.ai_ok tbl' (ws @ replicate n (val_setBool (is_true (vs ! j)))) a'" "length tbl' \<le> length tbl + 1"
        using add [OF n(1)] by blast
      have nb: "new_bits (drop i es) (drop j vs) = replicate n (is_true (vs ! j)) @ new_bits (drop (i + n) es) (drop (j + n) vs)"
        unfolding es(1) [OF n(3)] drop_run [OF rv(3) [OF n(2)]] by (rule new_bits_run(1) [OF True])
      have "set_bits (drop i es) = n + set_bits (drop (i + n) es)" using es(1) [OF n(3)] set_bits_run True by metis
      then have "\<exists>a2 tbl2. bitmap_loop v e (it_plus v n vi) (it_plus e n ei) a' = Some (Inr a2) \<and>
          bool_enc.ai_ok tbl2 ((ws @ replicate n (val_setBool (is_true (vs ! j)))) @ map val_setBool (new_bits (drop (i + n) es) (drop (j + n) vs))) a2"
        by (intro less.hyps [OF _ it_plus_cursor [OF v(1) atv] it_plus_cursor [OF e(1) at] es(2) [OF n(3)] _ a'(2)])
          (use n(1) i less.prems(4,6) a'(3) in simp_all)
      then show ?thesis using ne cb True tr a'(1) nb by (subst bitmap_loop.simps) (simp add: Let_def n_def [symmetric])
    next
      case False
      let ?n = "it_getRepeatCount e ei"
      obtain a' tbl' where a': "ai_add (val_setBool False) ?n a = Inr a'"
          "bool_enc.ai_ok tbl' (ws @ replicate ?n (val_setBool False)) a'" "length tbl' \<le> length tbl + 1"
        using add [OF rc(1)] by blast
      have nb: "new_bits (drop i es) (drop j vs) = replicate ?n False @ new_bits (drop (i + ?n) es) (drop j vs)"
        unfolding es(1) [OF order_refl] by (rule new_bits_run(2) [OF False])
      have "set_bits (drop i es) = set_bits (drop (i + ?n) es)" using es(1) [OF order_refl] set_bits_run False by (metis add_0)
      then have "\<exists>a2 tbl2. bitmap_loop v e vi (it_plus e ?n ei) a' = Some (Inr a2) \<and>
          bool_enc.ai_ok tbl2 ((ws @ replicate ?n (val_setBool False)) @ map val_setBool (new_bits (drop (i + ?n) es) (drop j vs))) a2"
        by (intro less.hyps [OF _ less.prems(1) it_plus_cursor [OF e(1) at] es(2) [OF order_refl] _ a'(2)])
          (use rc(1) i less.prems(4,6) a'(3) in simp_all)
      then show ?thesis using ne cb False a'(1) nb by (subst bitmap_loop.simps) (simp add: Let_def)
    qed
  qed
qed

lemma buildBitmap_holds:
  assumes v: "holds v tv vs" "pl_isBoolean v" and e: "holds e te es" "pl_isBoolean e" "\<forall>x \<in> set es. \<not> val_isNull x"
    and l: "set_bits es \<le> length vs" "length es \<le> MAX_DATA_INDEX + 1"
  shows "\<exists>r tr. buildBitmap v (Some e) (RLEPayload 1) = Some (Inr r) \<and> holds r tr (map val_setBool (new_bits es vs))"
proof -
  have "bool_enc.ai_ok [] [] (append_iterator (RLEPayload 1))"
    using empty_tile(1) by (auto simp: bool_enc.ai_ok_def append_iterator_def room_count_def pl_clear_def setPPosition_def Segment0_def)
  then obtain a tbl where a: "bitmap_loop v e (it_begin v) (it_begin e) (append_iterator (RLEPayload 1)) = Some (Inr a)"
      "bool_enc.ai_ok tbl (map val_setBool (new_bits es vs)) a"
    using bitmap_loop_ok [OF v e it_begin_cursor [OF v(1)] it_begin_cursor [OF e(1)] le0] l by fastforce
  then show ?thesis using bool_enc.ai_flush_ok [OF a(2)] by (auto simp: buildBitmap_def)
qed

text \<open>The values that are kept and the cells that are set are as many.\<close>

lemma new_bits_kept:
  "set_bits es = length vs \<Longrightarrow> length ds = length vs \<Longrightarrow> length (filter id (new_bits es vs)) = length (kept vs ds)"
proof (induction es vs arbitrary: ds rule: new_bits.induct)
  case (2 e es vs)
  show ?case
  proof (cases "val_getBool e")
    case True
    then obtain v vs' d ds' where "vs = v # vs'" "ds = d # ds'" using 2(3,4) by (cases vs; cases ds) (auto simp: set_bits_def)
    then show ?thesis using 2(1) [OF True, of ds'] 2(3,4) True by (auto simp: set_bits_def kept_def)
  next
    case False
    then show ?thesis using 2(2) [OF False, of ds] 2(3,4) by (simp add: set_bits_def)
  qed
qed (simp add: kept_def set_bits_def)

text \<open>A constant predicate stands for a tile of the largest length: all values are kept or none.\<close>

lemma filter_constant:
  assumes "holds e te es" "pl_isBoolean e" "int (length es) = getMaxLength"
  shows "filter_getItem e p tile = Some (Inr (if is_true (es ! 0) then p else pl_clear tile))"
proof -
  have "0 < length es" using assms(3) by (auto simp: getMaxLength_def getMax_def getMin_def)
  then have "it_at e (it_begin e) 0" using it_begin_cursor [OF assms(1)] by (simp add: cursor_def)
  then show ?thesis using it_true_value [OF assms(1,2)] holds_count [OF assms(1)] assms(3) by (simp add: filter_getItem_def Let_def)
qed

section \<open>Properties\<close>

lemma append_all_typed:
  assumes "runs_ok bitSize xs"
  shows "\<exists>p tbl. append_all xs (RLEPayload bitSize) = Inr p \<and> holds p tbl (runs xs) \<and> kind_of p = kind_of (RLEPayload bitSize)"
  using append_all_holds [OF assms] append_all_kind by blast

text \<open>C9. The filter operator on tiles keeps exactly the values whose predicate is true, in their order: with
  a predicate that is false or missing a value is dropped, whatever the runs of the two tiles are,
  for values of every type, and the loop always comes to its end.\<close>

theorem filter_tile_keeps:
  assumes "runs_ok 1 xs" "runs_ok bitSize ys" "length (runs xs) = length (runs ys)" "int (length (runs xs)) \<noteq> getMaxLength"
    and "enough_room bitSize (filter (\<lambda>v. \<not> val_isNull v) (kept (runs xs) (runs ys)))"
  shows "\<exists>e p r. append_all xs (RLEPayload 1) = Inr e \<and> append_all ys (RLEPayload bitSize) = Inr p \<and>
    filter_getItem e p (RLEPayload bitSize) = Some (Inr r) \<and> pl_count r = length (kept (runs xs) (runs ys)) \<and>
    (\<forall>pos. getValueByPosition r pos =
       Inr (if pos < length (kept (runs xs) (runs ys)) then Some (kept (runs xs) (runs ys) ! pos) else None))"
proof -
  obtain e te where e: "append_all xs (RLEPayload 1) = Inr e" "holds e te (runs xs)" "kind_of e = kind_of (RLEPayload 1)"
    using append_all_typed [OF assms(1)] by blast
  obtain p tp where p: "append_all ys (RLEPayload bitSize) = Inr p" "holds p tp (runs ys)" "kind_of p = kind_of (RLEPayload bitSize)"
    using append_all_typed [OF assms(2)] by blast
  have b: "pl_isBoolean e" using e(3) by (simp add: kind_of_def RLEPayload_def)
  obtain r tr where "filter_getItem e p (RLEPayload bitSize) = Some (Inr r)" "holds r tr (kept (runs xs) (runs ys))"
    using filter_holds [OF e(2) b p(2) assms(3,4) p(3) assms(5)] by blast
  then show ?thesis using e(1) p(1) holds_count holds_position by blast
qed

text \<open>A run of strings of which the predicate keeps a part, a missing predicate and a missing value.\<close>

definition ex_pred :: "(val \<times> nat) list" where
  "ex_pred = [(VData [1], 2), (VData [0], 1), (VNull 3, 1), (VData [1], 1), (VData [0], 1)]"

definition ex_vals :: "(val \<times> nat) list" where
  "ex_vals = [(VData [7, 7], 1), (VData [8], 3), (VNull 4, 1), (VData [9], 1)]"

theorem filter_tile_keeps_witness:
  "\<exists>e p r. append_all ex_pred (RLEPayload 1) = Inr e \<and> append_all ex_vals (RLEPayload 0) = Inr p \<and>
     filter_getItem e p (RLEPayload 0) = Some (Inr r) \<and> pl_count r = 3 \<and> getValueByPosition r 1 = Inr (Some (VData [8])) \<and>
     getValueByPosition r 2 = Inr (Some (VNull 4)) \<and> getValueByPosition r 3 = Inr None"
proof -
  have r: "runs ex_pred = [VData [1], VData [1], VData [0], VNull 3, VData [1], VData [0]]"
      "runs ex_vals = [VData [7, 7], VData [8], VData [8], VData [8], VNull 4, VData [9]]"
    by (simp_all add: runs_def ex_pred_def ex_vals_def numeral_eq_Suc)
  have k: "kept (runs ex_pred) (runs ex_vals) = [VData [7, 7], VData [8], VNull 4]"
    by (simp add: r kept_def is_true_def val_getBool_def)
  have ok: "runs_ok 1 ex_pred" "runs_ok 0 ex_vals"
    by (simp_all add: runs_ok_def ex_pred_def ex_vals_def storable_def fits_bool_def fits_var_def enough_room_def stored_values_def
        MAX_DATA_INDEX_def RLE_MAX_VARPART_OFFSET_def var_bytes_def)
  have l: "length (runs ex_pred) = length (runs ex_vals)" "int (length (runs ex_pred)) \<noteq> getMaxLength"
    by (simp_all add: r getMaxLength_def getMax_def getMin_def)
  have room: "enough_room 0 (filter (\<lambda>v. \<not> val_isNull v) (kept (runs ex_pred) (runs ex_vals)))"
    by (simp add: k enough_room_def MAX_DATA_INDEX_def RLE_MAX_VARPART_OFFSET_def var_bytes_def)
  obtain e p x where x: "append_all ex_pred (RLEPayload 1) = Inr e" "append_all ex_vals (RLEPayload 0) = Inr p"
      "filter_getItem e p (RLEPayload 0) = Some (Inr x)" "pl_count x = length (kept (runs ex_pred) (runs ex_vals))"
      "\<forall>pos. getValueByPosition x pos = Inr (if pos < length (kept (runs ex_pred) (runs ex_vals))
         then Some (kept (runs ex_pred) (runs ex_vals) ! pos) else None)"
    using filter_tile_keeps [OF ok l room] by blast
  show ?thesis using x(1-4) spec [OF x(5), of 1] spec [OF x(5), of 2] spec [OF x(5), of 3] by (simp add: k)
qed

lemma new_bits_nth:
  assumes "set_bits es \<le> length vs"
  shows "length (new_bits es vs) = length es"
    "pos < length es \<Longrightarrow> new_bits es vs ! pos = (val_getBool (es ! pos) \<and> is_true (vs ! set_bits (take pos es)))"
proof -
  have "length (new_bits es vs) = length es \<and>
    (\<forall>pos < length es. new_bits es vs ! pos = (val_getBool (es ! pos) \<and> is_true (vs ! set_bits (take pos es))))"
    using assms
  proof (induction es vs rule: new_bits.induct)
    case (2 e es vs)
    show ?case
    proof (cases "val_getBool e")
      case True
      then obtain v vs' where vs: "vs = v # vs'" using 2(3) by (cases vs) (auto simp: set_bits_def)
      then show ?thesis using 2(1) [OF True] 2(3) True by (auto simp: set_bits_def nth_Cons split: nat.split)
    next
      case False
      then show ?thesis using 2(2) [OF False] 2(3) by (auto simp: set_bits_def nth_Cons split: nat.split)
    qed
  qed simp
  then show "length (new_bits es vs) = length es"
    "pos < length es \<Longrightarrow> new_bits es vs ! pos = (val_getBool (es ! pos) \<and> is_true (vs ! set_bits (take pos es)))" by simp_all
qed

text \<open>C10. The bitmap that the filter operator builds for its result has a cell at a position exactly where the
  bitmap of the input has one whose predicate is true, and it has as many cells as the filtered tile has
  values.\<close>

theorem filter_bitmap_matches:
  assumes "runs_ok 1 es" "runs_ok 1 xs" "runs_ok bitSize ys" "list_all (\<lambda>v. \<not> val_isNull v) (runs es)"
    and "set_bits (runs es) = length (runs xs)" "length (runs xs) = length (runs ys)"
    and "length (runs es) \<le> MAX_DATA_INDEX + 1" "enough_room bitSize (filter (\<lambda>v. \<not> val_isNull v) (kept (runs xs) (runs ys)))"
  shows "\<exists>b e p n r. append_all es (RLEPayload 1) = Inr b \<and> append_all xs (RLEPayload 1) = Inr e \<and>
    append_all ys (RLEPayload bitSize) = Inr p \<and> buildBitmap e (Some b) (RLEPayload 1) = Some (Inr n) \<and>
    filter_getItem e p (RLEPayload bitSize) = Some (Inr r) \<and>
    (\<forall>pos. getValueByPosition n pos =
       Inr (if pos < length (runs es)
            then Some (val_setBool (val_getBool (runs es ! pos) \<and> is_true (runs xs ! set_bits (take pos (runs es))))) else None)) \<and>
    pl_count r = card {pos. getValueByPosition n pos = Inr (Some (val_setBool True))}"
proof -
  obtain b tb where b: "append_all es (RLEPayload 1) = Inr b" "holds b tb (runs es)" "kind_of b = kind_of (RLEPayload 1)"
    using append_all_typed [OF assms(1)] by blast
  obtain e te where e: "append_all xs (RLEPayload 1) = Inr e" "holds e te (runs xs)" "kind_of e = kind_of (RLEPayload 1)"
    using append_all_typed [OF assms(2)] by blast
  obtain p tp where p: "append_all ys (RLEPayload bitSize) = Inr p" "holds p tp (runs ys)" "kind_of p = kind_of (RLEPayload bitSize)"
    using append_all_typed [OF assms(3)] by blast
  have bb: "pl_isBoolean b" "pl_isBoolean e" using b(3) e(3) by (simp_all add: kind_of_def RLEPayload_def)
  have le: "set_bits vs \<le> length vs" for vs by (simp add: set_bits_def)
  have m: "int (length (runs xs)) \<noteq> getMaxLength"
    using assms(5,7) le [of "runs es"] by (simp add: getMaxLength_def getMax_def getMin_def MAX_DATA_INDEX_def)
  have nn: "\<forall>x \<in> set (runs es). \<not> val_isNull x" using assms(4) by (simp add: list_all_iff)
  obtain n tn where n: "buildBitmap e (Some b) (RLEPayload 1) = Some (Inr n)" "holds n tn (map val_setBool (new_bits (runs es) (runs xs)))"
    using buildBitmap_holds [OF e(2) bb(2) b(2) bb(1) nn] assms(5,7) by auto
  obtain r tr where r: "filter_getItem e p (RLEPayload bitSize) = Some (Inr r)" "holds r tr (kept (runs xs) (runs ys))"
    using filter_holds [OF e(2) bb(2) p(2) assms(6) m p(3) assms(8)] by blast
  have pos: "getValueByPosition n pos = Inr (if pos < length (new_bits (runs es) (runs xs))
      then Some (val_setBool (new_bits (runs es) (runs xs) ! pos)) else None)" for pos
    using holds_position [OF n(2), of pos] by simp
  have "pl_count r = length (filter id (new_bits (runs es) (runs xs)))"
    using holds_count [OF r(2)] new_bits_kept [OF assms(5)] assms(6) by simp
  also have "\<dots> = card {pos. getValueByPosition n pos = Inr (Some (val_setBool True))}"
    unfolding length_filter_conv_card pos by (intro arg_cong [where f = card]) (auto simp: val_setBool_def split: if_splits)
  finally have "pl_count r = card {pos. getValueByPosition n pos = Inr (Some (val_setBool True))}" .
  moreover have "getValueByPosition n pos = Inr (if pos < length (runs es)
      then Some (val_setBool (val_getBool (runs es ! pos) \<and> is_true (runs xs ! set_bits (take pos (runs es))))) else None)" for pos
    using pos new_bits_nth [of "runs es" "runs xs"] assms(5) by simp
  ultimately show ?thesis using b(1) e(1) p(1) n(1) r(1) by blast
qed

text \<open>Nine positions, six of which are cells.\<close>

definition ex_cells :: "(val \<times> nat) list" where
  "ex_cells = [(VData [0], 2), (VData [1], 3), (VData [0], 1), (VData [1], 3)]"

theorem filter_bitmap_matches_witness:
  "\<exists>b e p n r. append_all ex_cells (RLEPayload 1) = Inr b \<and> append_all ex_pred (RLEPayload 1) = Inr e \<and>
     append_all ex_vals (RLEPayload 0) = Inr p \<and> buildBitmap e (Some b) (RLEPayload 1) = Some (Inr n) \<and>
     filter_getItem e p (RLEPayload 0) = Some (Inr r) \<and> getValueByPosition n 3 = Inr (Some (VData [1])) \<and>
     getValueByPosition n 4 = Inr (Some (VData [0])) \<and> getValueByPosition n 5 = Inr (Some (VData [0])) \<and>
     getValueByPosition n 7 = Inr (Some (VData [1]))"
proof -
  have r: "runs ex_cells = [VData [0], VData [0], VData [1], VData [1], VData [1], VData [0], VData [1], VData [1], VData [1]]"
      "runs ex_pred = [VData [1], VData [1], VData [0], VNull 3, VData [1], VData [0]]"
      "runs ex_vals = [VData [7, 7], VData [8], VData [8], VData [8], VNull 4, VData [9]]"
    by (simp_all add: runs_def ex_cells_def ex_pred_def ex_vals_def numeral_eq_Suc)
  have k: "kept (runs ex_pred) (runs ex_vals) = [VData [7, 7], VData [8], VNull 4]"
    by (simp add: r kept_def is_true_def val_getBool_def)
  have ok: "runs_ok 1 ex_cells" "runs_ok 1 ex_pred" "runs_ok 0 ex_vals"
    by (simp_all add: runs_ok_def ex_cells_def ex_pred_def ex_vals_def storable_def fits_bool_def fits_var_def enough_room_def
        stored_values_def MAX_DATA_INDEX_def RLE_MAX_VARPART_OFFSET_def var_bytes_def)
  have l: "list_all (\<lambda>v. \<not> val_isNull v) (runs ex_cells)" "set_bits (runs ex_cells) = length (runs ex_pred)"
      "length (runs ex_pred) = length (runs ex_vals)" "length (runs ex_cells) \<le> MAX_DATA_INDEX + 1"
    by (simp_all add: r set_bits_def val_getBool_def MAX_DATA_INDEX_def)
  have room: "enough_room 0 (filter (\<lambda>v. \<not> val_isNull v) (kept (runs ex_pred) (runs ex_vals)))"
    by (simp add: k enough_room_def MAX_DATA_INDEX_def RLE_MAX_VARPART_OFFSET_def var_bytes_def)
  obtain b e p n x where x: "append_all ex_cells (RLEPayload 1) = Inr b" "append_all ex_pred (RLEPayload 1) = Inr e"
      "append_all ex_vals (RLEPayload 0) = Inr p" "buildBitmap e (Some b) (RLEPayload 1) = Some (Inr n)"
      "filter_getItem e p (RLEPayload 0) = Some (Inr x)"
      "\<forall>pos. getValueByPosition n pos = Inr (if pos < length (runs ex_cells)
         then Some (val_setBool (val_getBool (runs ex_cells ! pos) \<and> is_true (runs ex_pred ! set_bits (take pos (runs ex_cells))))) else None)"
    using filter_bitmap_matches [OF ok l room] by blast
  show ?thesis
    using x(1-5) spec [OF x(6), of 3] spec [OF x(6), of 4] spec [OF x(6), of 5] spec [OF x(6), of 7]
    by (simp add: r set_bits_def val_getBool_def is_true_def val_setBool_def)
qed

end
