(* ===== verification/Spec2Isabelle.thy ===== *)
theory Spec2Isabelle
  imports File_Manager Data_Stores Rle_Cut_Cells Filter_Tile
begin

text \<open>
  SciDB, an array database (release 15.12.1): a verification development of the way an
  instance keeps the chunks of its arrays, on disk and in memory. File names below are
  relative to the directory \<^verbatim>\<open>src\<close> of the repository.

  \<^bold>\<open>The program.\<close> An array is cut into chunks. On disk the chunks of an array lie in a data
  store, one file whose space a buddy allocator hands out in blocks of a power of two
  (\<^verbatim>\<open>src/util/DataStore.cpp\<close>); the free blocks are kept in a second file over a restart.
  \<^verbatim>\<open>DataStores\<close> manages the stores of an instance and flushes them in the background. Both
  files are opened through the \<^verbatim>\<open>FileManager\<close> (\<^verbatim>\<open>src/util/FileIO.cpp\<close>), which keeps a bounded
  number of descriptors open and reopens files on demand. In memory a chunk is an empty
  bitmap, the run-length encoded set of its cells, and a payload per attribute, the run-length
  encoded values of these cells (\<^verbatim>\<open>include/array/RLE.h\<close>, \<^verbatim>\<open>src/array/RLE.cpp\<close>). Coordinates of
  cells are mapped to positions in row-major order (\<^verbatim>\<open>include/util/CoordinatesMapper.h\<close>,
  \<^verbatim>\<open>include/util/ArrayCoordinatesMapper.h\<close>). Operators work on tiles, which are payloads; of
  them the filter is modelled (\<^verbatim>\<open>src/query/ops/filter/FilterArray.cpp\<close>).

  \<^bold>\<open>Conventions.\<close> An operation that can throw returns the exception or the value, together
  with the object as it was left (\<open>outcome\<close> in \<open>Prelude\<close>). Undefined behaviour of C++ is the
  error \<open>Undefined_Behaviour\<close>. Assertions are those of a release build, that is none, unless
  \<open>isDebug\<close> says otherwise. The operating system is an argument: for the file manager a list
  of answers, one per call; for a data store the record \<open>ds_env\<close>, which says of every call
  whether it succeeds and whether it finds a descriptor. A loop whose end depends on the
  answers is recursive over their list, and \<open>None\<close> means that it still runs when they are
  used up. The recursions of the allocator and the loops of the filter are partial functions,
  \<open>None\<close> if they do not end, and the theorems say that they end. Fuel is used in the cut, one
  unit for each position that a line copies and for each segment of the source, which the
  theorem on it shows to be enough, and in \<open>bi_collect\<close>, which repeats the steps of an
  iterator to state that it ends.
\<close>

text \<open>
  \<^bold>\<open>Foundations.\<close>
  \<^item> \<open>Prelude\<close>: 64-bit integers, exceptions as values, powers of two and aligned blocks.
  \<^item> \<open>Std_Containers\<close>: \<^verbatim>\<open>std::map\<close> and \<^verbatim>\<open>std::set\<close> as sorted lists; the locale
    \<open>ordered_map\<close> has the laws that the clients use.
  \<^item> \<open>Bytes\<close>: little-endian integers in memory and in files.

  \<^bold>\<open>Files.\<close>
  \<^item> \<open>File_IO\<close>: the retry loops of \<^verbatim>\<open>FileIO.cpp\<close> around the system calls, one definition per loop
    (\<open>writeAll_loop\<close>, \<open>readAllv_loop\<close>, ...), with what they transfer, when they end and when not.
  \<^item> \<open>File_Manager\<close>: the record \<open>FileManager\<close> has the heap of \<^verbatim>\<open>File\<close> objects, the list of open
    files and that of closed ones. \<open>fm_step\<close> is one critical section of one thread, with
    the failing ones: a reopening that fails and leaves the file on the list of open files, and
    a \<^verbatim>\<open>close\<close> that fails and leaves it on no list. \<open>fm_run\<close> is a run with its labels. Proved over
    all runs: the bound on the list and which files are open, that a pinned descriptor is not
    closed by others; for files that are \<open>intact\<close> (neither failure happened to them) the
    methods read and write what they should. Three defects are proved as well: the
    endless retry, the opening at the limit, the \<^verbatim>\<open>close\<close> that fails twice.

  \<^bold>\<open>Data stores.\<close>
  \<^item> \<open>Crc32\<close>: the table-driven checksum is the bitwise one, and detects bursts of 32 bits.
  \<^item> \<open>Buddy_Space\<close>: rounding to powers of two; free blocks and blocks in use as a partition.
  \<^item> \<open>Freelist_File\<close>: the second file byte by byte, \<^verbatim>\<open>FreelistBucket\<close>, and that any prefix of it
    is read as everything, as nothing or with an exception.
  \<^item> \<open>Data_Store\<close>: the record \<open>datastore\<close> and every method of \<^verbatim>\<open>DataStore\<close>.
  \<^item> \<open>Data_Store_Inv\<close>: the invariant \<open>ds_inv ds L\<close> and what each method does to it, also when it
    throws: \<open>half_grown\<close> and \<open>half_flushed\<close> are the states that a failing growth and a failing
    flush leave.
  \<^item> \<open>Data_Store_Run\<close>: \<open>store_step\<close> is one call, crash or restart with any environment, \<open>store_run\<close> a
    run with its events. Chunks are kept and stay apart over \<open>orderly\<close> runs. The runs that are
    not orderly are left out because the code then loses chunks. There is a theorem for each of
    these cases: a restart after a growth that failed, a crash after a flush that threw in its
    last call, and a restart with a larger minimum size. Stores above \<open>2 ^ 61\<close> bytes are left out
    because rounding up can then leave 64 bits.
  \<^item> \<open>Data_Stores\<close>: the manager, its background flusher, and the round trip of a store through
    closing and opening. The directory maps names to bytes; an open store has its bytes
    itself, and \<open>unlinked\<close> are the open stores whose name was removed.
\<close>

text \<open>
  \<^bold>\<open>Chunks in memory.\<close>
  \<^item> \<open>Coordinates\<close>: the comparisons and the two mappers, positions and chunk numbers at 64
    bits. Round trips and the order hold for chunks of at most \<open>2 ^ 63\<close> cells, which the schema
    checks (\<^verbatim>\<open>src/array/Metadata.cpp\<close>); chunk numbers for at most \<open>2 ^ 63\<close> chunks.
  \<^item> \<open>Rle_Bitmap\<close>: segments, search, iterators, constructors and the packed form of a bitmap;
    \<open>Rle_Bitmap_Cells\<close> gives a bitmap its meaning, the list \<open>cells\<close>, and proves each against it.
    \<^verbatim>\<open>iterator::skip\<close> needs value indexes without holes; \<open>bi_skip_hole\<close> shows why.
  \<^item> \<open>Rle_Cut\<close> and \<open>Rle_Cut_Cells\<close>: \<^verbatim>\<open>ConstRLEEmptyBitmap::cut\<close> refines the selection of a box.
  \<^item> \<open>Rle_Payload\<close>: segments, payloads, their iterator and the appender. \<open>Rle_Payload_Values\<close>: the
    meaning of a payload, a list of values; the locale \<open>value_encoding\<close> has what the appender
    needs of an encoding and is interpreted for bits, elements of a fixed size and values of
    varying size. \<open>Rle_Payload_Ops\<close>, \<open>Rle_Payload_Copy\<close> and \<open>Rle_Payload_Map\<close> have the other operations and
    constructors, with the locales \<open>copy_encoding\<close> and \<open>map_encoding\<close> over the first one;
    \<open>Rle_Payload_Props\<close> the properties for all types. Positions in segments are natural numbers;
    the code has 64 bits, which positions inside of a chunk do not leave.
  \<^item> \<open>Filter_Tile\<close>: the filter keeps the values whose predicate is true, and the bitmap it builds
    has the cells of these values. The predicate's tile is an argument.

  \<^bold>\<open>Not modelled.\<close> Locks and threads inside of a critical section, logging, statistics of
  time; within the modelled files the wrappers of stdio and directories, \<^verbatim>\<open>dumpFreelist\<close>,
  printing, values that carry tiles and \<^verbatim>\<open>appendAPartialSegmentOfValues\<close>. Unlinking a file and
  the \<^verbatim>\<open>close\<close> of a store that is dropped are taken to succeed. Outside of them: the
  storage manager above the data stores, array classes and iterators, the query parser,
  optimizer and executor, the other operators, types and expressions, network, catalog, MPI
  and the clients; they are object graphs over plugins, other processes or other systems.
\<close>

end
